(* ===== verification/Psp_Prelude.thy ===== *)
theory Psp_Prelude
  imports Main "HOL-Library.Word" "HOL-Library.Multiset"
begin

text \<open>
  Shared vocabulary of the development: the machine types of the C++ sources, the Linux error
  numbers the code returns, the type of results of operations that may stop the process, and the
  lemmas on words, rings and lists that several components use.

  All counters of the code are kept at their width (\<open>uint32_t\<close>, \<open>uint64_t\<close>); pointers are
  64-bit words with \<open>NULL = 0\<close>.  The model is of the release build the setup script makes
  (\<^verbatim>\<open>-DNDEBUG\<close>, no \<^verbatim>\<open>DEBUG\<close>, \<^verbatim>\<open>LOG_DEBUG\<close> or \<^verbatim>\<open>NET_DEBUG\<close>): assertions are compiled out, log statements have
  no effect on the state.
\<close>

unbundle bit_operations_syntax

named_theorems word_ring \<open>facts about masked ring indices and wrapping counters\<close>
named_theorems res_simps \<open>unfolding of results that may be faults\<close>

section \<open>Machine types\<close>

type_synonym u8 = "8 word"
type_synonym u16 = "16 word"
type_synonym u32 = "32 word"
type_synonym u64 = "64 word"
type_synonym ptr = "64 word"

abbreviation NULL :: ptr where "NULL \<equiv> 0"

section \<open>Error numbers\<close>

definition EPERM :: int where [simp]: "EPERM = 1"
definition ENOENT :: int where [simp]: "ENOENT = 2"
definition EAGAIN :: int where [simp]: "EAGAIN = 11"
definition ENOMEM :: int where [simp]: "ENOMEM = 12"
definition ENODEV :: int where [simp]: "ENODEV = 19"
definition EINVAL :: int where [simp]: "EINVAL = 22"
definition ERANGE :: int where [simp]: "ERANGE = 34"
definition EXFULL :: int where [simp]: "EXFULL = 54"
definition ENOTSUP :: int where [simp]: "ENOTSUP = 95"
definition ECONNREFUSED :: int where [simp]: "ECONNREFUSED = 111"

section \<open>Results\<close>

text \<open>
  An operation either returns or leaves the defined behaviour of the program.  \<open>Panic\<close> is
  \<open>abort()\<close>, \<open>NullDeref\<close> and \<open>OutOfBounds\<close> are accesses through a null pointer or
  outside an array, \<open>SignedOverflow\<close> is a signed C product or a conversion from floating point that
  does not fit its type, \<open>Exit\<close> is a call of \<open>exit\<close> with its status and \<open>OutOfFuel\<close> is a loop
  that has not finished within the iterations the model was given.
\<close>

datatype fault = Panic | NullDeref | OutOfBounds | SignedOverflow | DivByZero | Exit int | OutOfFuel

type_synonym 'a result = "fault + 'a"

definition res_bind :: "'a result \<Rightarrow> ('a \<Rightarrow> 'b result) \<Rightarrow> 'b result" where
  "res_bind m f = (case m of Inl e \<Rightarrow> Inl e | Inr x \<Rightarrow> f x)"

lemma res_bind_simps [simp]:
  "res_bind (Inl e) f = Inl e"
  "res_bind (Inr x) f = f x"
  by (simp_all add: res_bind_def)

lemma res_bind_eq_Inr [res_simps]:
  "res_bind m f = Inr y \<longleftrightarrow> (\<exists>x. m = Inr x \<and> f x = Inr y)"
  by (cases m) auto

lemma res_bind_eq_Inl [res_simps]:
  "res_bind m f = Inl e \<longleftrightarrow> m = Inl e \<or> (\<exists>x. m = Inr x \<and> f x = Inl e)"
  by (cases m) auto

section \<open>Rings indexed by wrapping counters\<close>

text \<open>
  Every ring of the program (the dispatcher's request queues, the UDP context's inbound and
  outbound queues, the LRPC channels) is an array of \<open>2 ^ n\<close> slots addressed by a free-running
  32-bit counter masked with \<open>2 ^ n - 1\<close>.  \<open>ring_list\<close> reads the pending elements between two
  counters; it is insensitive to the counters wrapping around.
\<close>

definition ring_idx :: "nat \<Rightarrow> u32 \<Rightarrow> nat" where
  "ring_idx n w = unat w mod 2 ^ n"

lemma ring_idx_less: "ring_idx n w < 2 ^ n"
  by (simp add: ring_idx_def)

lemma unat_and_mask_ring_idx:
  "unat (w AND (2 ^ n - 1)) = ring_idx n (w :: u32)"
proof -
  have "w AND (2 ^ n - 1) = take_bit n w"
    by (simp add: take_bit_eq_mask mask_eq_exp_minus_1)
  then show ?thesis
    by (simp add: ring_idx_def unsigned_take_bit_eq flip: take_bit_eq_mod)
qed

lemma ring_idx_add:
  assumes "n \<le> 32"
  shows "ring_idx n (w + of_nat k) = (unat w + k) mod 2 ^ n"
proof -
  have "(2 :: nat) ^ n dvd 2 ^ 32"
    using assms by (rule le_imp_power_dvd)
  then show ?thesis
    by (simp add: ring_idx_def unat_word_ariths unat_of_nat mod_mod_cancel mod_simps)
qed

lemma mod_add_inj:
  assumes "(a + i) mod m = (a + j) mod m" "i < m + j" "j < m + i" 
  shows "i = (j :: nat)"
proof -
  have "int (a + i) mod int m = int (a + j) mod int m"
    using assms(1) by (simp only: of_nat_mod [symmetric])
  then have "int m dvd int i - int j"
    by (simp add: mod_eq_dvd_iff)
  moreover have "\<bar>int i - int j\<bar> < int m" using assms(2,3) by linarith
  ultimately have "int i - int j = 0"
    using zdvd_not_zless [of "\<bar>int i - int j\<bar>" "int m"] by (cases "int i - int j = 0") simp_all
  then show ?thesis by simp
qed

lemma ring_idx_inj:
  assumes "n \<le> 32" "ring_idx n (w + of_nat i) = ring_idx n (w + of_nat j)" "i < 2 ^ n + j" "j < 2 ^ n + i"
  shows "i = j"
  using assms(2) unfolding ring_idx_add [OF assms(1)]
  by (rule mod_add_inj [OF _ assms(3,4)])

definition ring_list :: "nat \<Rightarrow> (nat \<Rightarrow> 'a) \<Rightarrow> u32 \<Rightarrow> u32 \<Rightarrow> 'a list" where
  "ring_list n buf h t = map (\<lambda>k. buf (ring_idx n (t + of_nat k))) [0..<unat (h - t)]"

lemma length_ring_list [simp]: "length (ring_list n buf h t) = unat (h - t)"
  by (simp add: ring_list_def)

lemma ring_list_empty [simp]: "ring_list n buf h h = []"
  by (simp add: ring_list_def)

lemma ring_list_eq_Nil [simp]: "ring_list n buf h t = [] \<longleftrightarrow> h = t"
  by (simp add: ring_list_def unat_eq_zero)

lemma unat_Suc_diff:
  assumes "unat (h - t) < 2 ^ 32 - 1"
  shows "unat (h + 1 - t :: u32) = Suc (unat (h - t))"
proof -
  have "h + 1 - t = (h - t) + 1" by simp
  moreover have "unat ((h - t) + 1) = unat (h - t) + 1"
    using assms by (subst unat_word_ariths) simp
  ultimately show ?thesis by (simp only: Suc_eq_plus1)
qed

lemma unat_diff_Suc:
  assumes "h \<noteq> (t :: u32)"
  shows "unat (h - t) = Suc (unat (h - (t + 1)))"
proof -
  have nz: "h - t \<noteq> 0" using assms by simp
  have eq: "h - (t + 1) = h - t - 1" by (rule diff_diff_add [symmetric])
  have "unat (h - t - 1) = unat (h - t) - 1" using nz by (rule unat_minus_one)
  moreover have "0 < unat (h - t)" using nz by (simp add: unat_gt_0)
  ultimately show ?thesis by (simp only: eq Suc_pred)
qed

lemma ring_list_push:
  assumes n: "n < 32" and room: "unat (h - t) < 2 ^ n"
  shows "ring_list n (buf(ring_idx n h := x)) (h + 1) t = ring_list n buf h t @ [x]"
proof -
  let ?m = "unat (h - t)"
  have lt: "(2::nat) ^ n \<le> 2 ^ 31" using n by (intro power_increasing) auto
  then have Suc: "unat (h + 1 - t) = Suc ?m"
    using room by (intro unat_Suc_diff) simp
  have h: "h = t + of_nat ?m" by simp
  have "ring_idx n (t + of_nat k) \<noteq> ring_idx n h" if "k < ?m" for k
  proof
    assume "ring_idx n (t + of_nat k) = ring_idx n h"
    then have "ring_idx n (t + of_nat ?m) = ring_idx n (t + of_nat k)" using h by simp
    then have "?m = k" using that room n by (intro ring_idx_inj [of n t ?m k]) simp_all
    then show False using that by simp
  qed
  then show ?thesis
    unfolding ring_list_def Suc by auto
qed

lemma ring_list_pop:
  assumes "h \<noteq> t"
  shows "ring_list n buf h t = buf (ring_idx n t) # ring_list n buf h (t + 1)"
proof -
  have "ring_list n buf h t = map (\<lambda>k. buf (ring_idx n (t + of_nat k))) [0..<Suc (unat (h - (t + 1)))]"
    by (simp only: ring_list_def unat_diff_Suc [OF assms])
  also have "\<dots> = buf (ring_idx n t) # ring_list n buf h (t + 1)"
    by (simp add: ring_list_def map_upt_Suc add.assoc del: upt_Suc)
  finally show ?thesis .
qed

section \<open>Masks\<close>

lemma and_not_minus: "(w :: 'a::len word) AND NOT m = w - (w AND m)"
proof -
  have "w - (w AND m) = w AND NOT (w AND m)"
    by (rule disjunctive_diff) (simp add: bit_simps)
  also have "\<dots> = w AND NOT m" by (rule bit_eqI) (auto simp: bit_simps)
  finally show ?thesis by simp
qed

lemma unat_and_mask: "unat ((w :: 'a::len word) AND mask n) = unat w mod 2 ^ n"
  by (simp add: unsigned_take_bit_eq flip: take_bit_eq_mask take_bit_eq_mod)

lemma unat_pow2: "n < LENGTH('a) \<Longrightarrow> unat (2 ^ n :: 'a::len word) = 2 ^ n"
proof -
  assume "n < LENGTH('a)"
  then have "uint (2 ^ n :: 'a word) = 2 ^ n" by (intro uint_2p) (simp add: word_gt_0)
  then show ?thesis by (simp add: unat_eq_nat_uint nat_power_eq)
qed

lemma bit_word_nat: "bit (w :: 'a::len word) n \<longleftrightarrow> odd (unat w div 2 ^ n)"
  by (simp add: bit_unsigned_iff flip: bit_iff_odd)

lemma unat_drop_bit: "unat (drop_bit n (w :: 'a::len word)) = unat w div 2 ^ n"
  unfolding unat_drop_bit_eq by (rule drop_bit_eq_div)

lemma unat_plus_one_less: "(a :: 'a::len word) < b \<Longrightarrow> unat (a + 1) = Suc (unat a)"
proof -
  assume "a < b"
  then have "unat a + 1 < 2 ^ LENGTH('a)"
    using unsigned_less [of b, where 'a = nat] by (simp only: word_less_nat_alt)
  then show ?thesis by (simp add: unat_word_ariths)
qed

lemma int_unat_eq: "int (unat w) = uint w"
  by simp

end
