(* ===== verification/Psp_Fail.thy ===== *)
theory Psp_Fail
  imports Psp_Prelude
begin

text \<open>
  The failure handling of \<^verbatim>\<open>src/c++/common/fail.c\<close> and the checking macros of
  \<^verbatim>\<open>include/psp/fail.h\<close> and \<^verbatim>\<open>include/psp/annot.h\<close>.  A handler receives the error number, the failed
  expression, the function name (or \<open>NULL\<close>), the file and the line; it returns or stops the
  process.  What \<open>fprintf\<close> reports is a parameter of the default handler.
\<close>

section \<open>Handlers\<close>

type_synonym onfail = "int \<Rightarrow> string \<Rightarrow> string option \<Rightarrow> string \<Rightarrow> int \<Rightarrow> unit result"

definition psp_panic :: "string option \<Rightarrow> string option \<Rightarrow> int \<Rightarrow> 'a result" where
  "psp_panic why filen lineno = Inl Panic"

definition default_onfail :: "int \<Rightarrow> onfail" where
  "default_onfail n err expr fnn filen lineno =
     (if err = 0 then psp_panic (Some ''attempt to fail with a success code.'') (Some filen) lineno
      else case fnn of
        None \<Rightarrow>
          (if n < 1 then psp_panic (Some ''fprintf() failed.'') (Some filen) lineno
           else psp_panic (Some ''Aborting the program.'') (Some filen) lineno)
      | Some _ \<Rightarrow>
          (if n < 1 then psp_panic (Some ''fprintf() failed.'') (Some filen) lineno
           else Inr ()))"

record fail_state =
  current_onfail :: onfail

definition psp_onfail :: "int \<Rightarrow> fail_state \<Rightarrow> onfail option \<Rightarrow> fail_state" where
  "psp_onfail n st h =
     (case h of None \<Rightarrow> st\<lparr>current_onfail := default_onfail n\<rparr>
              | Some f \<Rightarrow> st\<lparr>current_onfail := f\<rparr>)"

definition psp_fail :: "fail_state \<Rightarrow> onfail" where
  "psp_fail st err expr fnn filen lineno = current_onfail st err expr fnn filen lineno"

section \<open>The checking macros\<close>

text \<open>
  The macros end the enclosing function with the error number when the handler returns; \<open>ret\<close>
  is the conversion to that function's return type and \<open>k\<close> the rest of the function.
\<close>

definition PSP_TRUE :: "fail_state \<Rightarrow> int \<Rightarrow> bool \<Rightarrow> (int \<Rightarrow> 'a) \<Rightarrow> 'a result \<Rightarrow> 'a result" where
  "PSP_TRUE st err cond ret k =
     (if \<not> cond then res_bind (psp_fail st err ''Condition'' None ''file'' 0) (\<lambda>_. Inr (ret err))
      else k)"

definition PSP_OK :: "fail_state \<Rightarrow> int \<Rightarrow> (int \<Rightarrow> 'a) \<Rightarrow> 'a result \<Rightarrow> 'a result" where
  "PSP_OK st err ret k =
     (if 0 \<noteq> err then res_bind (psp_fail st err ''Error'' None ''file'' 0) (\<lambda>_. Inr (ret err))
      else k)"

definition PSP_UNREACHABLE :: "'a result" where
  "PSP_UNREACHABLE = psp_panic (Some ''unreachable code'') (Some ''file'') 0"

text \<open>
  No file of the program calls \<open>psp_onfail\<close>, so the handler in force is the default one; the
  components use the macros with it.
\<close>

definition fail0 :: fail_state where
  "fail0 = \<lparr>current_onfail = default_onfail 1\<rparr>"

definition psp_true :: "int \<Rightarrow> bool \<Rightarrow> 'a result \<Rightarrow> 'a result" where
  "psp_true err cond k = PSP_TRUE fail0 err cond (\<lambda>_. undefined) k"

definition psp_ok :: "int \<Rightarrow> 'a result \<Rightarrow> 'a result" where
  "psp_ok err k = PSP_OK fail0 err (\<lambda>_. undefined) k"

lemma default_onfail_no_function: "default_onfail n err expr None filen lineno = Inl Panic"
  by (simp add: default_onfail_def psp_panic_def)

lemma psp_true_simps [simp]:
  "psp_true err True k = k"
  "psp_true err False k = Inl Panic"
  by (simp_all add: psp_true_def PSP_TRUE_def fail0_def psp_fail_def default_onfail_no_function)

lemma psp_true_if: "psp_true err c k = (if c then k else Inl Panic)"
  by (cases c) simp_all

lemma psp_ok_if: "psp_ok err k = (if err = 0 then k else Inl Panic)"
  by (simp add: psp_ok_def PSP_OK_def fail0_def psp_fail_def default_onfail_no_function)

lemma psp_ok_0 [simp]: "psp_ok 0 k = k"
  by (simp add: psp_ok_if)

end
