(* ===== verification/Fifo.thy ===== *)
theory Fifo
  imports Psp_Prelude
begin

text \<open>
  The contract that the queues of the program share.  The run-to-completion task queue, the
  dispatcher's request rings and the LRPC channels are all bounded FIFO queues: an insertion
  into a queue with room appends, an insertion into a full queue changes nothing, a removal
  takes the oldest element.  The locale \<open>bounded_fifo\<close> states that for operations that may
  fault; its lemmas follow a whole sequence of operations.
\<close>

datatype 'a qop = Enq 'a | Deq

text \<open>The specification: a list bounded by \<open>cap\<close>, with the answers of the removals.\<close>

fun spec_step :: "nat \<Rightarrow> 'a list \<Rightarrow> 'a qop \<Rightarrow> 'a option list \<times> 'a list" where
  "spec_step cap xs (Enq x) = ([], if length xs < cap then xs @ [x] else xs)"
| "spec_step cap [] Deq = ([None], [])"
| "spec_step cap (x # xs) Deq = ([Some x], xs)"

fun spec_run :: "nat \<Rightarrow> 'a list \<Rightarrow> 'a qop list \<Rightarrow> 'a option list \<times> 'a list" where
  "spec_run cap xs [] = ([], xs)"
| "spec_run cap xs (a # as) =
     (let (o1, xs1) = spec_step cap xs a; (o2, xs2) = spec_run cap xs1 as in (o1 @ o2, xs2))"

text \<open>The same operations on an implementation.\<close>

fun impl_run ::
  "('q \<Rightarrow> 'a \<Rightarrow> 'q result) \<Rightarrow> ('q \<Rightarrow> ('a option \<times> 'q) result) \<Rightarrow> 'q \<Rightarrow> 'a qop list \<Rightarrow>
   ('a option list \<times> 'q) result" where
  "impl_run enq deq q [] = Inr ([], q)"
| "impl_run enq deq q (Enq x # as) = res_bind (enq q x) (\<lambda>q1. impl_run enq deq q1 as)"
| "impl_run enq deq q (Deq # as) =
     res_bind (deq q) (\<lambda>(r, q1). res_bind (impl_run enq deq q1 as) (\<lambda>(rs, q2). Inr (r # rs, q2)))"

locale bounded_fifo =
  fixes enq :: "'q \<Rightarrow> 'a \<Rightarrow> 'q result"
    and deq :: "'q \<Rightarrow> ('a option \<times> 'q) result"
    and contents :: "'q \<Rightarrow> 'a list"
    and bound :: "'q \<Rightarrow> nat"
    and invar :: "'q \<Rightarrow> bool"
  assumes enq_room: "invar q \<Longrightarrow> length (contents q) < bound q \<Longrightarrow>
      \<exists>q'. enq q x = Inr q' \<and> contents q' = contents q @ [x] \<and> bound q' = bound q \<and> invar q'"
    and enq_full: "invar q \<Longrightarrow> length (contents q) = bound q \<Longrightarrow>
      \<exists>q'. enq q x = Inr q' \<and> contents q' = contents q \<and> bound q' = bound q \<and> invar q'"
    and deq_none: "invar q \<Longrightarrow> contents q = [] \<Longrightarrow> deq q = Inr (None, q)"
    and deq_some: "invar q \<Longrightarrow> contents q = x # xs \<Longrightarrow>
      \<exists>q'. deq q = Inr (Some x, q') \<and> contents q' = xs \<and> bound q' = bound q \<and> invar q'"
    and contents_bound: "invar q \<Longrightarrow> length (contents q) \<le> bound q"
begin

lemma enq_total:
  assumes "invar q"
  obtains q' where "enq q x = Inr q'" "invar q'" "bound q' = bound q"
    "contents q' = (if length (contents q) < bound q then contents q @ [x] else contents q)"
proof (cases "length (contents q) < bound q")
  case True
  with enq_room [OF assms True] that show ?thesis by auto
next
  case False
  then have "length (contents q) = bound q" using contents_bound [OF assms] by simp
  with enq_full [OF assms this] False that show ?thesis by auto
qed

lemma run_refines:
  assumes "invar q"
  shows "\<exists>q'. impl_run enq deq q as = Inr (fst (spec_run (bound q) (contents q) as), q') \<and>
    contents q' = snd (spec_run (bound q) (contents q) as) \<and> bound q' = bound q \<and> invar q'"
  using assms
proof (induction as arbitrary: q)
  case Nil
  then show ?case by simp
next
  case (Cons a as)
  show ?case
  proof (cases a)
    case (Enq x)
    obtain q1 where q1: "enq q x = Inr q1" "invar q1" "bound q1 = bound q"
        "contents q1 = (if length (contents q) < bound q then contents q @ [x] else contents q)"
      using enq_total [OF Cons.prems] .
    with Cons.IH [OF q1(2)] Enq show ?thesis
      by (auto simp: split_beta Let_def split: if_splits)
  next
    case Deq
    show ?thesis
    proof (cases "contents q")
      case Nil
      with Cons.IH [OF Cons.prems] deq_none [OF Cons.prems Nil] Deq show ?thesis
        by (auto simp: split_beta Let_def)
    next
      case (Cons x xs)
      obtain q1 where "deq q = Inr (Some x, q1)" "contents q1 = xs" "bound q1 = bound q" "invar q1"
        using deq_some [OF Cons.prems Cons] by blast
      with Cons.IH [of q1] Deq Cons show ?thesis
        by (auto simp: split_beta Let_def)
    qed
  qed
qed

end

lemma spec_run_Enq:
  "length xs + length ys \<le> cap \<Longrightarrow> spec_run cap xs (map Enq ys @ as) = spec_run cap (xs @ ys) as"
  by (induction ys arbitrary: xs) (auto simp: split_beta Let_def)

lemma spec_run_Deq: "spec_run cap xs (replicate (length xs) Deq) = (map Some xs, [])"
  by (induction xs) (auto simp: split_beta Let_def)

lemma spec_run_roundtrip:
  "length xs \<le> cap \<Longrightarrow>
   spec_run cap [] (map Enq xs @ replicate (length xs) Deq) = (map Some xs, [])"
  by (simp add: spec_run_Enq spec_run_Deq)

end
