(* ===== verification/Mempool.thy ===== *)
theory Mempool
  imports Psp_Fail
begin

text \<open>
  The preallocated pools of \<^verbatim>\<open>include/base/mempool.h\<close>.  A pool is a stack of free item addresses kept
  in an array: \<open>allocated\<close> counts the items handed out and is the index of the next free one.
  The contract of a pool is the locale \<open>item_pool\<close>; the model of \<open>struct mempool\<close> is an
  interpretation of it.
\<close>

section \<open>The pool and its operations\<close>

record mempool =
  free_items :: "ptr list"
  allocated :: u64
  capacity :: u64
  buf :: ptr
  mp_len :: u64
  pgsize :: u64
  item_len :: u64
  num_items :: u64
  num_pages :: u64

definition mempool_alloc :: "mempool \<Rightarrow> (ptr \<times> mempool) result" where
  "mempool_alloc m =
     (if capacity m \<le> allocated m then Inr (NULL, m)
      else if unat (allocated m) < length (free_items m)
      then Inr (free_items m ! unat (allocated m), m\<lparr>allocated := allocated m + 1\<rparr>)
      else Inl OutOfBounds)"

definition mempool_free :: "mempool \<Rightarrow> ptr \<Rightarrow> mempool result" where
  "mempool_free m item =
     (let a = allocated m - 1 in
      if unat a < length (free_items m)
      then Inr (m\<lparr>allocated := a, free_items := (free_items m)[unat a := item]\<rparr>)
      else Inl OutOfBounds)"

text \<open>The loop that fills the free list: \<open>n\<close> items from \<open>p\<close> on, \<open>siz\<close> bytes apart.\<close>

fun fill_items :: "nat \<Rightarrow> ptr \<Rightarrow> u64 \<Rightarrow> ptr list" where
  "fill_items 0 p siz = []"
| "fill_items (Suc n) p siz = p # fill_items n (p + siz) siz"

text \<open>
  \<open>bufp\<close> and \<open>itemsp\<close> are what the two calls of \<open>malloc\<close> return.  The product of the two
  \<open>int\<close> arguments is a signed C product.
\<close>

definition mempool_create ::
  "mempool option \<Rightarrow> int \<Rightarrow> int \<Rightarrow> ptr \<Rightarrow> ptr \<Rightarrow> (int \<times> mempool option) result" where
  "mempool_create mo n_elements element_siz bufp itemsp =
     (case mo of None \<Rightarrow> Inr (-1, None) | Some m \<Rightarrow>
      if n_elements \<le> 0 \<or> element_siz \<le> 0 then Inr (-1, Some m)
      else if 2 ^ 31 \<le> n_elements * element_siz then Inl SignedOverflow
      else
        let m1 = m\<lparr>mp_len := of_int (n_elements * element_siz), pgsize := 0,
                   item_len := of_int element_siz, buf := bufp\<rparr> in
        if bufp = NULL then Inr (-1, Some m1)
        else
          let m2 = m1\<lparr>num_items := mp_len m1 div of_int element_siz, num_pages := 0\<rparr> in
          if itemsp = NULL then Inr (-1, Some m2)
          else Inr (0, Some (m2\<lparr>allocated := 0, capacity := num_items m2,
                 free_items := fill_items (unat (num_items m2)) bufp (of_int element_siz)\<rparr>)))"

definition mempool_destroy :: "mempool \<Rightarrow> mempool" where
  "mempool_destroy m =
     \<lparr>free_items = [], allocated = 0, capacity = 0, buf = NULL, mp_len = 0, pgsize = 0,
      item_len = 0, num_items = 0, num_pages = 0\<rparr>"

section \<open>The contract of a pool\<close>

text \<open>
  \<open>avail\<close> lists the free items in the order they will be handed out, \<open>total\<close> is the number of
  items of the pool.  An exhausted pool answers \<open>NULL\<close> and stays as it is.
\<close>

locale item_pool =
  fixes alloc :: "'m \<Rightarrow> (ptr \<times> 'm) result"
    and release :: "'m \<Rightarrow> ptr \<Rightarrow> 'm result"
    and avail :: "'m \<Rightarrow> ptr list"
    and total :: "'m \<Rightarrow> nat"
    and invar :: "'m \<Rightarrow> bool"
  assumes alloc_exhausted: "invar m \<Longrightarrow> avail m = [] \<Longrightarrow> alloc m = Inr (NULL, m)"
    and alloc_item: "invar m \<Longrightarrow> avail m = x # xs \<Longrightarrow>
      \<exists>m'. alloc m = Inr (x, m') \<and> avail m' = xs \<and> total m' = total m \<and> invar m'"
    and release_item: "invar m \<Longrightarrow> x \<noteq> NULL \<Longrightarrow> x \<notin> set (avail m) \<Longrightarrow> length (avail m) < total m \<Longrightarrow>
      \<exists>m'. release m x = Inr m' \<and> avail m' = x # avail m \<and> total m' = total m \<and> invar m'"
    and invar_avail: "invar m \<Longrightarrow> distinct (avail m) \<and> NULL \<notin> set (avail m) \<and> length (avail m) \<le> total m"
begin

lemma alloc_total: "invar m \<Longrightarrow> \<exists>x m'. alloc m = Inr (x, m') \<and> invar m' \<and> total m' = total m"
  by (cases "avail m") (auto dest: alloc_exhausted alloc_item)

lemma alloc_cases:
  assumes "invar m" "alloc m = Inr (x, m')"
  obtains (exhausted) "avail m = []" "x = NULL" "m' = m"
  | (item) "avail m = x # avail m'" "x \<noteq> NULL" "x \<notin> set (avail m')" "total m' = total m" "invar m'"
proof (cases "avail m")
  case Nil
  with assms alloc_exhausted show ?thesis by (auto intro: exhausted)
next
  case (Cons y ys)
  from alloc_item [OF assms(1) Cons] assms(2) have "x = y" "avail m' = ys" "total m' = total m" "invar m'"
    by auto
  moreover have "distinct (y # ys)" "NULL \<notin> set (y # ys)"
    using invar_avail [OF assms(1)] Cons by simp_all
  ultimately show ?thesis using Cons by (intro item) auto
qed

lemma alloc_NULL_iff:
  assumes "invar m" "alloc m = Inr (x, m')"
  shows "x = NULL \<longleftrightarrow> avail m = []"
  by (rule alloc_cases [OF assms]) auto

lemma release_alloc:
  assumes "invar m" "alloc m = Inr (x, m')" "x \<noteq> NULL"
  obtains m'' where "release m' x = Inr m''" "avail m'' = avail m" "invar m''" "total m'' = total m"
proof (rule alloc_cases [OF assms(1,2)])
  assume item: "avail m = x # avail m'" "x \<notin> set (avail m')" "total m' = total m" "invar m'"
  have "length (avail m) \<le> total m" using invar_avail [OF assms(1)] by simp
  then have "length (avail m') < total m'" using item by simp
  from release_item [OF item(4) assms(3) item(2) this] item that show ?thesis by auto
qed (use assms(3) in auto)

end

text \<open>
  A script of a pool's clients: each step allocates an item or gives back one of those outstanding,
  named by its position among them.  The run keeps the items outstanding and the answers given.
\<close>

datatype pool_op = PAlloc | PFree nat

fun pool_run :: "('m \<Rightarrow> (ptr \<times> 'm) result) \<Rightarrow> ('m \<Rightarrow> ptr \<Rightarrow> 'm result) \<Rightarrow> pool_op list \<Rightarrow> ptr list \<Rightarrow> 'm
    \<Rightarrow> (ptr list \<times> ptr list \<times> 'm) result" where
  "pool_run al fr [] held m = Inr ([], held, m)"
| "pool_run al fr (PAlloc # ops) held m =
     res_bind (al m) (\<lambda>(x, m1).
       res_bind (pool_run al fr ops (if x = NULL then held else held @ [x]) m1) (\<lambda>(xs, h, m2).
         Inr (x # xs, h, m2)))"
| "pool_run al fr (PFree k # ops) held m =
     (if k < length held
      then res_bind (fr m (held ! k)) (\<lambda>m1. pool_run al fr ops (take k held @ drop (Suc k) held) m1)
      else pool_run al fr ops held m)"

lemma mset_remove_nth:
  assumes "k < length xs"
  shows "mset xs = add_mset (xs ! k) (mset (take k xs @ drop (Suc k) xs))"
proof -
  have "mset xs = mset (take k xs @ xs ! k # drop (Suc k) xs)" using id_take_nth_drop [OF assms] by simp
  then show ?thesis by simp
qed

context item_pool
begin

definition held_ok :: "'m \<Rightarrow> ptr list \<Rightarrow> bool" where
  "held_ok m held \<longleftrightarrow> invar m \<and> distinct (held @ avail m) \<and> NULL \<notin> set held \<and>
     length held + length (avail m) = total m"

lemma held_ok_alloc:
  assumes "held_ok m held"
  shows "\<exists>x m'. alloc m = Inr (x, m') \<and>
    (if length held = total m then x = NULL \<and> m' = m
     else x \<noteq> NULL \<and> x \<notin> set held \<and> x \<in> set (avail m) \<and> held_ok m' (held @ [x]) \<and>
       mset ((held @ [x]) @ avail m') = mset (held @ avail m) \<and> total m' = total m)"
proof (cases "avail m")
  case Nil
  then show ?thesis using assms alloc_exhausted by (auto simp: held_ok_def)
next
  case (Cons x xs)
  have inv: "invar m" using assms by (simp add: held_ok_def)
  from alloc_item [OF inv Cons] obtain m'
    where m': "alloc m = Inr (x, m')" "avail m' = xs" "total m' = total m" "invar m'" by blast
  have "x \<noteq> NULL" using invar_avail [OF inv] Cons by auto
  then show ?thesis using assms m' Cons by (auto simp: held_ok_def)
qed

lemma held_ok_release:
  assumes "held_ok m held" "k < length held"
  shows "\<exists>m'. release m (held ! k) = Inr m' \<and> held_ok m' (take k held @ drop (Suc k) held) \<and>
    mset ((take k held @ drop (Suc k) held) @ avail m') = mset (held @ avail m) \<and> total m' = total m"
proof -
  let ?x = "held ! k" and ?rest = "take k held @ drop (Suc k) held"
  have x: "?x \<in> set held" using assms(2) by simp
  then have "?x \<noteq> NULL" using assms(1) unfolding held_ok_def by metis
  moreover have "?x \<notin> set (avail m)" using assms(1) x by (meson disjoint_iff distinct_append held_ok_def)
  moreover have "length (avail m) < total m" "invar m" using assms by (auto simp: held_ok_def)
  ultimately obtain m'
    where m': "release m ?x = Inr m'" "avail m' = ?x # avail m" "total m' = total m" "invar m'"
    using release_item by blast
  have ms: "mset (?rest @ avail m') = mset (held @ avail m)"
    using mset_remove_nth [OF assms(2)] m'(2) by simp
  then have "distinct (?rest @ avail m')"
    using assms(1) mset_eq_imp_distinct_iff [OF ms] by (simp add: held_ok_def)
  moreover have "length (?rest @ avail m') = total m'"
    using mset_eq_length [OF ms] assms(1) m'(3) by (simp add: held_ok_def)
  moreover have "NULL \<notin> set ?rest"
    using assms(1) by (auto simp: held_ok_def dest: in_set_takeD in_set_dropD)
  ultimately show ?thesis using m' ms by (simp add: held_ok_def)
qed

lemma pool_run_ok:
  assumes "held_ok m held"
  shows "\<exists>xs held' m'. pool_run alloc release ops held m = Inr (xs, held', m') \<and> held_ok m' held' \<and>
    mset (held' @ avail m') = mset (held @ avail m) \<and> total m' = total m"
  using assms
proof (induction ops arbitrary: held m)
  case Nil
  then show ?case by simp
next
  case (Cons op ops)
  show ?case
  proof (cases op)
    case PAlloc
    from held_ok_alloc [OF Cons.prems] obtain x m1 where x: "alloc m = Inr (x, m1)"
      "if length held = total m then x = NULL \<and> m1 = m
       else x \<noteq> NULL \<and> held_ok m1 (held @ [x]) \<and>
         mset ((held @ [x]) @ avail m1) = mset (held @ avail m) \<and> total m1 = total m"
      by (metis (full_types))
    let ?h = "if x = NULL then held else held @ [x]"
    have h: "held_ok m1 ?h" "mset (?h @ avail m1) = mset (held @ avail m)" "total m1 = total m"
      using x(2) Cons.prems by (auto split: if_splits)
    from Cons.IH [OF h(1)] obtain xs held' m'
      where "pool_run alloc release ops ?h m1 = Inr (xs, held', m')" "held_ok m' held'"
        "mset (held' @ avail m') = mset (?h @ avail m1)" "total m' = total m1" by blast
    with x(1) h(2,3) PAlloc show ?thesis by simp
  next
    case (PFree k)
    show ?thesis
    proof (cases "k < length held")
      case True
      from held_ok_release [OF Cons.prems True] obtain m1
        where m1: "release m (held ! k) = Inr m1" "held_ok m1 (take k held @ drop (Suc k) held)"
          "mset ((take k held @ drop (Suc k) held) @ avail m1) = mset (held @ avail m)"
          "total m1 = total m" by blast
      from Cons.IH [OF m1(2)] show ?thesis using PFree True m1(1,3,4) by auto
    next
      case False
      with Cons.IH [OF Cons.prems] PFree show ?thesis by simp
    qed
  qed
qed

end

section \<open>The model satisfies the contract\<close>

definition mp_avail :: "mempool \<Rightarrow> ptr list" where
  "mp_avail m = drop (unat (allocated m)) (free_items m)"

definition mempool_wf :: "mempool \<Rightarrow> bool" where
  "mempool_wf m \<longleftrightarrow>
     length (free_items m) = unat (capacity m) \<and> allocated m \<le> capacity m \<and>
     distinct (mp_avail m) \<and> NULL \<notin> set (mp_avail m)"

lemma mp_avail_Cons:
  assumes "mempool_wf m" "mp_avail m = x # xs"
  shows "allocated m < capacity m" "unat (allocated m) < length (free_items m)"
    "free_items m ! unat (allocated m) = x" "drop (Suc (unat (allocated m))) (free_items m) = xs"
proof -
  show lt: "unat (allocated m) < length (free_items m)"
    using assms(2) by (metis drop_all list.distinct(1) mp_avail_def not_le)
  then show "allocated m < capacity m"
    using assms(1) by (simp add: mempool_wf_def word_less_nat_alt)
  show "free_items m ! unat (allocated m) = x" "drop (Suc (unat (allocated m))) (free_items m) = xs"
    using assms(2) lt by (simp_all add: mp_avail_def Cons_nth_drop_Suc [symmetric])
qed

lemma unat_minus_one_pos: "0 < (a :: u64) \<Longrightarrow> Suc (unat (a - 1)) = unat a"
proof -
  assume "0 < a"
  then have "a \<noteq> 0" "0 < unat a" by (simp_all add: word_gt_0 unat_gt_0)
  then show ?thesis by (simp add: unat_minus_one)
qed

lemma mempool_alloc_exhausted:
  assumes "mempool_wf m" "mp_avail m = []"
  shows "mempool_alloc m = Inr (NULL, m)"
proof -
  have "length (free_items m) \<le> unat (allocated m)" using assms(2) by (simp add: mp_avail_def)
  then have "capacity m \<le> allocated m" using assms(1) by (simp add: mempool_wf_def word_le_nat_alt)
  then show ?thesis by (simp add: mempool_alloc_def)
qed

lemma mempool_alloc_item:
  assumes "mempool_wf m" "mp_avail m = x # xs"
  shows "\<exists>m'. mempool_alloc m = Inr (x, m') \<and> mp_avail m' = xs \<and> unat (capacity m') = unat (capacity m)
    \<and> mempool_wf m'"
proof -
  let ?m = "m\<lparr>allocated := allocated m + 1\<rparr>"
  note c = mp_avail_Cons [OF assms]
  have av: "mp_avail ?m = xs"
    using c by (simp add: mp_avail_def unat_plus_one_less [OF c(1)])
  have "mempool_wf ?m"
    using assms av c(1) inc_le [OF c(1)] by (simp add: mempool_wf_def)
  moreover have "mempool_alloc m = Inr (x, ?m)"
    using c c(1) [folded not_le] by (auto simp: mempool_alloc_def)
  ultimately show ?thesis using av by simp
qed

lemma mempool_free_item:
  assumes "mempool_wf m" "x \<noteq> NULL" "x \<notin> set (mp_avail m)" "length (mp_avail m) < unat (capacity m)"
  shows "\<exists>m'. mempool_free m x = Inr m' \<and> mp_avail m' = x # mp_avail m \<and>
    unat (capacity m') = unat (capacity m) \<and> mempool_wf m'"
proof -
  have "0 < unat (allocated m)" using assms(1,4) by (simp add: mp_avail_def mempool_wf_def)
  then have pos: "0 < allocated m" by (simp add: word_less_nat_alt)
  let ?a = "unat (allocated m - 1)"
  have a: "Suc ?a = unat (allocated m)" using pos by (rule unat_minus_one_pos)
  then have lt: "?a < length (free_items m)"
    using assms(1) by (simp add: mempool_wf_def word_le_nat_alt)
  let ?m = "m\<lparr>allocated := allocated m - 1, free_items := (free_items m)[?a := x]\<rparr>"
  have av: "mp_avail ?m = x # mp_avail m"
    using lt a by (simp add: mp_avail_def drop_update_swap Cons_nth_drop_Suc [symmetric])
  moreover have "allocated m - 1 \<le> capacity m"
    using a assms(1) by (simp add: mempool_wf_def word_le_nat_alt)
  ultimately have "mempool_wf ?m" using assms by (simp add: mempool_wf_def)
  then show ?thesis using lt av by (simp add: mempool_free_def Let_def)
qed

interpretation mp: item_pool mempool_alloc mempool_free mp_avail "\<lambda>m. unat (capacity m)" mempool_wf
  using mempool_alloc_exhausted mempool_alloc_item mempool_free_item
  by unfold_locales (auto simp: mempool_wf_def mp_avail_def)

section \<open>Creation\<close>

lemma fill_items_map: "fill_items n p siz = map (\<lambda>i. p + of_nat i * siz) [0..<n]"
proof (induction n arbitrary: p)
  case (Suc n)
  show ?case unfolding fill_items.simps Suc map_upt_Suc by (simp add: algebra_simps)
qed simp

lemma length_fill_items [simp]: "length (fill_items n p siz) = n"
  by (simp add: fill_items_map)

lemma unat_item_addr:
  assumes "unat p + n * unat siz \<le> 2 ^ 64" "0 < unat (siz :: u64)" "i < n"
  shows "unat (p + of_nat i * siz) = unat p + i * unat siz"
proof -
  have "Suc i * unat siz \<le> n * unat siz" using assms(3) by (intro mult_le_mono1) simp
  then have "unat p + i * unat siz < 2 ^ 64" using assms(1,2) by simp
  moreover have "i * 1 \<le> i * unat siz" using assms(2) by (intro mult_le_mono2) simp
  ultimately show ?thesis by (simp add: unat_word_ariths unat_of_nat mod_simps)
qed

lemma fill_items_distinct:
  assumes "unat p + n * unat siz \<le> 2 ^ 64" "0 < unat siz" "p \<noteq> NULL"
  shows "distinct (fill_items n p siz) \<and> NULL \<notin> set (fill_items n p siz)"
proof -
  have "inj_on (\<lambda>i. p + of_nat i * siz) {0..<n}"
  proof (rule inj_onI)
    fix i j assume "i \<in> {0..<n}" "j \<in> {0..<n}" "p + of_nat i * siz = p + of_nat j * siz"
    then have "unat p + i * unat siz = unat p + j * unat siz"
      using unat_item_addr [OF assms(1,2)] by (metis atLeastLessThan_iff)
    then show "i = j" using assms(2) by simp
  qed
  moreover have "p + of_nat i * siz \<noteq> NULL" if "i < n" for i
  proof -
    have "0 < unat (p + of_nat i * siz)"
      using unat_item_addr [OF assms(1,2) that] assms(3) by (simp add: unat_gt_0)
    then show ?thesis by (simp add: unat_gt_0)
  qed
  ultimately show ?thesis by (auto simp: fill_items_map distinct_map)
qed

lemma unat_of_int_pos:
  assumes "0 \<le> z" "z < 2 ^ 31"
  shows "unat (of_int z :: u64) = nat z"
proof -
  have "z < 2 ^ 64" using assms(2) by simp
  then show ?thesis using assms(1) by (simp add: unat_eq_nat_uint uint_word_of_int)
qed

lemma mempool_create_items:
  assumes "0 < n" "0 < siz" "n * siz < 2 ^ 31"
  shows "(of_int (n * siz) :: u64) div of_int siz = of_int n"
proof -
  have "n * 1 \<le> n * siz" "1 * siz \<le> n * siz" using assms(1,2) by (auto intro: mult_left_mono mult_right_mono)
  then have "n < 2 ^ 31" "siz < 2 ^ 31" using assms(3) by linarith+
  then have "unat (of_int (n * siz) div of_int siz :: u64) = unat (of_int n :: u64)"
    using assms unat_of_int_pos [of "n * siz"] unat_of_int_pos [of siz] unat_of_int_pos [of n]
    by (simp add: unat_div nat_mult_distrib del: of_int_mult)
  then show ?thesis by (simp only: word_unat_eq_iff)
qed

lemma mempool_create_success:
  assumes "0 < n" "0 < siz" "n * siz < 2 ^ 31" "bufp \<noteq> NULL" "itemsp \<noteq> NULL"
    and "unat bufp + nat (n * siz) \<le> 2 ^ 64"
  shows "\<exists>m'. mempool_create (Some m) n siz bufp itemsp = Inr (0, Some m') \<and> mempool_wf m' \<and>
     capacity m' = of_int n \<and> allocated m' = 0 \<and>
     mp_avail m' = map (\<lambda>i. bufp + of_nat i * of_int siz) [0..<nat n]"
proof -
  have "n * 1 \<le> n * siz" "1 * siz \<le> n * siz" using assms(1,2) by (auto intro: mult_left_mono mult_right_mono)
  then have small: "n < 2 ^ 31" "siz < 2 ^ 31" using assms(3) by linarith+
  have un: "unat (of_int n :: u64) = nat n" "unat (of_int siz :: u64) = nat siz"
    using assms(1,2) small by (auto intro: unat_of_int_pos)
  have "distinct (fill_items (nat n) bufp (of_int siz)) \<and> NULL \<notin> set (fill_items (nat n) bufp (of_int siz))"
    using assms un by (intro fill_items_distinct) (simp_all add: nat_mult_distrib)
  then show ?thesis
    using assms un mempool_create_items [OF assms(1-3)]
    by (simp add: mempool_create_def Let_def mempool_wf_def mp_avail_def fill_items_map del: of_int_mult)
qed

text \<open>
  \<open>mempool_create\<close>, on every branch.  Non-positive arguments are rejected and leave the pool as
  it was; a product that does not fit a C \<open>int\<close> is the undefined signed overflow; a failed
  \<open>malloc\<close> gives -1; otherwise the result is a well-formed pool of exactly \<open>n_elements\<close> free
  items, the addresses \<open>buf + i * element_siz\<close>, all different and none \<open>NULL\<close>, as long as the
  memory \<open>malloc\<close> returned does not wrap around the address space.
\<close>

theorem mempool_create_spec:
  assumes "unat bufp + nat (n * siz) \<le> 2 ^ 64"
  shows "if n \<le> 0 \<or> siz \<le> 0 then mempool_create (Some m) n siz bufp itemsp = Inr (-1, Some m)
     else if 2 ^ 31 \<le> n * siz then mempool_create (Some m) n siz bufp itemsp = Inl SignedOverflow
     else if bufp = NULL \<or> itemsp = NULL
     then \<exists>m'. mempool_create (Some m) n siz bufp itemsp = Inr (-1, Some m')
     else \<exists>m'. mempool_create (Some m) n siz bufp itemsp = Inr (0, Some m') \<and> mempool_wf m' \<and>
       capacity m' = of_int n \<and> allocated m' = 0 \<and>
       mp_avail m' = map (\<lambda>i. bufp + of_nat i * of_int siz) [0..<nat n]"
proof (cases "n \<le> 0 \<or> siz \<le> 0 \<or> 2 ^ 31 \<le> n * siz \<or> bufp = NULL \<or> itemsp = NULL")
  case True
  then show ?thesis by (auto simp: mempool_create_def Let_def)
next
  case False
  then show ?thesis using mempool_create_success [of n siz bufp itemsp m] assms by simp
qed

definition ex_pool :: mempool where
  "ex_pool = \<lparr>free_items = [4096, 4608, 5120], allocated = 0, capacity = 3, buf = 4096, mp_len = 1536,
     pgsize = 0, item_len = 512, num_items = 3, num_pages = 0\<rparr>"

theorem mempool_create_spec_witness:
  "\<exists>m'. mempool_create (Some ex_pool) 4 512 65536 16 = Inr (0, Some m') \<and> mempool_wf m' \<and>
     capacity m' = 4 \<and> allocated m' = 0 \<and> mp_avail m' = [65536, 66048, 66560, 67072]"
  using mempool_create_spec [of 65536 4 512 ex_pool 16] by (simp add: upt_rec)

section \<open>Allocation\<close>

text \<open>
  C8: Whatever its clients allocate and in whatever order they give items back, a pool hands out no
  item twice.  Any script of calls of \<open>mempool_alloc\<close> and of calls of \<open>mempool_free\<close> on outstanding
  items runs without a fault from a pool with nothing allocated; afterwards the outstanding and the
  free items together are exactly the items of the pool, each once; and the next allocation returns
  an item of the pool that is not outstanding, or \<open>NULL\<close>, leaving the pool as it is, exactly when all
  items are outstanding.
\<close>

theorem mempool_script_exclusive:
  assumes "mempool_wf m" "allocated m = 0"
  shows "\<exists>xs held m'. pool_run mempool_alloc mempool_free ops [] m = Inr (xs, held, m') \<and>
      mempool_wf m' \<and> distinct (held @ mp_avail m') \<and> mset (held @ mp_avail m') = mset (free_items m) \<and>
      (\<exists>x m''. mempool_alloc m' = Inr (x, m'') \<and>
         (if length held = unat (capacity m) then x = NULL \<and> m'' = m'
          else x \<noteq> NULL \<and> x \<notin> set held \<and> x \<in> set (free_items m) \<and>
            mset (x # held @ mp_avail m'') = mset (free_items m)))"
proof -
  have av: "mp_avail m = free_items m" using assms(2) by (simp add: mp_avail_def)
  then have "mp.held_ok m []" using assms by (simp add: mp.held_ok_def mempool_wf_def)
  from mp.pool_run_ok [OF this, of ops] obtain xs held m'
    where r: "pool_run mempool_alloc mempool_free ops [] m = Inr (xs, held, m')" "mp.held_ok m' held"
      "mset (held @ mp_avail m') = mset (free_items m)" "unat (capacity m') = unat (capacity m)"
    using av by auto
  from mset_eq_setD [OF r(3)] have "set (mp_avail m') \<subseteq> set (free_items m)" by auto
  then show ?thesis
    using r mp.held_ok_alloc [OF r(2)] by (fastforce simp: mp.held_ok_def)
qed

theorem mempool_script_exclusive_witness:
  "\<exists>held m' m''. pool_run mempool_alloc mempool_free [PAlloc, PAlloc, PFree 0] [] ex_pool =
       Inr ([4096, 4608], held, m') \<and> held = [4608] \<and>
     mempool_alloc m' = Inr (4096, m'') \<and> mset (4096 # held @ mp_avail m'') = {#4096, 4608, 5120#}"
proof -
  have "mempool_wf ex_pool" "allocated ex_pool = 0"
    by (simp_all add: mempool_wf_def mp_avail_def ex_pool_def)
  from mempool_script_exclusive [OF this, of "[PAlloc, PAlloc, PFree 0]"] show ?thesis
    by (auto simp: ex_pool_def mempool_alloc_def mempool_free_def Let_def mp_avail_def word_le_nat_alt)
qed

end
