(* ===== verification/Taskqueue.thy ===== *)
theory Taskqueue
  imports Mempool Fifo
begin

text \<open>
  \<^verbatim>\<open>include/psp/taskqueue.h\<close>: the singly linked queue of tasks, whose nodes come from \<open>task_mempool\<close>,
  and the execution contexts with their stacks, which come from \<open>context_pool\<close> and
  \<open>stack_pool\<close>.  Nodes live in a store from addresses to \<open>struct task\<close>.  The queue is shown to
  be a bounded FIFO (an interpretation of \<open>bounded_fifo\<close>) on top of the contract of the pools.
\<close>

section \<open>Tasks and their queue\<close>

record task =
  t_runnable :: ptr
  t_mbuf :: ptr
  t_type :: u8
  t_category :: u8
  t_timestamp :: u64
  t_next :: ptr

record task_queue =
  tq_head :: ptr
  tq_tail :: ptr

record task_mem =
  tasks :: "ptr \<Rightarrow> task"
  task_mempool :: mempool

text \<open>The five values a task carries: runnable, mbuf, type, category, timestamp.\<close>

type_synonym task_data = "ptr \<times> ptr \<times> u8 \<times> u8 \<times> u64"

definition task_data_of :: "task \<Rightarrow> task_data" where
  "task_data_of t = (t_runnable t, t_mbuf t, t_type t, t_category t, t_timestamp t)"

definition task_fill :: "task \<Rightarrow> task_data \<Rightarrow> task" where
  "task_fill t d = (case d of (rnbl, mb, ty, cat, ts) \<Rightarrow>
     t\<lparr>t_runnable := rnbl, t_mbuf := mb, t_type := ty, t_category := cat, t_timestamp := ts\<rparr>)"

definition set_next :: "(ptr \<Rightarrow> task) \<Rightarrow> ptr \<Rightarrow> ptr \<Rightarrow> ptr \<Rightarrow> task" where
  "set_next h p q = h(p := (h p)\<lparr>t_next := q\<rparr>)"

definition tskq_enqueue_head ::
  "task_mem \<Rightarrow> task_queue \<Rightarrow> task_data \<Rightarrow> (task_queue \<times> task_mem) result" where
  "tskq_enqueue_head tm tq d =
     res_bind (mempool_alloc (task_mempool tm)) (\<lambda>(tsk, mp).
       if tsk = NULL then Inl NullDeref
       else
         let h = (tasks tm)(tsk := task_fill (tasks tm tsk) d) in
         if tq_head tq \<noteq> NULL then
           Inr (tq\<lparr>tq_head := tsk\<rparr>, tm\<lparr>tasks := set_next h tsk (tq_head tq), task_mempool := mp\<rparr>)
         else
           Inr (tq\<lparr>tq_head := tsk, tq_tail := tsk\<rparr>,
                tm\<lparr>tasks := set_next h tsk NULL, task_mempool := mp\<rparr>))"

definition tskq_enqueue_tail ::
  "task_mem \<Rightarrow> task_queue \<Rightarrow> task_data \<Rightarrow> (task_queue \<times> task_mem) result" where
  "tskq_enqueue_tail tm tq d =
     res_bind (mempool_alloc (task_mempool tm)) (\<lambda>(tsk, mp).
       if tsk = NULL then Inr (tq, tm\<lparr>task_mempool := mp\<rparr>)
       else
         let h = (tasks tm)(tsk := task_fill (tasks tm tsk) d) in
         if tq_head tq \<noteq> NULL then
           if tq_tail tq = NULL then Inl NullDeref
           else
             Inr (tq\<lparr>tq_tail := tsk\<rparr>,
                  tm\<lparr>tasks := set_next (set_next h (tq_tail tq) tsk) tsk NULL, task_mempool := mp\<rparr>)
         else
           Inr (tq\<lparr>tq_head := tsk, tq_tail := tsk\<rparr>,
                tm\<lparr>tasks := set_next h tsk NULL, task_mempool := mp\<rparr>))"

text \<open>The out parameters are an option: \<open>None\<close> is the return value -1, which leaves them alone.\<close>

definition tskq_dequeue ::
  "task_mem \<Rightarrow> task_queue \<Rightarrow> (task_data option \<times> task_queue \<times> task_mem) result" where
  "tskq_dequeue tm tq =
     (if tq_head tq = NULL then Inr (None, tq, tm)
      else
        let tsk = tq_head tq; d = task_data_of (tasks tm tsk); nxt = t_next (tasks tm tsk) in
        res_bind (mempool_free (task_mempool tm) tsk) (\<lambda>mp.
          Inr (Some d,
               (if nxt = NULL then tq\<lparr>tq_head := nxt, tq_tail := NULL\<rparr> else tq\<lparr>tq_head := nxt\<rparr>),
               tm\<lparr>task_mempool := mp\<rparr>)))"

definition get_queue_timestamp :: "task_mem \<Rightarrow> task_queue \<Rightarrow> u64 option" where
  "get_queue_timestamp tm tq =
     (if tq_head tq = NULL then None else Some (t_timestamp (tasks tm (tq_head tq))))"

text \<open>Both scans over the array of queues stop after its first element.\<close>

definition naive_tskq_dequeue ::
  "task_mem \<Rightarrow> task_queue \<Rightarrow> (task_data option \<times> task_queue \<times> task_mem) result" where
  "naive_tskq_dequeue tm tq = tskq_dequeue tm tq"

definition smart_tskq_dequeue ::
  "task_mem \<Rightarrow> task_queue \<Rightarrow> u64 \<Rightarrow> (task_data option \<times> task_queue \<times> task_mem) result" where
  "smart_tskq_dequeue tm tq cur_time =
     (let index =
        (case get_queue_timestamp tm tq of
           None \<Rightarrow> -1
         | Some queue_stamp \<Rightarrow>
             (let diff = sint (cur_time - queue_stamp);
                  current = sgn diff * (\<bar>diff\<bar> div 1000) in
              if 0 < current then 0 else - (1 :: int)))
      in if index \<noteq> -1 then tskq_dequeue tm tq else Inr (None, tq, tm))"

section \<open>The queue as a list\<close>

fun tchain :: "nat \<Rightarrow> (ptr \<Rightarrow> task) \<Rightarrow> ptr \<Rightarrow> ptr list" where
  "tchain 0 h p = []"
| "tchain (Suc n) h p = (if p = NULL then [] else p # tchain n h (t_next (h p)))"

fun tpath :: "(ptr \<Rightarrow> task) \<Rightarrow> ptr \<Rightarrow> ptr list \<Rightarrow> bool" where
  "tpath h p [] \<longleftrightarrow> p = NULL"
| "tpath h p (a # as) \<longleftrightarrow> p = a \<and> a \<noteq> NULL \<and> tpath h (t_next (h a)) as"

lemma tchain_tpath: "tpath h p as \<Longrightarrow> length as \<le> n \<Longrightarrow> tchain n h p = as"
  by (induction n arbitrary: p as) (case_tac as; auto)+

lemma tpath_NULL: "tpath h NULL as \<longleftrightarrow> as = []"
  by (cases as) auto

lemma tpath_head: "p \<noteq> NULL \<Longrightarrow> tpath h p as \<Longrightarrow> \<exists>bs. as = p # bs \<and> tpath h (t_next (h p)) bs"
  by (cases as) auto

lemma tpath_cong: "(\<And>a. a \<in> set as \<Longrightarrow> t_next (h a) = t_next (h' a)) \<Longrightarrow> tpath h p as \<longleftrightarrow> tpath h' p as"
  by (induction as arbitrary: p) auto

lemma tpath_snoc:
  assumes "tpath h p as" "as \<noteq> []" "distinct as" "x \<notin> set as" "x \<noteq> NULL"
    and nx: "t_next (h' x) = NULL" "t_next (h' (last as)) = x"
    and same: "\<And>a. a \<in> set (butlast as) \<Longrightarrow> t_next (h' a) = t_next (h a)"
  shows "tpath h' p (as @ [x])"
  using assms
proof (induction as arbitrary: p)
  case (Cons a as)
  show ?case
  proof (cases "as = []")
    case True
    with Cons.prems show ?thesis by simp
  next
    case False
    then have "t_next (h' a) = t_next (h a)" using Cons.prems(8) by simp
    moreover have "tpath h' (t_next (h a)) (as @ [x])"
      using Cons.prems False by (intro Cons.IH) auto
    ultimately show ?thesis using Cons.prems by simp
  qed
qed simp

section \<open>Well-formed queues\<close>

type_synonym tskq = "task_queue \<times> task_mem"

definition tskq_nodes :: "tskq \<Rightarrow> ptr list" where
  "tskq_nodes q = tchain (unat (capacity (task_mempool (snd q)))) (tasks (snd q)) (tq_head (fst q))"

definition tskq_contents :: "tskq \<Rightarrow> task_data list" where
  "tskq_contents q = map (\<lambda>a. task_data_of (tasks (snd q) a)) (tskq_nodes q)"

definition tskq_bound :: "tskq \<Rightarrow> nat" where
  "tskq_bound q = length (tskq_nodes q) + length (mp_avail (task_mempool (snd q)))"

text \<open>
  \<open>tskq_rep q as\<close>: the nodes of the queue are exactly \<open>as\<close>, in order, and none of them is free in
  the pool.
\<close>

definition tskq_rep :: "tskq \<Rightarrow> ptr list \<Rightarrow> bool" where
  "tskq_rep q as \<longleftrightarrow>
     tpath (tasks (snd q)) (tq_head (fst q)) as \<and> distinct as \<and>
     tq_tail (fst q) = (if as = [] then NULL else last as) \<and>
     mempool_wf (task_mempool (snd q)) \<and>
     set as \<inter> set (mp_avail (task_mempool (snd q))) = {} \<and>
     length as + length (mp_avail (task_mempool (snd q))) \<le> unat (capacity (task_mempool (snd q)))"

definition tskq_wf :: "tskq \<Rightarrow> bool" where
  "tskq_wf q \<longleftrightarrow> tskq_rep q (tskq_nodes q)"

lemma tskq_rep_nodes: "tskq_rep q as \<Longrightarrow> tskq_nodes q = as"
  by (simp add: tskq_rep_def tskq_nodes_def tchain_tpath)

lemma tskq_wfI: "tskq_rep q as \<Longrightarrow> tskq_wf q"
  using tskq_rep_nodes by (simp add: tskq_wf_def)

lemma tpath_not_NULL: "tpath h p as \<Longrightarrow> NULL \<notin> set as"
  by (induction as arbitrary: p) auto

lemmas tskq_defs = tskq_contents_def tskq_bound_def

lemma task_data_of_fill [simp]: "task_data_of (task_fill t d) = d"
  by (cases d) (simp add: task_data_of_def task_fill_def)

lemma set_next_simps [simp]:
  "task_data_of (set_next h p q a) = task_data_of (h a)"
  "t_next (set_next h p q a) = (if a = p then q else t_next (h a))"
  by (simp_all add: set_next_def task_data_of_def)

text \<open>The step all insertions share: a node is taken from the pool.\<close>

lemma mempool_alloc_ok:
  assumes "mempool_wf m" "mp_avail m = x # xs"
  obtains m' where "mempool_alloc m = Inr (x, m')" "mp_avail m' = xs" "mempool_wf m'"
    "unat (capacity m') = unat (capacity m)" "x \<noteq> NULL" "x \<notin> set xs"
proof -
  have "distinct (x # xs)" "NULL \<notin> set (x # xs)" using assms by (auto simp: mempool_wf_def)
  moreover obtain m' where "mempool_alloc m = Inr (x, m')" "mp_avail m' = xs" "mempool_wf m'"
    "unat (capacity m') = unat (capacity m)"
    using mempool_alloc_item [OF assms] by blast
  ultimately show ?thesis using that by simp
qed

lemma tskq_enqueue_tail_room:
  assumes rep: "tskq_rep (tq, tm) as" and av: "mp_avail (task_mempool tm) = x # xs"
  shows "\<exists>tq' tm'. tskq_enqueue_tail tm tq d = Inr (tq', tm') \<and> tskq_rep (tq', tm') (as @ [x]) \<and>
     mp_avail (task_mempool tm') = xs \<and>
     map (\<lambda>a. task_data_of (tasks tm' a)) (as @ [x]) = map (\<lambda>a. task_data_of (tasks tm a)) as @ [d]"
proof -
  have wf: "mempool_wf (task_mempool tm)" using rep by (simp add: tskq_rep_def)
  obtain m' where m': "mempool_alloc (task_mempool tm) = Inr (x, m')" "mp_avail m' = xs" "mempool_wf m'"
    "unat (capacity m') = unat (capacity (task_mempool tm))" "x \<noteq> NULL" "x \<notin> set xs"
    using mempool_alloc_ok [OF wf av] .
  have r: "tpath (tasks tm) (tq_head tq) as" "distinct as" "tq_tail tq = (if as = [] then NULL else last as)"
      "set as \<inter> set (x # xs) = {}"
      "length as + length (x # xs) \<le> unat (capacity (task_mempool tm))"
    using rep av by (simp_all add: tskq_rep_def)
  let ?h = "(tasks tm)(x := task_fill (tasks tm x) d)"
  show ?thesis
  proof (cases "as = []")
    case True
    then have "tq_head tq = NULL" using r(1) by simp
    then show ?thesis
      using True m' r by (simp add: tskq_enqueue_tail_def tskq_rep_def)
  next
    case False
    then have hd: "tq_head tq \<noteq> NULL" using r(1) by (auto simp: tpath_NULL)
    have tl: "tq_tail tq = last as" "last as \<noteq> NULL" "last as \<noteq> x"
      using False r tpath_not_NULL [OF r(1)] by (auto dest: last_in_set)
    let ?h' = "set_next (set_next ?h (last as) x) x NULL"
    have "tpath ?h' (tq_head tq) (as @ [x])"
    proof (rule tpath_snoc [OF r(1) False r(2)])
      fix a assume "a \<in> set (butlast as)"
      moreover have "distinct (butlast as @ [last as])" using r(2) False by simp
      ultimately have "a \<noteq> last as" "a \<noteq> x" using r(4) by (auto dest: in_set_butlastD)
      then show "t_next (?h' a) = t_next (tasks tm a)" by simp
    qed (use r m' tl in auto)
    moreover have "map (\<lambda>a. task_data_of (?h' a)) as = map (\<lambda>a. task_data_of (tasks tm a)) as"
      using r(4) by auto
    ultimately show ?thesis
      using False hd tl m' r by (auto simp: tskq_enqueue_tail_def tskq_rep_def Let_def)
  qed
qed

lemma tskq_enqueue_tail_exhausted:
  assumes "tskq_rep (tq, tm) as" "mp_avail (task_mempool tm) = []"
  shows "tskq_enqueue_tail tm tq d = Inr (tq, tm)"
proof -
  have "mempool_wf (task_mempool tm)" using assms(1) by (simp add: tskq_rep_def)
  from mempool_alloc_exhausted [OF this assms(2)] show ?thesis by (simp add: tskq_enqueue_tail_def)
qed

lemma tskq_enqueue_head_room:
  assumes rep: "tskq_rep (tq, tm) as" and av: "mp_avail (task_mempool tm) = x # xs"
  shows "\<exists>tq' tm'. tskq_enqueue_head tm tq d = Inr (tq', tm') \<and> tskq_rep (tq', tm') (x # as) \<and>
     mp_avail (task_mempool tm') = xs \<and>
     map (\<lambda>a. task_data_of (tasks tm' a)) (x # as) = d # map (\<lambda>a. task_data_of (tasks tm a)) as"
proof -
  have wf: "mempool_wf (task_mempool tm)" using rep by (simp add: tskq_rep_def)
  obtain m' where m': "mempool_alloc (task_mempool tm) = Inr (x, m')" "mp_avail m' = xs" "mempool_wf m'"
    "unat (capacity m') = unat (capacity (task_mempool tm))" "x \<noteq> NULL" "x \<notin> set xs"
    using mempool_alloc_ok [OF wf av] .
  have r: "tpath (tasks tm) (tq_head tq) as" "distinct as" "tq_tail tq = (if as = [] then NULL else last as)"
      "set as \<inter> set (x # xs) = {}"
      "length as + length (x # xs) \<le> unat (capacity (task_mempool tm))"
    using rep av by (simp_all add: tskq_rep_def)
  show ?thesis
  proof (cases "as = []")
    case True
    then show ?thesis using m' r by (simp add: tskq_enqueue_head_def tskq_rep_def)
  next
    case False
    let ?h = "set_next ((tasks tm)(x := task_fill (tasks tm x) d)) x (tq_head tq)"
    have "tq_head tq \<noteq> NULL" using r(1) False by (auto simp: tpath_NULL)
    moreover have "tpath ?h (tq_head tq) as"
      using r(1,4) by (subst tpath_cong [where h' = "tasks tm"]) auto
    moreover have "map (\<lambda>a. task_data_of (?h a)) as = map (\<lambda>a. task_data_of (tasks tm a)) as"
      using r(4) by auto
    ultimately show ?thesis
      using False m' r by (auto simp: tskq_enqueue_head_def tskq_rep_def Let_def)
  qed
qed

lemma tskq_enqueue_head_exhausted:
  assumes "tskq_rep (tq, tm) as" "mp_avail (task_mempool tm) = []"
  shows "tskq_enqueue_head tm tq d = Inl NullDeref"
proof -
  have "mempool_wf (task_mempool tm)" using assms(1) by (simp add: tskq_rep_def)
  from mempool_alloc_exhausted [OF this assms(2)] show ?thesis by (simp add: tskq_enqueue_head_def)
qed

lemma tskq_dequeue_empty: "tskq_rep (tq, tm) [] \<Longrightarrow> tskq_dequeue tm tq = Inr (None, tq, tm)"
  by (simp add: tskq_dequeue_def tskq_rep_def)

lemma tskq_dequeue_item:
  assumes rep: "tskq_rep (tq, tm) (a # as)"
  shows "\<exists>tq' tm'. tskq_dequeue tm tq = Inr (Some (task_data_of (tasks tm a)), tq', tm') \<and>
     tskq_rep (tq', tm') as \<and> tasks tm' = tasks tm \<and>
     mp_avail (task_mempool tm') = a # mp_avail (task_mempool tm)"
proof -
  let ?mp = "task_mempool tm"
  have r: "tpath (tasks tm) (tq_head tq) (a # as)" "distinct (a # as)" "tq_tail tq = last (a # as)"
      "mempool_wf ?mp" "set (a # as) \<inter> set (mp_avail ?mp) = {}"
      "length (a # as) + length (mp_avail ?mp) \<le> unat (capacity ?mp)"
    using rep by (simp_all add: tskq_rep_def)
  obtain m' where "mempool_free ?mp a = Inr m'" "mp_avail m' = a # mp_avail ?mp"
      "unat (capacity m') = unat (capacity ?mp)" "mempool_wf m'"
    using mempool_free_item [OF r(4), of a] r by auto
  then show ?thesis
    using r by (cases as) (auto simp: tskq_dequeue_def tskq_rep_def Let_def)
qed

section \<open>The queue is a bounded FIFO\<close>

definition tskq_enq :: "tskq \<Rightarrow> task_data \<Rightarrow> tskq result" where
  "tskq_enq q d = tskq_enqueue_tail (snd q) (fst q) d"

definition tskq_deq :: "tskq \<Rightarrow> (task_data option \<times> tskq) result" where
  "tskq_deq q = tskq_dequeue (snd q) (fst q)"

lemma tskq_repE:
  assumes "tskq_wf q"
  obtains tq tm as where "q = (tq, tm)" "tskq_rep (tq, tm) as" "tskq_nodes q = as"
  using assms by (cases q) (auto simp: tskq_wf_def)

lemma tskq_measures:
  assumes "tskq_rep (tq, tm) as"
  shows "tskq_contents (tq, tm) = map (\<lambda>a. task_data_of (tasks tm a)) as"
    "tskq_bound (tq, tm) = length as + length (mp_avail (task_mempool tm))"
  using tskq_rep_nodes [OF assms] by (simp_all add: tskq_defs)

interpretation tq: bounded_fifo tskq_enq tskq_deq tskq_contents tskq_bound tskq_wf
proof (unfold_locales, goal_cases)
  case (1 q x)
  then obtain tq tm as where q: "q = (tq, tm)" "tskq_rep (tq, tm) as" by (auto elim: tskq_repE)
  with 1 obtain y ys where "mp_avail (task_mempool tm) = y # ys"
    by (cases "mp_avail (task_mempool tm)") (auto simp: tskq_measures)
  from tskq_enqueue_tail_room [OF q(2) this, of x] this q show ?case
    by (force simp: tskq_enq_def tskq_measures intro: tskq_wfI)
next
  case (2 q x)
  then obtain tq tm as where q: "q = (tq, tm)" "tskq_rep (tq, tm) as" by (auto elim: tskq_repE)
  with 2 have "mp_avail (task_mempool tm) = []" by (simp add: tskq_measures)
  from tskq_enqueue_tail_exhausted [OF q(2) this] q 2 show ?case by (simp add: tskq_enq_def)
next
  case (3 q)
  then obtain tq tm as where q: "q = (tq, tm)" "tskq_rep (tq, tm) as" by (auto elim: tskq_repE)
  with 3 tskq_dequeue_empty show ?case by (simp add: tskq_measures tskq_deq_def)
next
  case (4 q x xs)
  then obtain tq tm as where q: "q = (tq, tm)" "tskq_rep (tq, tm) as" by (auto elim: tskq_repE)
  with 4 obtain a bs where "as = a # bs" "task_data_of (tasks tm a) = x"
      "map (\<lambda>a. task_data_of (tasks tm a)) bs = xs"
    by (auto simp: tskq_measures)
  with tskq_dequeue_item [of tq tm a bs] q show ?case
    by (force simp: tskq_deq_def tskq_measures intro: tskq_wfI)
next
  case (5 q)
  then show ?case by (simp add: tskq_defs)
qed

section \<open>Execution contexts\<close>

record ucontext =
  ss_sp :: ptr
  ss_size :: u64
  uc_link :: ptr

record ctx_mem =
  contexts :: "ptr \<Rightarrow> ucontext"
  context_pool :: mempool
  stack_pool :: mempool
  stack_mem :: "ptr \<Rightarrow> u64"

definition STACK_SIZE :: u64 where "STACK_SIZE = 2048"
definition TASK_CAPACITY :: int where "TASK_CAPACITY = 768 * 1024"
definition MCELL_CAPACITY :: int where "MCELL_CAPACITY = 768 * 1024"
definition STACK_CAPACITY :: int where "STACK_CAPACITY = 768 * 1024"

text \<open>\<open>sizeof(stack)\<close> is the size of the local pointer \<open>void *stack\<close>.\<close>

definition context_alloc :: "ctx_mem \<Rightarrow> (int \<times> ptr \<times> ctx_mem) result" where
  "context_alloc cm =
     res_bind (mempool_alloc (context_pool cm)) (\<lambda>(c, cp).
       if c = NULL then Inr (-1, c, cm\<lparr>context_pool := cp\<rparr>)
       else
         res_bind (mempool_alloc (stack_pool cm)) (\<lambda>(stack, sp).
           if stack = NULL then
             res_bind (mempool_free cp c) (\<lambda>cp1. Inr (-1, c, cm\<lparr>context_pool := cp1, stack_pool := sp\<rparr>))
           else
             Inr (0, c, cm\<lparr>context_pool := cp, stack_pool := sp,
               contexts := (contexts cm)(c := (contexts cm c)\<lparr>ss_sp := stack, ss_size := 8\<rparr>)\<rparr>)))"

definition context_free :: "ctx_mem \<Rightarrow> ptr \<Rightarrow> ctx_mem result" where
  "context_free cm c =
     (if c = NULL then Inl NullDeref
      else
        res_bind (mempool_free (stack_pool cm) (ss_sp (contexts cm c))) (\<lambda>sp.
          res_bind (mempool_free (context_pool cm) c) (\<lambda>cp.
            Inr (cm\<lparr>stack_pool := sp, context_pool := cp\<rparr>))))"

text \<open>The arithmetic is on \<open>uintptr_t *\<close>, so \<open>ss_size\<close> counts 8-byte words.\<close>

definition link_slot :: "ucontext \<Rightarrow> ptr" where
  "link_slot c =
     (let sp = ss_sp c + 8 * ss_size c; sp1 = sp - 8; sp2 = (sp1 AND NOT 15) - 8 in sp2 + 8)"

text \<open>
  \<open>stack_mem\<close> is the memory of the items of the stack pool: the 8 bytes written have to lie in the
  \<open>STACK_SIZE\<close> bytes of the context's own item.
\<close>

definition set_context_link :: "ctx_mem \<Rightarrow> ptr \<Rightarrow> ptr \<Rightarrow> ctx_mem result" where
  "set_context_link cm c link =
     (if c = NULL then Inl NullDeref
      else if unat STACK_SIZE < unat (link_slot (contexts cm c) - ss_sp (contexts cm c)) + 8
      then Inl OutOfBounds
      else Inr (cm\<lparr>contexts := (contexts cm)(c := (contexts cm c)\<lparr>uc_link := link\<rparr>),
                   stack_mem := (stack_mem cm)(link_slot (contexts cm c) := link)\<rparr>))"

subsection \<open>Ownership of contexts\<close>

text \<open>
  \<open>ctx_wf cm live\<close>: the contexts \<open>live\<close> are handed out; each owns a stack of its own, and neither
  they nor their stacks are free in the pools.
\<close>

definition ctx_wf :: "ctx_mem \<Rightarrow> ptr list \<Rightarrow> bool" where
  "ctx_wf cm live \<longleftrightarrow>
     mempool_wf (context_pool cm) \<and> mempool_wf (stack_pool cm) \<and>
     distinct live \<and> NULL \<notin> set live \<and> set live \<inter> set (mp_avail (context_pool cm)) = {} \<and>
     distinct (map (\<lambda>c. ss_sp (contexts cm c)) live) \<and>
     (\<forall>c \<in> set live. ss_sp (contexts cm c) \<noteq> NULL \<and> ss_sp (contexts cm c) \<notin> set (mp_avail (stack_pool cm))) \<and>
     length live + length (mp_avail (context_pool cm)) \<le> unat (capacity (context_pool cm)) \<and>
     length live + length (mp_avail (stack_pool cm)) \<le> unat (capacity (stack_pool cm))"

lemma context_alloc_ok:
  assumes wf: "ctx_wf cm live" and c: "mp_avail (context_pool cm) = c # cs"
    and st: "mp_avail (stack_pool cm) = s # ss"
  shows "\<exists>cm'. context_alloc cm = Inr (0, c, cm') \<and> ctx_wf cm' (c # live) \<and>
     mp_avail (context_pool cm') = cs \<and> mp_avail (stack_pool cm') = ss \<and>
     contexts cm' = (contexts cm)(c := (contexts cm c)\<lparr>ss_sp := s, ss_size := 8\<rparr>) \<and>
     stack_mem cm' = stack_mem cm"
proof -
  have w: "mempool_wf (context_pool cm)" "mempool_wf (stack_pool cm)" using wf by (simp_all add: ctx_wf_def)
  obtain cp where cp: "mempool_alloc (context_pool cm) = Inr (c, cp)" "mp_avail cp = cs" "mempool_wf cp"
    "unat (capacity cp) = unat (capacity (context_pool cm))" "c \<noteq> NULL" "c \<notin> set cs"
    using mempool_alloc_ok [OF w(1) c] .
  obtain sp where sp: "mempool_alloc (stack_pool cm) = Inr (s, sp)" "mp_avail sp = ss" "mempool_wf sp"
    "unat (capacity sp) = unat (capacity (stack_pool cm))" "s \<noteq> NULL" "s \<notin> set ss"
    using mempool_alloc_ok [OF w(2) st] .
  let ?cm = "cm\<lparr>context_pool := cp, stack_pool := sp,
     contexts := (contexts cm)(c := (contexts cm c)\<lparr>ss_sp := s, ss_size := 8\<rparr>)\<rparr>"
  have "c \<notin> set live" using wf c by (auto simp: ctx_wf_def)
  then have "map (\<lambda>a. ss_sp (contexts ?cm a)) live = map (\<lambda>a. ss_sp (contexts cm a)) live" by auto
  moreover have "distinct (map (\<lambda>a. ss_sp (contexts cm a)) live)" using wf by (simp add: ctx_wf_def)
  ultimately have "distinct (map (\<lambda>a. ss_sp (contexts ?cm a)) live)" by (simp only:)
  then have "ctx_wf ?cm (c # live)"
    using wf cp sp c st by (auto simp: ctx_wf_def split: if_splits)
  then show ?thesis using cp sp by (auto simp: context_alloc_def)
qed

lemma context_alloc_fail:
  assumes wf: "ctx_wf cm live"
    and no: "mp_avail (context_pool cm) = [] \<or> mp_avail (stack_pool cm) = []"
  shows "\<exists>c cm'. context_alloc cm = Inr (-1, c, cm') \<and> ctx_wf cm' live \<and>
     mp_avail (context_pool cm') = mp_avail (context_pool cm) \<and>
     mp_avail (stack_pool cm') = mp_avail (stack_pool cm) \<and> contexts cm' = contexts cm"
proof (cases "mp_avail (context_pool cm)")
  case Nil
  have "mempool_wf (context_pool cm)" using wf by (simp add: ctx_wf_def)
  from mempool_alloc_exhausted [OF this Nil] wf show ?thesis by (simp add: context_alloc_def)
next
  case (Cons c cs)
  have w: "mempool_wf (context_pool cm)" "mempool_wf (stack_pool cm)" using wf by (simp_all add: ctx_wf_def)
  have st: "mp_avail (stack_pool cm) = []" using no Cons by simp
  obtain cp where cp: "mempool_alloc (context_pool cm) = Inr (c, cp)" "mp_avail cp = cs" "mempool_wf cp"
    "unat (capacity cp) = unat (capacity (context_pool cm))" "c \<noteq> NULL" "c \<notin> set cs"
    using mempool_alloc_ok [OF w(1) Cons] .
  have "length (mp_avail cp) < unat (capacity cp)"
    using cp Cons mp.invar_avail [OF w(1)] by simp
  then obtain cp1 where "mempool_free cp c = Inr cp1" "mp_avail cp1 = c # cs" "mempool_wf cp1"
      "unat (capacity cp1) = unat (capacity cp)"
    using mempool_free_item [OF cp(3,5)] cp by auto
  then show ?thesis
    using mempool_alloc_exhausted [OF w(2) st] cp Cons wf
    by (simp add: context_alloc_def ctx_wf_def)
qed

lemma context_free_ok:
  assumes wf: "ctx_wf cm live" and c: "c \<in> set live"
  shows "\<exists>cm'. context_free cm c = Inr cm' \<and> ctx_wf cm' (remove1 c live) \<and>
     mp_avail (context_pool cm') = c # mp_avail (context_pool cm) \<and>
     mp_avail (stack_pool cm') = ss_sp (contexts cm c) # mp_avail (stack_pool cm) \<and>
     contexts cm' = contexts cm"
proof -
  let ?s = "\<lambda>a. ss_sp (contexts cm a)"
  have w: "mempool_wf (context_pool cm)" "mempool_wf (stack_pool cm)" using wf by (simp_all add: ctx_wf_def)
  have len: "0 < length live" using c by (auto simp: length_pos_if_in_set)
  then obtain n where n: "length live = Suc n" using gr0_conv_Suc by auto
  have room: "length (mp_avail (stack_pool cm)) < unat (capacity (stack_pool cm))"
    "length (mp_avail (context_pool cm)) < unat (capacity (context_pool cm))"
    using wf len unfolding ctx_wf_def by linarith+
  obtain sp where sp: "mempool_free (stack_pool cm) (?s c) = Inr sp" "mp_avail sp = ?s c # mp_avail (stack_pool cm)"
      "mempool_wf sp" "unat (capacity sp) = unat (capacity (stack_pool cm))"
    using mempool_free_item [OF w(2), of "?s c"] wf c room by (auto simp: ctx_wf_def)
  obtain cp where cp: "mempool_free (context_pool cm) c = Inr cp" "mp_avail cp = c # mp_avail (context_pool cm)"
      "mempool_wf cp" "unat (capacity cp) = unat (capacity (context_pool cm))"
    using mempool_free_item [OF w(1), of c] wf c room by (auto simp: ctx_wf_def)
  let ?cm = "cm\<lparr>stack_pool := sp, context_pool := cp\<rparr>"
  have inj: "inj_on ?s (set live)" and d: "distinct live"
    using wf by (auto simp: ctx_wf_def distinct_map)
  have "distinct (map ?s (remove1 c live))"
    using inj d by (auto simp: distinct_map intro: inj_on_subset)
  moreover have "?s a \<noteq> ?s c" if "a \<in> set (remove1 c live)" for a
    using that inj d c by (auto dest: inj_onD)
  ultimately have "ctx_wf ?cm (remove1 c live)"
    using wf c n cp sp d unfolding ctx_wf_def by (auto simp: length_remove1)
  moreover have "c \<noteq> NULL" using wf c by (auto simp: ctx_wf_def)
  ultimately show ?thesis using cp sp by (auto simp: context_free_def)
qed

lemma unat_and_15: "unat (w AND 15) = unat w mod 16" for w :: ptr
  using unat_and_mask [of w 4] by (simp add: mask_eq_exp_minus_1)

lemma link_slot_offset:
  assumes "ss_size c = 8"
  shows "link_slot c - ss_sp c = 56 - ((ss_sp c + 56) AND 15)"
proof -
  have "link_slot c = (ss_sp c + 56) AND NOT 15"
    using assms by (simp add: link_slot_def Let_def add.commute)
  then show ?thesis by (simp only: and_not_minus) simp
qed

lemma link_slot_in_stack:
  assumes "ss_size c = 8"
  shows "unat (link_slot c - ss_sp c) + 8 \<le> unat STACK_SIZE"
proof -
  let ?r = "(ss_sp c + 56) AND 15"
  have "unat ?r \<le> 15" using unat_and_15 [of "ss_sp c + 56"] by simp
  then have "?r \<le> 56" by (simp add: word_le_nat_alt)
  then have "unat (56 - ?r) = 56 - unat ?r" by (simp add: unat_sub)
  then show ?thesis unfolding link_slot_offset [OF assms] by (simp add: STACK_SIZE_def)
qed

lemma link_slot_eq:
  assumes "ss_sp c AND 15 = 0" "ss_size c = 8"
  shows "link_slot c = ss_sp c + 48"
proof -
  have "unat (ss_sp c) mod 16 = 0" using unat_and_15 [of "ss_sp c"] assms(1) by simp
  then have "unat ((ss_sp c + 56) AND 15) = 8"
    unfolding unat_and_15 by (simp add: unat_word_ariths mod_mod_cancel) presburger
  then have "(ss_sp c + 56) AND 15 = 8" by (simp add: word_unat_eq_iff)
  then have "link_slot c - ss_sp c = 48" using link_slot_offset [OF assms(2)] by simp
  then show ?thesis by (simp add: diff_eq_eq)
qed

section \<open>Creation of the pools\<close>

record task_pools =
  tp_task :: mempool
  tp_mcell :: mempool
  tp_context :: mempool
  tp_stack :: mempool

definition pool_init :: "mempool \<Rightarrow> int \<Rightarrow> int \<Rightarrow> ptr \<times> ptr \<Rightarrow> (int \<times> mempool) result" where
  "pool_init m n siz mem =
     res_bind (mempool_create (Some m) n siz (fst mem) (snd mem)) (\<lambda>(r, mo).
       Inr (r, case mo of None \<Rightarrow> m | Some m' \<Rightarrow> m'))"

text \<open>\<open>sizeof(struct task)\<close> is 40 and \<open>sizeof(struct mbuf_cell)\<close> is 16; \<open>sizeof(ucontext_t)\<close> is an
  argument.  A pair of addresses is what the two \<open>malloc\<close> calls of a pool return.\<close>

definition task_init_mempool :: "task_pools \<Rightarrow> ptr \<times> ptr \<Rightarrow> (int \<times> task_pools) result" where
  "task_init_mempool ps mem =
     res_bind (pool_init (tp_task ps) TASK_CAPACITY 40 mem) (\<lambda>(r, m). Inr (r, ps\<lparr>tp_task := m\<rparr>))"

definition mcell_init_mempool :: "task_pools \<Rightarrow> ptr \<times> ptr \<Rightarrow> (int \<times> task_pools) result" where
  "mcell_init_mempool ps mem =
     res_bind (pool_init (tp_mcell ps) MCELL_CAPACITY 16 mem) (\<lambda>(r, m). Inr (r, ps\<lparr>tp_mcell := m\<rparr>))"

definition context_init_mempool :: "int \<Rightarrow> task_pools \<Rightarrow> ptr \<times> ptr \<Rightarrow> (int \<times> task_pools) result" where
  "context_init_mempool uc_siz ps mem =
     res_bind (pool_init (tp_context ps) TASK_CAPACITY uc_siz mem) (\<lambda>(r, m). Inr (r, ps\<lparr>tp_context := m\<rparr>))"

definition stack_init_mempool :: "task_pools \<Rightarrow> ptr \<times> ptr \<Rightarrow> (int \<times> task_pools) result" where
  "stack_init_mempool ps mem =
     res_bind (pool_init (tp_stack ps) STACK_CAPACITY (uint STACK_SIZE) mem) (\<lambda>(r, m).
       Inr (r, ps\<lparr>tp_stack := m\<rparr>))"

definition taskqueue_init ::
  "int \<Rightarrow> task_pools \<Rightarrow> ptr \<times> ptr \<Rightarrow> ptr \<times> ptr \<Rightarrow> ptr \<times> ptr \<Rightarrow> ptr \<times> ptr \<Rightarrow>
   (int \<times> task_pools) result" where
  "taskqueue_init uc_siz ps m1 m2 m3 m4 =
     res_bind (task_init_mempool ps m1) (\<lambda>(r, ps). if r \<noteq> 0 then Inr (r, ps) else
     res_bind (mcell_init_mempool ps m2) (\<lambda>(r, ps). if r \<noteq> 0 then Inr (r, ps) else
     res_bind (context_init_mempool uc_siz ps m3) (\<lambda>(r, ps). if r \<noteq> 0 then Inr (r, ps) else
     res_bind (stack_init_mempool ps m4) (\<lambda>(r, ps). if r \<noteq> 0 then Inr (r, ps) else
     Inr (0, ps)))))"

text \<open>What the two calls of \<open>malloc\<close> for \<open>n\<close> bytes of items promise when they succeed.\<close>

definition malloc_ok :: "int \<Rightarrow> ptr \<times> ptr \<Rightarrow> bool" where
  "malloc_ok n mem \<longleftrightarrow> fst mem \<noteq> NULL \<and> snd mem \<noteq> NULL \<and> unat (fst mem) + nat n \<le> 2 ^ 64"

lemma pool_init_ok:
  assumes "0 < siz" "786432 * siz < 2 ^ 31" "malloc_ok (786432 * siz) mem"
  shows "\<exists>m'. pool_init m 786432 siz mem = Inr (0, m') \<and> mempool_wf m' \<and>
     mp_avail m' = map (\<lambda>i. fst mem + of_nat i * of_int siz) [0..<786432] \<and>
     unat (capacity m') = 786432"
proof -
  obtain m' where m': "mempool_create (Some m) 786432 siz (fst mem) (snd mem) = Inr (0, Some m')"
      "mempool_wf m'" "capacity m' = of_int 786432"
      "mp_avail m' = map (\<lambda>i. fst mem + of_nat i * of_int siz) [0..<nat 786432]"
    using mempool_create_success [of 786432 siz "fst mem" "snd mem" m] assms by (auto simp: malloc_ok_def)
  have "nat 786432 = 786432" "unat (of_int 786432 :: u64) = 786432" by simp_all
  then show ?thesis using m' by (simp only: pool_init_def) simp
qed

lemma taskqueue_init_pools:
  assumes "0 < uc" "uc \<le> 2730"
    and "malloc_ok (786432 * 40) m1" "malloc_ok (786432 * 16) m2"
    and "malloc_ok (786432 * uc) m3" "malloc_ok (786432 * 2048) m4"
  shows "\<exists>ps'. taskqueue_init uc ps m1 m2 m3 m4 = Inr (0, ps') \<and>
      mempool_wf (tp_task ps') \<and> length (mp_avail (tp_task ps')) = 786432 \<and>
      mempool_wf (tp_mcell ps') \<and> length (mp_avail (tp_mcell ps')) = 786432 \<and>
      ctx_wf \<lparr>contexts = cs, context_pool = tp_context ps', stack_pool = tp_stack ps', stack_mem = sm\<rparr> [] \<and>
      length (mp_avail (tp_context ps')) = 786432 \<and> length (mp_avail (tp_stack ps')) = 786432 \<and>
      unat (capacity (tp_context ps')) = 786432"
    and "taskqueue_init 2731 ps m1 m2 m3 m4 = Inl SignedOverflow"
proof -
  have cap: "TASK_CAPACITY = 786432" "MCELL_CAPACITY = 786432" "STACK_CAPACITY = 786432" "uint STACK_SIZE = 2048"
    by (simp_all add: TASK_CAPACITY_def MCELL_CAPACITY_def STACK_CAPACITY_def STACK_SIZE_def)
  obtain a where a: "pool_init (tp_task ps) 786432 40 m1 = Inr (0, a)" "mempool_wf a" "length (mp_avail a) = 786432"
    using pool_init_ok [of 40 m1 "tp_task ps"] assms(3) by auto
  obtain b where b: "pool_init (tp_mcell ps) 786432 16 m2 = Inr (0, b)" "mempool_wf b" "length (mp_avail b) = 786432"
    using pool_init_ok [of 16 m2 "tp_mcell ps"] assms(4) by auto
  obtain c where c: "pool_init (tp_context ps) 786432 uc m3 = Inr (0, c)" "mempool_wf c"
      "length (mp_avail c) = 786432" "unat (capacity c) = 786432"
    using pool_init_ok [of uc m3 "tp_context ps"] assms(1,2,5) by auto
  obtain d where d: "pool_init (tp_stack ps) 786432 2048 m4 = Inr (0, d)" "mempool_wf d"
      "length (mp_avail d) = 786432" "unat (capacity d) = 786432"
    using pool_init_ok [of 2048 m4 "tp_stack ps"] assms(6) by auto
  note defs = taskqueue_init_def task_init_mempool_def mcell_init_mempool_def context_init_mempool_def
    stack_init_mempool_def cap
  have "pool_init (tp_context ps) 786432 2731 m3 = Inl SignedOverflow"
    by (simp add: pool_init_def mempool_create_def)
  then show "taskqueue_init 2731 ps m1 m2 m3 m4 = Inl SignedOverflow"
    using a b by (simp add: defs)
  show "\<exists>ps'. taskqueue_init uc ps m1 m2 m3 m4 = Inr (0, ps') \<and>
      mempool_wf (tp_task ps') \<and> length (mp_avail (tp_task ps')) = 786432 \<and>
      mempool_wf (tp_mcell ps') \<and> length (mp_avail (tp_mcell ps')) = 786432 \<and>
      ctx_wf \<lparr>contexts = cs, context_pool = tp_context ps', stack_pool = tp_stack ps', stack_mem = sm\<rparr> [] \<and>
      length (mp_avail (tp_context ps')) = 786432 \<and> length (mp_avail (tp_stack ps')) = 786432 \<and>
      unat (capacity (tp_context ps')) = 786432"
    using a b c d by (simp add: defs ctx_wf_def)
qed

section \<open>Properties\<close>

text \<open>
  C5: The task queue is a FIFO queue.  For every sequence of \<open>tskq_enqueue_tail\<close> and
  \<open>tskq_dequeue\<close> calls on a well-formed queue, no call faults, the dequeues answer exactly what a
  list bounded by the number of task cells answers (insertions beyond it are dropped), and the
  queue stays well-formed.
\<close>

theorem tskq_run_refines_fifo:
  assumes "tskq_wf q"
  shows "\<exists>q'. impl_run tskq_enq tskq_deq q ops =
        Inr (fst (spec_run (tskq_bound q) (tskq_contents q) ops), q') \<and>
     tskq_contents q' = snd (spec_run (tskq_bound q) (tskq_contents q) ops) \<and>
     tskq_bound q' = tskq_bound q \<and> tskq_wf q'"
  using assms by (rule tq.run_refines)

definition ex_tskq :: tskq where
  "ex_tskq = (\<lparr>tq_head = NULL, tq_tail = NULL\<rparr>,
     \<lparr>tasks = (\<lambda>_. \<lparr>t_runnable = 0, t_mbuf = 0, t_type = 0, t_category = 0, t_timestamp = 0, t_next = 0\<rparr>),
      task_mempool = ex_pool\<rparr>)"

lemma ex_tskq_rep: "tskq_rep ex_tskq []"
  by (simp add: ex_tskq_def tskq_rep_def ex_pool_def mempool_wf_def mp_avail_def)

lemma ex_tskq_measures: "tskq_contents ex_tskq = []" "tskq_bound ex_tskq = 3"
  using tskq_rep_nodes [OF ex_tskq_rep]
  by (simp_all add: tskq_defs) (simp add: ex_tskq_def ex_pool_def mp_avail_def)

text \<open>Three cells: the fourth insertion is dropped.\<close>

theorem tskq_run_refines_fifo_witness:
  "\<exists>q'. impl_run tskq_enq tskq_deq ex_tskq
       [Deq, Enq (1, 0, 0, 0, 0), Enq (2, 0, 0, 0, 0), Enq (3, 0, 0, 0, 0), Enq (4, 0, 0, 0, 0), Deq, Deq] =
      Inr ([None, Some (1, 0, 0, 0, 0), Some (2, 0, 0, 0, 0)], q') \<and>
     tskq_contents q' = [(3, 0, 0, 0, 0)]"
  using tskq_run_refines_fifo [OF tskq_wfI [OF ex_tskq_rep],
      of "[Deq, Enq (1, 0, 0, 0, 0), Enq (2, 0, 0, 0, 0), Enq (3, 0, 0, 0, 0), Enq (4, 0, 0, 0, 0), Deq, Deq]"]
  by (auto simp: ex_tskq_measures)

text \<open>
  C9: Allocating a context either takes a context and a stack that no live context uses and
  keeps every live context's stack its own, or, when one of the two pools is empty, returns -1
  and gives back what it took: neither pool loses an item.
\<close>

theorem context_alloc_owns_stack:
  assumes "ctx_wf cm live"
  shows "if mp_avail (context_pool cm) = [] \<or> mp_avail (stack_pool cm) = []
     then \<exists>c cm'. context_alloc cm = Inr (-1, c, cm') \<and> ctx_wf cm' live \<and>
       mp_avail (context_pool cm') = mp_avail (context_pool cm) \<and>
       mp_avail (stack_pool cm') = mp_avail (stack_pool cm)
     else \<exists>c cm'. context_alloc cm = Inr (0, c, cm') \<and> c \<notin> set live \<and> ctx_wf cm' (c # live) \<and>
       ss_sp (contexts cm' c) \<notin> ss_sp ` contexts cm ` set live \<and>
       mp_avail (context_pool cm) = c # mp_avail (context_pool cm') \<and>
       mp_avail (stack_pool cm) = ss_sp (contexts cm' c) # mp_avail (stack_pool cm')"
proof (cases "mp_avail (context_pool cm) = [] \<or> mp_avail (stack_pool cm) = []")
  case True
  with context_alloc_fail [OF assms True] show ?thesis by auto
next
  case False
  then obtain c cs s ss where av: "mp_avail (context_pool cm) = c # cs" "mp_avail (stack_pool cm) = s # ss"
    by (meson list.exhaust)
  have "c \<notin> set live" "s \<notin> ss_sp ` contexts cm ` set live" using assms av by (auto simp: ctx_wf_def)
  with context_alloc_ok [OF assms av] False av show ?thesis by auto
qed

definition ex_ctx_mem :: ctx_mem where
  "ex_ctx_mem = \<lparr>contexts = (\<lambda>_. \<lparr>ss_sp = 0, ss_size = 0, uc_link = 0\<rparr>), context_pool = ex_pool,
     stack_pool = ex_pool, stack_mem = (\<lambda>_. 0)\<rparr>"

lemma ex_ctx_mem_wf: "ctx_wf ex_ctx_mem []"
  by (simp add: ex_ctx_mem_def ctx_wf_def ex_pool_def mempool_wf_def mp_avail_def)

theorem context_alloc_owns_stack_witness:
  "\<exists>cm'. context_alloc ex_ctx_mem = Inr (0, 4096, cm') \<and> ctx_wf cm' [4096] \<and>
     mp_avail (stack_pool cm') = [4608, 5120]"
  using context_alloc_owns_stack [OF ex_ctx_mem_wf]
  by (auto simp: ex_ctx_mem_def ex_pool_def mp_avail_def)

text \<open>
  \<open>context_free\<close> undoes \<open>context_alloc\<close>: freeing a live context succeeds, puts the
  context and its own stack back into their pools, and leaves the other live contexts as they are.
\<close>

theorem context_free_returns_items:
  assumes "ctx_wf cm live" "c \<in> set live"
  shows "\<exists>cm'. context_free cm c = Inr cm' \<and> ctx_wf cm' (remove1 c live) \<and>
     mp_avail (context_pool cm') = c # mp_avail (context_pool cm) \<and>
     mp_avail (stack_pool cm') = ss_sp (contexts cm c) # mp_avail (stack_pool cm) \<and>
     contexts cm' = contexts cm"
  by (rule context_free_ok [OF assms])

definition ex_ctx_live :: ctx_mem where
  "ex_ctx_live = ex_ctx_mem\<lparr>contexts := (\<lambda>_. \<lparr>ss_sp = 4096, ss_size = 8, uc_link = 0\<rparr>),
     context_pool := ex_pool\<lparr>allocated := 1\<rparr>, stack_pool := ex_pool\<lparr>allocated := 1\<rparr>\<rparr>"

theorem context_free_returns_items_witness:
  "\<exists>cm'. context_free ex_ctx_live 4096 = Inr cm' \<and> ctx_wf cm' [] \<and>
     mp_avail (context_pool cm') = [4096, 4608, 5120]"
proof -
  have "ctx_wf ex_ctx_live [4096]"
    by (simp add: ex_ctx_live_def ex_ctx_mem_def ctx_wf_def ex_pool_def mempool_wf_def mp_avail_def)
  from context_free_returns_items [OF this, of 4096] show ?thesis
    by (auto simp: ex_ctx_live_def ex_ctx_mem_def ex_pool_def mp_avail_def)
qed

text \<open>
  \<open>taskqueue_init\<close>: when every \<open>malloc\<close> succeeds and a \<open>ucontext_t\<close> has at most 2730
  bytes, no product overflows, the four pools hold 786432 items each, and the pools are ready for
  contexts (none live).  One byte more per context and the size of the context pool overflows.
\<close>

theorem taskqueue_init_ok:
  assumes "0 < uc" "uc \<le> 2730"
    and "malloc_ok (786432 * 40) m1" "malloc_ok (786432 * 16) m2"
    and "malloc_ok (786432 * uc) m3" "malloc_ok (786432 * 2048) m4"
  shows "(\<exists>ps'. taskqueue_init uc ps m1 m2 m3 m4 = Inr (0, ps') \<and>
      mempool_wf (tp_task ps') \<and> length (mp_avail (tp_task ps')) = 786432 \<and>
      mempool_wf (tp_mcell ps') \<and> length (mp_avail (tp_mcell ps')) = 786432 \<and>
      ctx_wf \<lparr>contexts = cs, context_pool = tp_context ps', stack_pool = tp_stack ps', stack_mem = sm\<rparr> [] \<and>
      length (mp_avail (tp_context ps')) = 786432 \<and> length (mp_avail (tp_stack ps')) = 786432) \<and>
    taskqueue_init 2731 ps m1 m2 m3 m4 = Inl SignedOverflow"
  using taskqueue_init_pools [OF assms] by blast

definition ex_task_pools :: task_pools where
  "ex_task_pools = \<lparr>tp_task = ex_pool, tp_mcell = ex_pool, tp_context = ex_pool, tp_stack = ex_pool\<rparr>"

theorem taskqueue_init_ok_witness:
  "\<exists>ps'. taskqueue_init 968 ex_task_pools (65536, 16) (2147483648, 16) (4294967296, 16) (8589934592, 16) =
      Inr (0, ps') \<and> mempool_wf (tp_task ps')"
  using taskqueue_init_ok [of 968 "(65536, 16)" "(2147483648, 16)" "(4294967296, 16)" "(8589934592, 16)" ex_task_pools]
  by (auto simp: malloc_ok_def)

text \<open>
  C40: The return link of an allocated context is stored inside its own stack item, but outside the
  stack its context declares.  For a 16-byte aligned stack \<open>set_context_link\<close> succeeds, writes the
  word at offset 48 of the 2048 bytes and no other word, and takes nothing from the pools.  The
  size recorded in the context, which is what \<open>makecontext\<close> is told, is 8 bytes: the written word
  begins 40 bytes behind the end of the declared stack.
\<close>

theorem set_context_link_in_stack:
  assumes "ctx_wf cm live" "context_alloc cm = Inr (0, c, cm')"
    and "ss_sp (contexts cm' c) AND 15 = 0"
  shows "\<exists>cm''. set_context_link cm' c link = Inr cm'' \<and>
     stack_mem cm'' (ss_sp (contexts cm' c) + 48) = link \<and> uc_link (contexts cm'' c) = link \<and>
     (\<forall>a. a \<noteq> ss_sp (contexts cm' c) + 48 \<longrightarrow> stack_mem cm'' a = stack_mem cm' a) \<and>
     context_pool cm'' = context_pool cm' \<and> stack_pool cm'' = stack_pool cm' \<and>
     ss_sp (contexts cm'' c) = ss_sp (contexts cm' c) \<and>
     ss_sp (contexts cm'' c) + ss_size (contexts cm'' c) + 40 = ss_sp (contexts cm' c) + 48"
proof -
  have av: "mp_avail (context_pool cm) \<noteq> []" "mp_avail (stack_pool cm) \<noteq> []"
    using context_alloc_fail [OF assms(1)] assms(2) by auto
  then obtain s ss cs where "mp_avail (stack_pool cm) = s # ss" "mp_avail (context_pool cm) = c # cs"
    using context_alloc_ok [OF assms(1)] assms(2) by (auto simp: neq_Nil_conv)
  with context_alloc_ok [OF assms(1)] assms(1,2)
  have "ss_size (contexts cm' c) = 8" "c \<noteq> NULL" by (fastforce simp: ctx_wf_def)+
  then show ?thesis
    using link_slot_eq [OF assms(3)] link_slot_in_stack [of "contexts cm' c"]
    by (auto simp: set_context_link_def not_less)
qed

theorem set_context_link_in_stack_witness:
  "\<exists>cm' cm''. context_alloc ex_ctx_mem = Inr (0, 4096, cm') \<and> set_context_link cm' 4096 7 = Inr cm'' \<and>
     stack_mem cm'' 4144 = 7"
proof -
  define cm' where "cm' = ex_ctx_mem\<lparr>context_pool := ex_pool\<lparr>allocated := 1\<rparr>,
     stack_pool := ex_pool\<lparr>allocated := 1\<rparr>,
     contexts := (contexts ex_ctx_mem)(4096 := \<lparr>ss_sp = 4096, ss_size = 8, uc_link = 0\<rparr>)\<rparr>"
  have a: "context_alloc ex_ctx_mem = Inr (0, 4096, cm')"
    by (simp add: cm'_def context_alloc_def ex_ctx_mem_def mempool_alloc_def ex_pool_def)
  have "ss_sp (contexts cm' 4096) = 4096" by (simp add: cm'_def)
  with set_context_link_in_stack [OF ex_ctx_mem_wf a, of 7] a show ?thesis by auto
qed

text \<open>
  \<open>smart_tskq_dequeue\<close> serves the queue only when its head has waited at least 1000 ticks
  (on the signed reading of the 64-bit difference); then it is \<open>tskq_dequeue\<close>, otherwise it
  reports an empty queue and changes nothing, however long the queue is.
\<close>

theorem smart_tskq_dequeue_age:
  "smart_tskq_dequeue tm tq now =
     (if tq_head tq \<noteq> NULL \<and> 1000 \<le> sint (now - t_timestamp (tasks tm (tq_head tq)))
      then tskq_dequeue tm tq else Inr (None, tq, tm))"
proof -
  have "0 < sgn z * (\<bar>z\<bar> div 1000) \<longleftrightarrow> 1000 \<le> z" for z :: int
    by (cases "0 < z"; cases "z = 0") (auto simp: sgn_if)
  then show ?thesis
    by (simp add: smart_tskq_dequeue_def get_queue_timestamp_def Let_def tskq_dequeue_def)
qed

text \<open>
  When no task cell is left, \<open>tskq_enqueue_tail\<close> drops the task and changes nothing, while
  \<open>tskq_enqueue_head\<close>, which lacks that check, dereferences \<open>NULL\<close>.  With a cell left,
  \<open>tskq_enqueue_head\<close> puts the task in front, so that it is the next one dequeued.
\<close>

theorem tskq_enqueue_head_spec:
  assumes "tskq_wf (tq, tm)"
  shows "if mp_avail (task_mempool tm) = []
     then tskq_enqueue_tail tm tq d = Inr (tq, tm) \<and> tskq_enqueue_head tm tq d = Inl NullDeref
     else \<exists>tq' tm' q''. tskq_enqueue_head tm tq d = Inr (tq', tm') \<and> tskq_wf (tq', tm') \<and>
       tskq_contents (tq', tm') = d # tskq_contents (tq, tm) \<and>
       tskq_dequeue tm' tq' = Inr (Some d, q'') \<and> tskq_contents q'' = tskq_contents (tq, tm)"
proof (cases "mp_avail (task_mempool tm)")
  case Nil
  with assms tskq_enqueue_tail_exhausted tskq_enqueue_head_exhausted show ?thesis
    by (auto simp: tskq_wf_def)
next
  case (Cons x xs)
  from tskq_enqueue_head_room [OF assms [unfolded tskq_wf_def] Cons, of d]
  obtain tq' tm' where e: "tskq_enqueue_head tm tq d = Inr (tq', tm')" and
      r: "tskq_rep (tq', tm') (x # tskq_nodes (tq, tm))" and
      m: "map (\<lambda>a. task_data_of (tasks tm' a)) (x # tskq_nodes (tq, tm)) =
        d # map (\<lambda>a. task_data_of (tasks tm a)) (tskq_nodes (tq, tm))" by (elim exE conjE) (rule that)
  have wf: "tskq_wf (tq', tm')" using r by (rule tskq_wfI)
  have c: "tskq_contents (tq', tm') = d # tskq_contents (tq, tm)"
    using m by (simp add: tskq_contents_def tskq_rep_nodes [OF r])
  from tq.deq_some [OF wf c] obtain q'' where "tskq_deq (tq', tm') = Inr (Some d, q'')"
      "tskq_contents q'' = tskq_contents (tq, tm)" by blast
  then show ?thesis using Cons e wf c by (cases q'') (auto simp: tskq_deq_def)
qed

theorem tskq_enqueue_head_spec_witness:
  "\<exists>tq' tm'. tskq_enqueue_head (snd ex_tskq) (fst ex_tskq) (1, 2, 3, 4, 5) = Inr (tq', tm') \<and>
     tskq_contents (tq', tm') = [(1, 2, 3, 4, 5)]"
proof -
  have "tskq_wf (fst ex_tskq, snd ex_tskq)" using tskq_wfI [OF ex_tskq_rep] by simp
  from tskq_enqueue_head_spec [OF this, of "(1, 2, 3, 4, 5)"] show ?thesis
    using ex_tskq_measures by (auto simp: ex_tskq_def ex_pool_def mp_avail_def)
qed

end
