(* ===== verification/Base_Bits.thy ===== *)
theory Base_Bits
  imports Psp_Prelude
begin

text \<open>
  The integer utilities of \<^verbatim>\<open>include/base/stddef.h\<close> and \<^verbatim>\<open>include/base/byteorder.h\<close>:
  powers of two, alignment, comparisons of wrapping counters, byte swapping.  The macros are
  generic in the integer type, and so are their models.
\<close>

section \<open>Powers of two and alignment\<close>

definition is_power_of_two :: "'a::len word \<Rightarrow> bool" where
  "is_power_of_two x \<longleftrightarrow> x \<noteq> 0 \<and> x AND (x - 1) = 0"

definition align_up :: "'a::len word \<Rightarrow> 'a word \<Rightarrow> 'a word" where
  "align_up x align = ((x - 1) OR (align - 1)) + 1"

definition align_down :: "'a::len word \<Rightarrow> 'a word \<Rightarrow> 'a word" where
  "align_down x align = x AND NOT (align - 1)"

definition div_up :: "'a::len word \<Rightarrow> 'a word \<Rightarrow> 'a word" where
  "div_up x d = (x + d - 1) div d"

section \<open>Comparisons of wrapping counters\<close>

definition wraps_lt :: "u32 \<Rightarrow> u32 \<Rightarrow> bool" where "wraps_lt a b \<longleftrightarrow> sint (a - b) < 0"
definition wraps_lte :: "u32 \<Rightarrow> u32 \<Rightarrow> bool" where "wraps_lte a b \<longleftrightarrow> sint (a - b) \<le> 0"
definition wraps_gt :: "u32 \<Rightarrow> u32 \<Rightarrow> bool" where "wraps_gt a b \<longleftrightarrow> sint (b - a) < 0"
definition wraps_gte :: "u32 \<Rightarrow> u32 \<Rightarrow> bool" where "wraps_gte a b \<longleftrightarrow> sint (b - a) \<le> 0"

section \<open>Byte order\<close>

definition bswap16 :: "u16 \<Rightarrow> u16" where
  "bswap16 val = push_bit 8 (val AND 0x00ff) OR drop_bit 8 (val AND 0xff00)"

definition bswap32 :: "u32 \<Rightarrow> u32" where
  "bswap32 val =
     push_bit 24 (val AND 0x000000ff) OR push_bit 8 (val AND 0x0000ff00) OR
     drop_bit 8 (val AND 0x00ff0000) OR drop_bit 24 (val AND 0xff000000)"

definition bswap64 :: "u64 \<Rightarrow> u64" where
  "bswap64 val =
     push_bit 56 (val AND 0x00000000000000ff) OR push_bit 40 (val AND 0x000000000000ff00) OR
     push_bit 24 (val AND 0x0000000000ff0000) OR push_bit 8 (val AND 0x00000000ff000000) OR
     drop_bit 8 (val AND 0x000000ff00000000) OR drop_bit 24 (val AND 0x0000ff0000000000) OR
     drop_bit 40 (val AND 0x00ff000000000000) OR drop_bit 56 (val AND 0xff00000000000000)"

section \<open>Lemmas\<close>

lemma pow2_and_pred_nat:
  fixes k :: nat
  assumes "k \<noteq> 0" "k AND (k - 1) = 0"
  shows "\<exists>n. k = 2 ^ n"
  using assms
proof (induction k rule: less_induct)
  case (less k)
  show ?case
  proof (cases "even k")
    case True
    then obtain j where j: "k = 2 * j" by (elim evenE)
    then have "(k - 1) div 2 = j - 1" using less.prems(1) by simp
    then have "j AND (j - 1) = 0"
      using less.prems(2) True j by (subst (asm) and_rec) simp
    moreover have "j \<noteq> 0" "j < k" using less.prems(1) j by auto
    ultimately obtain n where "j = 2 ^ n" using less.IH by blast
    then have "k = 2 ^ Suc n" using j by simp
    then show ?thesis by blast
  next
    case False
    then obtain j where j: "k = 2 * j + 1" by (elim oddE)
    then have "j = 0" using less.prems(2) by (subst (asm) and_rec) simp
    then show ?thesis using j by (intro exI [of _ 0]) simp
  qed
qed

lemma is_power_of_two_pow: "n < LENGTH('a) \<Longrightarrow> is_power_of_two (2 ^ n :: 'a::len word)"
proof -
  assume n: "n < LENGTH('a)"
  then have "unat (2 ^ n AND mask n :: 'a word) = 0"
    by (simp only: unat_and_mask unat_pow2) simp
  then have "2 ^ n AND mask n = (0 :: 'a word)" by (simp only: unat_eq_zero)
  then show ?thesis using n by (simp add: is_power_of_two_def mask_eq_exp_minus_1)
qed

lemma is_power_of_twoE:
  assumes "is_power_of_two (x :: 'a::len word)"
  obtains n where "n < LENGTH('a)" "x = 2 ^ n"
proof -
  have "unat x \<noteq> 0" using assms by (simp add: is_power_of_two_def unat_gt_0)
  moreover have "unat (x AND (x - 1)) = unat x AND (unat x - 1)"
    using unat_minus_one [of x] assms unfolding unsigned_and_eq is_power_of_two_def by simp
  then have "unat x AND (unat x - 1) = 0" using assms by (simp add: is_power_of_two_def)
  ultimately obtain n where n: "unat x = 2 ^ n" using pow2_and_pred_nat by blast
  then have "(2 :: nat) ^ n < 2 ^ LENGTH('a)" using unsigned_less [of x, where 'a = nat] by simp
  then have "n < LENGTH('a)" by simp
  moreover have "x = 2 ^ n" using n calculation by (simp add: word_unat_eq_iff unat_pow2)
  ultimately show ?thesis using that by blast
qed

lemma unat_align_down:
  "unat (align_down x (2 ^ n)) = unat (x :: 'a::len word) - unat x mod 2 ^ n"
proof -
  have "align_down x (2 ^ n) = x - (x AND mask n)"
    by (simp add: align_down_def and_not_minus mask_eq_exp_minus_1)
  moreover have "x AND mask n \<le> x" by (simp add: word_le_nat_alt unat_and_mask)
  ultimately show ?thesis by (simp add: unat_sub unat_and_mask)
qed

lemma align_up_down:
  "align_up x (2 ^ n) = align_down (x - 1) (2 ^ n) + (2 ^ n :: 'a::len word)"
proof -
  have "(x - 1) OR mask n = ((x - 1) AND NOT (mask n)) OR mask n"
    by (rule bit_eqI) (auto simp: bit_simps)
  also have "\<dots> = ((x - 1) AND NOT (mask n)) + mask n"
    by (rule disjunctive_add [symmetric]) (auto simp: bit_simps)
  finally show ?thesis
    by (simp add: align_up_def align_down_def mask_eq_exp_minus_1)
qed

lemma odd_div_2p31:
  assumes "0 \<le> k" "k < 4294967296"
  shows "odd (k div 2147483648) \<longleftrightarrow> 2147483648 \<le> (k :: int)"
proof (cases "2147483648 \<le> k")
  case True
  have "k div 2147483648 = 1"
    by (rule int_div_pos_eq [of _ _ _ "k - 2147483648"]) (use True assms in linarith)+
  then show ?thesis using True by (simp only:) simp
next
  case False
  then have "k div 2147483648 = 0" using assms by (intro div_pos_pos_trivial) linarith+
  then show ?thesis using False by (simp only:) simp
qed

lemma sint_neg_iff: "sint (w :: u32) < 0 \<longleftrightarrow> 2147483648 \<le> unat w"
proof -
  have "sint w < 0 \<longleftrightarrow> bit (uint w) 31" by (simp add: sint_uint)
  also have "\<dots> \<longleftrightarrow> odd (uint w div 2147483648)" by (simp add: bit_iff_odd)
  also have "\<dots> \<longleftrightarrow> 2147483648 \<le> uint w"
    using uint_ge_0 [of w] uint_bounded [of w] by (intro odd_div_2p31) simp_all
  moreover have "int (unat w) = uint w" by simp
  ultimately show ?thesis by linarith
qed

lemma sint_eq_0_iff: "sint (w :: u32) = 0 \<longleftrightarrow> w = 0"
  by (metis signed_0 signed_word_eqI)

lemma unat_minus_of_nat:
  assumes "k < 4294967296"
  shows "unat (of_nat k :: u32) = k" "unat (- (of_nat k :: u32)) = (if k = 0 then 0 else 4294967296 - k)"
proof -
  show u: "unat (of_nat k :: u32) = k" using assms by (simp add: unat_of_nat)
  have i: "uint (of_nat k :: u32) = int k" using u by (metis int_unat_eq)
  show "unat (- (of_nat k :: u32)) = (if k = 0 then 0 else 4294967296 - k)"
  proof (cases "k = 0")
    case False
    then have "uint (- (of_nat k :: u32)) = 4294967296 - int k"
      using assms i by (simp only: uint_word_ariths) (simp add: zmod_zminus1_eq_if)
    moreover have "int (unat (- (of_nat k :: u32))) = uint (- (of_nat k :: u32))" by (rule int_unat_eq)
    ultimately have "unat (- (of_nat k :: u32)) = 4294967296 - k" using assms by linarith
    then show ?thesis using False by simp
  qed simp
qed

lemma unat_align_up:
  assumes "n < LENGTH('a)" "x \<noteq> 0" "unat (x :: 'a::len word) + 2 ^ n \<le> 2 ^ LENGTH('a)"
  shows "unat (align_up x (2 ^ n)) = unat x - 1 - (unat x - 1) mod 2 ^ n + 2 ^ n"
proof -
  have u: "unat (x - 1) = unat x - 1" "0 < unat x" using assms(2) by (simp_all add: unat_minus_one unat_gt_0)
  then have d: "unat (align_down (x - 1) (2 ^ n)) = unat x - 1 - (unat x - 1) mod 2 ^ n"
    by (simp only: unat_align_down)
  then have "unat (align_down (x - 1) (2 ^ n)) + 2 ^ n < 2 ^ LENGTH('a)"
    using u(2) assms(3) by linarith
  then have "unat (align_down (x - 1) (2 ^ n) + 2 ^ n) = unat (align_down (x - 1) (2 ^ n)) + 2 ^ n"
    using unat_pow2 [OF assms(1)] by (simp add: unat_word_ariths)
  then show ?thesis using d by (simp only: align_up_down)
qed

lemma align_up_0: "align_up 0 a = 0"
  by (simp add: align_up_def)

text \<open>The place of bit \<open>n\<close> when the \<open>k\<close> bytes of a word are reversed.\<close>

definition byte_mirror :: "nat \<Rightarrow> nat \<Rightarrow> nat" where
  "byte_mirror k n = 8 * (k - 1 - n div 8) + n mod 8"

lemma byte_mirror_invol:
  assumes "n < 8 * k"
  shows "byte_mirror k n < 8 * k" "byte_mirror k (byte_mirror k n) = n"
proof -
  have d: "n div 8 < k" using assms by (simp add: less_mult_imp_div_less mult.commute)
  have q: "byte_mirror k n div 8 = k - 1 - n div 8" "byte_mirror k n mod 8 = n mod 8"
    by (simp_all add: byte_mirror_def)
  have "byte_mirror k n < 8 * (k - 1 - n div 8) + 8" by (simp add: byte_mirror_def)
  also have "\<dots> \<le> 8 * k" using d by linarith
  finally show "byte_mirror k n < 8 * k" .
  have "k - 1 - (k - 1 - n div 8) = n div 8" using d by linarith
  then show "byte_mirror k (byte_mirror k n) = n"
    unfolding byte_mirror_def [of k "byte_mirror k n"] q by simp
qed

lemma all_less_numeral: "(\<forall>n < numeral k. P n) \<longleftrightarrow> list_all P (upt 0 (numeral k))"
  by (auto simp: list_all_iff)

lemma bit_bswap16: "bit (bswap16 x) n = (n < 16 \<and> bit x (byte_mirror 2 n))"
proof -
  have "\<forall>n < 16. bit (bswap16 x) n \<longleftrightarrow> bit x (byte_mirror 2 n)" unfolding all_less_numeral
    by (simp add: upt_rec bswap16_def byte_mirror_def bit_simps) (simp add: eval_nat_numeral)
  then show ?thesis using bit_imp_le_length [of "bswap16 x" n] by auto
qed

lemma bit_bswap32: "bit (bswap32 x) n = (n < 32 \<and> bit x (byte_mirror 4 n))"
proof -
  have "\<forall>n < 32. bit (bswap32 x) n \<longleftrightarrow> bit x (byte_mirror 4 n)" unfolding all_less_numeral
    by (simp add: upt_rec bswap32_def byte_mirror_def bit_simps) (simp add: eval_nat_numeral)
  then show ?thesis using bit_imp_le_length [of "bswap32 x" n] by auto
qed

lemma bit_bswap64: "bit (bswap64 x) n = (n < 64 \<and> bit x (byte_mirror 8 n))"
proof -
  have "\<forall>n < 64. bit (bswap64 x) n \<longleftrightarrow> bit x (byte_mirror 8 n)" unfolding all_less_numeral
    by (simp add: upt_rec bswap64_def byte_mirror_def bit_simps) (simp add: eval_nat_numeral)
  then show ?thesis using bit_imp_le_length [of "bswap64 x" n] by auto
qed

section \<open>Properties\<close>

text \<open>
  The bit trick of \<open>is_power_of_two\<close> decides exactly the powers of two, at every width.
\<close>

theorem is_power_of_two_iff: "is_power_of_two (x :: 'a::len word) \<longleftrightarrow> (\<exists>n < LENGTH('a). x = 2 ^ n)"
  by (auto elim: is_power_of_twoE intro: is_power_of_two_pow)

text \<open>
  For a power of two, \<open>align_down\<close> is the largest multiple not above \<open>x\<close> and, where it does
  not wrap around, \<open>align_up\<close> is the smallest multiple not below \<open>x\<close>.
\<close>

theorem align_nearest_multiple:
  assumes "is_power_of_two a" "unat (x :: 'a::len word) + unat a \<le> 2 ^ LENGTH('a)"
  shows "unat a dvd unat (align_down x a) \<and> unat (align_down x a) \<le> unat x \<and>
     unat x < unat (align_down x a) + unat a \<and>
     unat a dvd unat (align_up x a) \<and> unat x \<le> unat (align_up x a) \<and>
     unat (align_up x a) < unat x + unat a"
proof -
  obtain n where n: "n < LENGTH('a)" "a = 2 ^ n" using assms(1) by (rule is_power_of_twoE)
  have a: "unat a = 2 ^ n" "0 < unat a" using n by (simp_all add: unat_pow2)
  have down: "unat (align_down x a) = 2 ^ n * (unat x div 2 ^ n)"
    by (simp add: n unat_align_down minus_mod_eq_mult_div)
  have "unat a dvd unat (align_up x a) \<and> unat x \<le> unat (align_up x a) \<and>
     unat (align_up x a) < unat x + unat a"
  proof (cases "x = 0")
    case True
    then show ?thesis using a by (simp add: align_up_0)
  next
    case False
    let ?y = "unat x - 1"
    have y: "unat x = Suc ?y" using False by (simp add: unat_gt_0)
    have "unat (align_up x a) = ?y - ?y mod 2 ^ n + 2 ^ n"
      using unat_align_up [OF n(1) False] assms(2) a n by simp
    moreover have "?y mod 2 ^ n < 2 ^ n" "?y mod 2 ^ n \<le> ?y" by simp_all
    moreover have "(2 :: nat) ^ n dvd ?y - ?y mod 2 ^ n + 2 ^ n"
      by (simp add: minus_mod_eq_mult_div)
    ultimately show ?thesis using y a(1) by (intro conjI) (simp_all only:, linarith+)
  qed
  moreover have "unat x = 2 ^ n * (unat x div 2 ^ n) + unat x mod 2 ^ n" "unat x mod 2 ^ n < 2 ^ n" by simp_all
  ultimately show ?thesis using down a by (metis dvd_triv_left le_add1 nat_add_left_cancel_less)
qed

theorem align_nearest_multiple_witness:
  "align_down (5000 :: u64) 4096 = 4096 \<and> align_up (5000 :: u64) 4096 = 8192 \<and>
   unat (4096 :: u64) dvd unat (align_up (5000 :: u64) 4096)"
  using align_nearest_multiple [of "4096 :: u64" 5000]
  by (simp add: is_power_of_two_def align_down_def align_up_def)

text \<open>
  The wrapping comparisons order two 32-bit counters correctly as long as they are less than
  \<open>2\<^sup>31\<close> apart, also when the counter has wrapped around between them.
\<close>

theorem wraps_correct:
  assumes "k < 2147483648"
  shows "(wraps_lt a (a + of_nat k) \<longleftrightarrow> 0 < k) \<and> wraps_lte a (a + of_nat k) \<and>
     (wraps_gt (a + of_nat k) a \<longleftrightarrow> 0 < k) \<and> wraps_gte (a + of_nat k) a \<and>
     \<not> wraps_lt (a + of_nat k) a \<and> \<not> wraps_gt a (a + of_nat k)"
proof -
  have neg: "sint (- (of_nat k :: u32)) < 0 \<longleftrightarrow> 0 < k" "\<not> sint (of_nat k :: u32) < 0"
    using assms by (auto simp: sint_neg_iff unat_minus_of_nat)
  have z: "sint (- (of_nat k :: u32)) = 0" if "k = 0" using that by simp
  show ?thesis using neg z unfolding wraps_lt_def wraps_lte_def wraps_gt_def wraps_gte_def
    by (cases "k = 0") (simp_all add: order.strict_implies_order)
qed

theorem wraps_correct_witness:
  "wraps_lt 0xfffffff0 (0xfffffff0 + of_nat 32) \<and> wraps_lte 0xfffffff0 (0xfffffff0 + of_nat 32) \<and>
   (0xfffffff0 + of_nat 32 :: u32) = 16"
  using wraps_correct [of 32 "0xfffffff0"] by simp

text \<open>
  Byte swapping reverses the order of the bytes at every width: bit \<open>n\<close> of the result is the
  bit of the argument at the same place of the mirrored byte; hence swapping twice is the identity.
\<close>

theorem bswap_mirror:
  "bit (bswap16 x) n = (n < 16 \<and> bit x (byte_mirror 2 n)) \<and> bswap16 (bswap16 x) = x \<and>
   bit (bswap32 y) n = (n < 32 \<and> bit y (byte_mirror 4 n)) \<and> bswap32 (bswap32 y) = y \<and>
   bit (bswap64 z) n = (n < 64 \<and> bit z (byte_mirror 8 n)) \<and> bswap64 (bswap64 z) = z"
proof (intro conjI)
  show "bswap16 (bswap16 x) = x" using byte_mirror_invol [of _ 2] by (intro bit_eqI) (simp add: bit_bswap16)
  show "bswap32 (bswap32 y) = y" using byte_mirror_invol [of _ 4] by (intro bit_eqI) (simp add: bit_bswap32)
  show "bswap64 (bswap64 z) = z" using byte_mirror_invol [of _ 8] by (intro bit_eqI) (simp add: bit_bswap64)
qed (rule bit_bswap16 bit_bswap32 bit_bswap64)+

end
