(* ===== verification/Lrpc.thy ===== *)
theory Lrpc
  imports Psp_Fail Base_Bits Fifo
begin

text \<open>
  The shared-memory channels of \<^verbatim>\<open>include/psp/libos/io/lrpc.h\<close> and the channel sets of
  \<^verbatim>\<open>include/psp/libos/io/lrpc/context.hh\<close> and \<^verbatim>\<open>src/c++/libos/io/lrpc/context.cc\<close>.  Sender and
  receiver share a table of messages and one write-back counter, and recognise fresh messages by
  a parity bit that flips on every round of the ring.  The shared memory is a store of tables and
  counters by address.  The channel is a bounded FIFO, called sequentially (an interpretation of
  \<open>bounded_fifo\<close>) and under every interleaving of the sender's and the receiver's accesses.
\<close>

section \<open>Channels\<close>

record lrpc_msg =
  m_cmd :: u64
  m_payload :: u64

definition LRPC_DONE_PARITY :: u64 where "LRPC_DONE_PARITY = push_bit 63 1"
definition LRPC_CMD_MASK :: u64 where "LRPC_CMD_MASK = NOT LRPC_DONE_PARITY"

record lrpc_chan_out =
  out_tbl :: ptr
  out_wb :: ptr
  send_head :: u32
  send_tail :: u32
  out_size :: u32

record lrpc_chan_in =
  in_tbl :: ptr
  in_wb :: ptr
  recv_head :: u32
  in_size :: u32

record lrpc_store =
  tbls :: "ptr \<Rightarrow> nat \<Rightarrow> lrpc_msg"
  wbs :: "ptr \<Rightarrow> u32"

text \<open>\<open>(head & size) ? 0 : LRPC_DONE_PARITY\<close> and the slot \<open>head & (size - 1)\<close>.\<close>

definition lrpc_parity :: "u32 \<Rightarrow> u32 \<Rightarrow> u64" where
  "lrpc_parity head siz = (if head AND siz \<noteq> 0 then 0 else LRPC_DONE_PARITY)"

definition lrpc_slot :: "u32 \<Rightarrow> u32 \<Rightarrow> nat" where
  "lrpc_slot head siz = unat (head AND (siz - 1))"

definition put_msg :: "lrpc_store \<Rightarrow> ptr \<Rightarrow> nat \<Rightarrow> lrpc_msg \<Rightarrow> lrpc_store" where
  "put_msg st tbl i m = st\<lparr>tbls := (tbls st)(tbl := (tbls st tbl)(i := m))\<rparr>"

definition lrpc_send_slow ::
  "lrpc_store \<Rightarrow> lrpc_chan_out \<Rightarrow> u64 \<Rightarrow> u64 \<Rightarrow> (bool \<times> lrpc_chan_out \<times> lrpc_store) result" where
  "lrpc_send_slow st chan cmd pay =
     psp_true EINVAL (send_head chan - send_tail chan = out_size chan)
       (let chan = chan\<lparr>send_tail := wbs st (out_wb chan)\<rparr> in
        if send_head chan - send_tail chan = out_size chan then Inr (False, chan, st)
        else
          let i = lrpc_slot (send_head chan) (out_size chan);
              c = cmd OR lrpc_parity (send_head chan) (out_size chan) in
          Inr (True, chan\<lparr>send_head := send_head chan + 1\<rparr>,
               put_msg st (out_tbl chan) i \<lparr>m_cmd = c, m_payload = pay\<rparr>))"

definition lrpc_init_out :: "lrpc_chan_out \<Rightarrow> ptr \<Rightarrow> u32 \<Rightarrow> ptr \<Rightarrow> int \<times> lrpc_chan_out" where
  "lrpc_init_out chan tbl siz wb =
     (if \<not> is_power_of_two siz then (- EINVAL, chan)
      else (0, \<lparr>out_tbl = tbl, out_wb = wb, send_head = 0, send_tail = 0, out_size = siz\<rparr>))"

definition lrpc_send ::
  "lrpc_store \<Rightarrow> lrpc_chan_out \<Rightarrow> u64 \<Rightarrow> u64 \<Rightarrow> (bool \<times> lrpc_chan_out \<times> lrpc_store) result" where
  "lrpc_send st chan cmd pay =
     psp_true EINVAL (cmd AND LRPC_DONE_PARITY = 0)
       (if out_size chan \<le> send_head chan - send_tail chan then lrpc_send_slow st chan cmd pay
        else
          let i = lrpc_slot (send_head chan) (out_size chan);
              c = cmd OR lrpc_parity (send_head chan) (out_size chan) in
          Inr (True, chan\<lparr>send_head := send_head chan + 1\<rparr>,
               put_msg st (out_tbl chan) i \<lparr>m_cmd = c, m_payload = pay\<rparr>))"

definition lrpc_get_cached_send_window :: "lrpc_chan_out \<Rightarrow> u32" where
  "lrpc_get_cached_send_window chan = out_size chan - send_head chan + send_tail chan"

definition lrpc_get_cached_length :: "lrpc_chan_out \<Rightarrow> u32" where
  "lrpc_get_cached_length chan = send_head chan - send_tail chan"

definition lrpc_poll_send_tail :: "lrpc_store \<Rightarrow> lrpc_chan_out \<Rightarrow> u32 \<times> lrpc_chan_out" where
  "lrpc_poll_send_tail st chan =
     (let chan = chan\<lparr>send_tail := wbs st (out_wb chan)\<rparr> in (send_tail chan, chan))"

definition lrpc_init_in :: "lrpc_chan_in \<Rightarrow> ptr \<Rightarrow> u32 \<Rightarrow> ptr \<Rightarrow> int \<times> lrpc_chan_in" where
  "lrpc_init_in chan tbl siz wb =
     (if \<not> is_power_of_two siz then (- EINVAL, chan)
      else (0, \<lparr>in_tbl = tbl, in_wb = wb, recv_head = 0, in_size = siz\<rparr>))"

text \<open>\<open>None\<close> is the return value \<open>false\<close>, which leaves the out parameters alone.\<close>

definition lrpc_recv ::
  "lrpc_store \<Rightarrow> lrpc_chan_in \<Rightarrow> (u64 \<times> u64) option \<times> lrpc_chan_in \<times> lrpc_store" where
  "lrpc_recv st chan =
     (let m = tbls st (in_tbl chan) (lrpc_slot (recv_head chan) (in_size chan));
          parity = lrpc_parity (recv_head chan) (in_size chan) in
      if m_cmd m AND LRPC_DONE_PARITY \<noteq> parity then (None, chan, st)
      else
        let chan = chan\<lparr>recv_head := recv_head chan + 1\<rparr> in
        (Some (m_cmd m AND LRPC_CMD_MASK, m_payload m), chan,
         st\<lparr>wbs := (wbs st)(in_wb chan := recv_head chan)\<rparr>))"

definition lrpc_empty :: "lrpc_store \<Rightarrow> lrpc_chan_in \<Rightarrow> bool" where
  "lrpc_empty st chan \<longleftrightarrow>
     (let m = tbls st (in_tbl chan) (lrpc_slot (recv_head chan) (in_size chan));
          parity = lrpc_parity (recv_head chan) (in_size chan) in
      m_cmd m AND LRPC_DONE_PARITY \<noteq> parity)"

section \<open>Channel sets\<close>

definition MAX_PEERS :: nat where "MAX_PEERS = 32"
definition LRPC_Q_LEN :: u32 where "LRPC_Q_LEN = 4096"
definition LRPC_TX :: u64 where "LRPC_TX = 0"

record LrpcContext =
  ingress :: "lrpc_chan_in list"
  egress :: "lrpc_chan_out list"

definition lrpc_context_new :: LrpcContext where
  "lrpc_context_new =
     \<lparr>ingress = replicate MAX_PEERS \<lparr>in_tbl = 0, in_wb = 0, recv_head = 0, in_size = 0\<rparr>,
      egress = replicate MAX_PEERS \<lparr>out_tbl = 0, out_wb = 0, send_head = 0, send_tail = 0, out_size = 0\<rparr>\<rparr>"

text \<open>A failed \<open>malloc\<close> is only logged; the \<open>memset\<close> that follows then writes through \<open>NULL\<close>.\<close>

definition generate_lrpc_buffer :: "lrpc_store \<Rightarrow> ptr \<Rightarrow> ptr \<Rightarrow> ((ptr \<times> ptr) \<times> lrpc_store) result" where
  "generate_lrpc_buffer st bufp wbp =
     (if bufp = NULL then Inl NullDeref
      else if wbp = NULL then Inl NullDeref
      else Inr ((bufp, wbp),
        st\<lparr>tbls := (tbls st)(bufp := (\<lambda>_. \<lparr>m_cmd = 0, m_payload = 0\<rparr>)), wbs := (wbs st)(wbp := 0)\<rparr>))"

definition pop :: "lrpc_store \<Rightarrow> LrpcContext \<Rightarrow> u32 \<Rightarrow> (int \<times> u64 option \<times> LrpcContext \<times> lrpc_store) result" where
  "pop st ctx peer_id =
     (if unat peer_id < length (ingress ctx) then
        case lrpc_recv st (ingress ctx ! unat peer_id) of
          (Some (cmd_out, payload_out), chan, st) \<Rightarrow>
            Inr (0, Some payload_out, ctx\<lparr>ingress := (ingress ctx)[unat peer_id := chan]\<rparr>, st)
        | (None, chan, st) \<Rightarrow>
            Inr (EAGAIN, None, ctx\<lparr>ingress := (ingress ctx)[unat peer_id := chan]\<rparr>, st)
      else Inl OutOfBounds)"

definition push :: "lrpc_store \<Rightarrow> LrpcContext \<Rightarrow> u64 \<Rightarrow> u32 \<Rightarrow> (int \<times> LrpcContext \<times> lrpc_store) result" where
  "push st ctx pay peer_id =
     (if unat peer_id < length (egress ctx) then
        res_bind (lrpc_send st (egress ctx ! unat peer_id) LRPC_TX pay) (\<lambda>(ok, chan, st).
          let ctx = ctx\<lparr>egress := (egress ctx)[unat peer_id := chan]\<rparr> in
          if \<not> ok then Inr (EAGAIN, ctx, st) else Inr (0, ctx, st))
      else Inl OutOfBounds)"

section \<open>Parity\<close>

lemma lrpc_parity_bit: "lrpc_parity w (2 ^ n) = (if bit w n then 0 else LRPC_DONE_PARITY)"
  by (auto simp: lrpc_parity_def bit_iff_and_push_bit_not_eq_0 push_bit_eq_mult)

lemma bit_parity [simp]: "bit LRPC_DONE_PARITY n \<longleftrightarrow> n = 63"
  unfolding LRPC_DONE_PARITY_def by (simp only: bit_push_bit_iff bit_1_iff) auto

lemma parity_not_0 [simp]: "LRPC_DONE_PARITY \<noteq> 0"
  using bit_parity [of 63] by (metis bit_0_eq bot_apply bot_bool_def)

lemma parity_values: "c AND LRPC_DONE_PARITY = 0 \<or> c AND LRPC_DONE_PARITY = LRPC_DONE_PARITY"
proof (cases "bit c 63")
  case True
  then have "c AND LRPC_DONE_PARITY = LRPC_DONE_PARITY" by (intro bit_eqI) (auto simp: bit_simps)
  then show ?thesis by simp
next
  case False
  then have "c AND LRPC_DONE_PARITY = 0" by (intro bit_eqI) (auto simp: bit_simps)
  then show ?thesis by simp
qed

lemma parity_flip:
  assumes "n < 32"
  shows "lrpc_parity (w + 2 ^ n) (2 ^ n) \<noteq> lrpc_parity w (2 ^ n)"
proof -
  have "unat (w + 2 ^ n) = (unat w + 2 ^ n) mod (2 ^ n * 2 ^ (32 - n))"
    using assms unat_pow2 [of n, where 'a = 32]
    by (simp add: unat_word_ariths flip: power_add)
  then have "unat (w + 2 ^ n) div 2 ^ n = (unat w div 2 ^ n + 1) mod 2 ^ (32 - n)"
    by (simp add: mod_mult2_eq div_add_self2)
  moreover have "even ((2 :: nat) ^ (32 - n))" using assms by simp
  ultimately have "odd (unat (w + 2 ^ n) div 2 ^ n) \<longleftrightarrow> even (unat w div 2 ^ n)"
    by (metis dvd_mod_iff even_plus_one_iff)
  then show ?thesis
    by (auto simp: lrpc_parity_bit bit_word_nat)
qed

lemma parity_or:
  assumes "c AND LRPC_DONE_PARITY = 0"
  shows "(c OR lrpc_parity w siz) AND LRPC_DONE_PARITY = lrpc_parity w siz"
    "(c OR lrpc_parity w siz) AND LRPC_CMD_MASK = c"
proof -
  have "bit (c AND LRPC_DONE_PARITY) 63 = bit (0 :: u64) 63" using assms by (simp only:)
  then have c: "\<not> bit c 63" by (simp add: bit_and_iff)
  show "(c OR lrpc_parity w siz) AND LRPC_DONE_PARITY = lrpc_parity w siz"
    using c by (intro bit_eqI) (auto simp: bit_simps lrpc_parity_def)
  show "(c OR lrpc_parity w siz) AND LRPC_CMD_MASK = c"
    using c by (intro bit_eqI) (auto simp: bit_simps lrpc_parity_def LRPC_CMD_MASK_def)
qed

section \<open>The ring of messages\<close>

text \<open>
  \<open>lrpc_ok n h t r msgs\<close>: with \<open>2 ^ n\<close> slots, send head \<open>h\<close>, cached send tail \<open>t\<close> and receive
  head \<open>r\<close>, the receive head lies between the cached tail and the send head, at most \<open>2 ^ n\<close>
  behind it, and a slot carries the parity of its next counter exactly when its message is
  pending.  The messages pending are \<open>lrpc_pending\<close>, without their parity.
\<close>

definition lrpc_ok :: "nat \<Rightarrow> u32 \<Rightarrow> u32 \<Rightarrow> u32 \<Rightarrow> (nat \<Rightarrow> lrpc_msg) \<Rightarrow> bool" where
  "lrpc_ok n h t r msgs \<longleftrightarrow>
     n < 32 \<and> unat (h - t) \<le> 2 ^ n \<and> unat (h - r) \<le> unat (h - t) \<and>
     (\<forall>k < 2 ^ n. m_cmd (msgs (ring_idx n (r + of_nat k))) AND LRPC_DONE_PARITY =
          lrpc_parity (r + of_nat k) (2 ^ n) \<longleftrightarrow> k < unat (h - r))"

definition msg_val :: "lrpc_msg \<Rightarrow> u64 \<times> u64" where
  "msg_val m = (m_cmd m AND LRPC_CMD_MASK, m_payload m)"

definition lrpc_pending :: "nat \<Rightarrow> u32 \<Rightarrow> u32 \<Rightarrow> (nat \<Rightarrow> lrpc_msg) \<Rightarrow> (u64 \<times> u64) list" where
  "lrpc_pending n h r msgs = map msg_val (ring_list n msgs h r)"

lemma length_lrpc_pending [simp]: "length (lrpc_pending n h r msgs) = unat (h - r)"
  by (simp add: lrpc_pending_def)

lemma lrpc_slot_idx: "lrpc_slot w (2 ^ n) = ring_idx n w"
  by (simp add: lrpc_slot_def unat_and_mask_ring_idx)

lemma pow_lt_u32: "n < 32 \<Longrightarrow> (2 :: nat) ^ n \<le> 2147483648"
  using power_increasing [of n 31 "2 :: nat"] by simp

lemma lrpc_ok_put:
  assumes ok: "lrpc_ok n h t r msgs" and room: "unat (h - t) < 2 ^ n"
    and m: "m_cmd m AND LRPC_DONE_PARITY = lrpc_parity h (2 ^ n)"
  shows "lrpc_ok n (h + 1) t r (msgs(ring_idx n h := m))"
    "lrpc_pending n (h + 1) r (msgs(ring_idx n h := m)) = lrpc_pending n h r msgs @ [msg_val m]"
proof -
  have n: "n < 32" and hr: "unat (h - r) < 2 ^ n" "unat (h - r) \<le> unat (h - t)"
    using ok room by (auto simp: lrpc_ok_def)
  show "lrpc_pending n (h + 1) r (msgs(ring_idx n h := m)) = lrpc_pending n h r msgs @ [msg_val m]"
    by (simp add: lrpc_pending_def ring_list_push [OF n hr(1)])
  have S: "unat (h + 1 - r) = Suc (unat (h - r))" "unat (h + 1 - t) = Suc (unat (h - t))"
    using hr room pow_lt_u32 [OF n] by (auto intro!: unat_Suc_diff)
  have h: "h = r + of_nat (unat (h - r))" by simp
  have "(m_cmd ((msgs(ring_idx n h := m)) (ring_idx n (r + of_nat k))) AND LRPC_DONE_PARITY =
      lrpc_parity (r + of_nat k) (2 ^ n)) = (k < Suc (unat (h - r)))" if k: "k < 2 ^ n" for k
  proof (cases "k = unat (h - r)")
    case True
    then show ?thesis using m h by simp
  next
    case False
    then have "ring_idx n (r + of_nat k) \<noteq> ring_idx n h"
      using ring_idx_inj [of n r k "unat (h - r)"] h n k hr(1) by auto
    then show ?thesis using False ok k by (auto simp: lrpc_ok_def)
  qed
  then show "lrpc_ok n (h + 1) t r (msgs(ring_idx n h := m))"
    using n S hr room by (simp add: lrpc_ok_def)
qed

lemma lrpc_ok_poll:
  assumes "lrpc_ok n h t r msgs"
  shows "m_cmd (msgs (ring_idx n r)) AND LRPC_DONE_PARITY = lrpc_parity r (2 ^ n) \<longleftrightarrow> h \<noteq> r"
proof -
  have "m_cmd (msgs (ring_idx n (r + of_nat 0))) AND LRPC_DONE_PARITY = lrpc_parity (r + of_nat 0) (2 ^ n)
      \<longleftrightarrow> 0 < unat (h - r)"
    using assms unfolding lrpc_ok_def by (metis zero_less_numeral zero_less_power)
  then show ?thesis by (simp add: unat_gt_0)
qed

lemma lrpc_ok_take:
  assumes ok: "lrpc_ok n h t r msgs" and ne: "h \<noteq> r"
  shows "lrpc_ok n h t (r + 1) msgs"
    "lrpc_pending n h r msgs = msg_val (msgs (ring_idx n r)) # lrpc_pending n h (r + 1) msgs"
proof -
  have n: "n < 32" and hr: "unat (h - r) \<le> 2 ^ n" "unat (h - r) \<le> unat (h - t)"
    using ok by (auto simp: lrpc_ok_def)
  show "lrpc_pending n h r msgs = msg_val (msgs (ring_idx n r)) # lrpc_pending n h (r + 1) msgs"
    by (simp add: lrpc_pending_def ring_list_pop [OF ne])
  note S = unat_diff_Suc [OF ne]
  have "(m_cmd (msgs (ring_idx n (r + 1 + of_nat k))) AND LRPC_DONE_PARITY =
      lrpc_parity (r + 1 + of_nat k) (2 ^ n)) = (k < unat (h - (r + 1)))" if k: "k < 2 ^ n" for k
  proof (cases "Suc k < 2 ^ n")
    case True
    then have "(m_cmd (msgs (ring_idx n (r + of_nat (Suc k)))) AND LRPC_DONE_PARITY =
      lrpc_parity (r + of_nat (Suc k)) (2 ^ n)) = (Suc k < unat (h - r))"
      using ok unfolding lrpc_ok_def by blast
    then show ?thesis unfolding S by (simp add: add.assoc)
  next
    case False
    then have k: "Suc k = 2 ^ n" using k by simp
    have w: "r + 1 + of_nat k = r + of_nat (2 ^ n)" by (simp flip: k add: add.assoc)
    have "ring_idx n (r + of_nat (2 ^ n)) = ring_idx n r"
      using ring_idx_add [of n r "2 ^ n"] n by (simp add: ring_idx_def)
    moreover have "lrpc_parity (r + of_nat (2 ^ n)) (2 ^ n) \<noteq> lrpc_parity r (2 ^ n)"
      using parity_flip [OF n, of r] by simp
    moreover have "m_cmd (msgs (ring_idx n r)) AND LRPC_DONE_PARITY = lrpc_parity r (2 ^ n)"
      using lrpc_ok_poll [OF ok] ne by simp
    ultimately show ?thesis unfolding w using S hr k by auto
  qed
  then show "lrpc_ok n h t (r + 1) msgs"
    using ok hr S by (simp add: lrpc_ok_def)
qed

lemma lrpc_ok_refresh: "lrpc_ok n h t r msgs \<Longrightarrow> lrpc_ok n h r r msgs"
  by (auto simp: lrpc_ok_def)

lemma lrpc_ok_init:
  assumes "n < 32" "\<And>i. m_cmd (msgs i) = 0"
  shows "lrpc_ok n 0 0 0 msgs"
proof -
  have "\<not> bit (of_nat k :: u32) n" if "k < 2 ^ n" for k
  proof -
    have "k < 2 ^ 32" using that pow_lt_u32 [OF assms(1)] by simp
    then have "unat (of_nat k :: u32) = k" by (simp add: unat_of_nat)
    then show ?thesis using that by (simp add: bit_word_nat)
  qed
  then show ?thesis using assms by (simp add: lrpc_ok_def lrpc_parity_bit)
qed

section \<open>Sequential use of a channel\<close>

definition lrpc_wf :: "nat \<Rightarrow> lrpc_chan_out \<Rightarrow> lrpc_chan_in \<Rightarrow> lrpc_store \<Rightarrow> bool" where
  "lrpc_wf n co ci st \<longleftrightarrow>
     out_tbl co = in_tbl ci \<and> out_wb co = in_wb ci \<and> out_size co = 2 ^ n \<and> in_size ci = 2 ^ n \<and>
     wbs st (in_wb ci) = recv_head ci \<and>
     lrpc_ok n (send_head co) (send_tail co) (recv_head ci) (tbls st (in_tbl ci))"

definition lrpc_msgs :: "nat \<Rightarrow> lrpc_chan_out \<Rightarrow> lrpc_chan_in \<Rightarrow> lrpc_store \<Rightarrow> (u64 \<times> u64) list" where
  "lrpc_msgs n co ci st = lrpc_pending n (send_head co) (recv_head ci) (tbls st (in_tbl ci))"

text \<open>The state after a message has been stored at the send head.\<close>

definition lrpc_sent :: "lrpc_chan_out \<Rightarrow> lrpc_store \<Rightarrow> u64 \<Rightarrow> u64 \<Rightarrow> bool \<times> lrpc_chan_out \<times> lrpc_store" where
  "lrpc_sent co st cmd pay =
     (True, co\<lparr>send_head := send_head co + 1\<rparr>,
      put_msg st (out_tbl co) (lrpc_slot (send_head co) (out_size co))
        \<lparr>m_cmd = cmd OR lrpc_parity (send_head co) (out_size co), m_payload = pay\<rparr>)"

lemma lrpc_sent_wf:
  assumes wf: "lrpc_wf n co ci st" and cmd: "cmd AND LRPC_DONE_PARITY = 0"
    and room: "unat (send_head co - send_tail co) < 2 ^ n"
  shows "\<exists>co' st'. lrpc_sent co st cmd pay = (True, co', st') \<and> lrpc_wf n co' ci st' \<and>
     lrpc_msgs n co' ci st' = lrpc_msgs n co ci st @ [(cmd, pay)]"
proof -
  let ?m = "\<lparr>m_cmd = cmd OR lrpc_parity (send_head co) (2 ^ n), m_payload = pay\<rparr>"
  have ok: "lrpc_ok n (send_head co) (send_tail co) (recv_head ci) (tbls st (in_tbl ci))"
    using wf by (simp add: lrpc_wf_def)
  have m: "m_cmd ?m AND LRPC_DONE_PARITY = lrpc_parity (send_head co) (2 ^ n)"
    using parity_or [OF cmd] by simp
  note put = lrpc_ok_put [OF ok room m]
  have "msg_val ?m = (cmd, pay)" using parity_or [OF cmd] by (simp add: msg_val_def)
  then show ?thesis
    using wf put by (simp add: lrpc_sent_def lrpc_wf_def lrpc_msgs_def put_msg_def lrpc_slot_idx)
qed

lemma lrpc_send_eq:
  assumes wf: "lrpc_wf n co ci st" and cmd: "cmd AND LRPC_DONE_PARITY = 0"
  defines "co1 \<equiv> if unat (send_head co - send_tail co) < 2 ^ n then co else co\<lparr>send_tail := recv_head ci\<rparr>"
  shows "lrpc_send st co cmd pay =
     (if unat (send_head co - recv_head ci) < 2 ^ n then Inr (lrpc_sent co1 st cmd pay)
      else Inr (False, co1, st))" (is ?eq)
    and "lrpc_wf n co1 ci st" and "lrpc_msgs n co1 ci st = lrpc_msgs n co ci st"
    and "unat (send_head co - recv_head ci) < 2 ^ n \<Longrightarrow> unat (send_head co1 - send_tail co1) < 2 ^ n"
proof -
  have ok: "lrpc_ok n (send_head co) (send_tail co) (recv_head ci) (tbls st (in_tbl ci))"
    and wb: "wbs st (out_wb co) = recv_head ci" and siz: "out_size co = 2 ^ n"
    using wf by (auto simp: lrpc_wf_def)
  have n: "n < 32" and le: "unat (send_head co - send_tail co) \<le> 2 ^ n"
      "unat (send_head co - recv_head ci) \<le> unat (send_head co - send_tail co)"
    using ok by (auto simp: lrpc_ok_def)
  have u: "unat (2 ^ n :: u32) = 2 ^ n" using n by (intro unat_pow2) simp
  have lt: "2 ^ n \<le> d \<longleftrightarrow> \<not> unat d < 2 ^ n" for d :: u32 by (auto simp: word_le_nat_alt u)
  have eq: "d = 2 ^ n \<longleftrightarrow> unat d = 2 ^ n" for d :: u32 by (simp add: word_unat_eq_iff u)
  show ?eq using le
    by (auto simp: lrpc_send_def lrpc_send_slow_def lrpc_sent_def cmd siz wb lt eq co1_def Let_def)
  show "lrpc_wf n co1 ci st" "lrpc_msgs n co1 ci st = lrpc_msgs n co ci st"
    using wf lrpc_ok_refresh [OF ok] by (auto simp: co1_def lrpc_wf_def lrpc_msgs_def)
  show "unat (send_head co - recv_head ci) < 2 ^ n \<Longrightarrow> unat (send_head co1 - send_tail co1) < 2 ^ n"
    by (simp add: co1_def)
qed

lemma lrpc_send_room:
  assumes wf: "lrpc_wf n co ci st" and cmd: "cmd AND LRPC_DONE_PARITY = 0"
    and room: "length (lrpc_msgs n co ci st) < 2 ^ n"
  shows "\<exists>co' st'. lrpc_send st co cmd pay = Inr (True, co', st') \<and> lrpc_wf n co' ci st' \<and>
     lrpc_msgs n co' ci st' = lrpc_msgs n co ci st @ [(cmd, pay)]"
proof -
  have r: "unat (send_head co - recv_head ci) < 2 ^ n" using room by (simp add: lrpc_msgs_def)
  note eq = lrpc_send_eq [OF wf cmd]
  from lrpc_sent_wf [OF eq(2) cmd eq(4) [OF r], of pay] eq(1) [of pay] eq(3) r show ?thesis by simp
qed

lemma lrpc_send_full:
  assumes wf: "lrpc_wf n co ci st" and cmd: "cmd AND LRPC_DONE_PARITY = 0"
    and full: "length (lrpc_msgs n co ci st) = 2 ^ n"
  shows "\<exists>co'. lrpc_send st co cmd pay = Inr (False, co', st) \<and> lrpc_wf n co' ci st \<and>
     lrpc_msgs n co' ci st = lrpc_msgs n co ci st"
  using lrpc_send_eq [OF wf cmd] full by (simp add: lrpc_msgs_def)

lemma lrpc_recv_empty:
  assumes wf: "lrpc_wf n co ci st" and "lrpc_msgs n co ci st = []"
  shows "lrpc_recv st ci = (None, ci, st)" "lrpc_empty st ci"
proof -
  have ok: "lrpc_ok n (send_head co) (send_tail co) (recv_head ci) (tbls st (in_tbl ci))"
    using wf by (simp add: lrpc_wf_def)
  have "send_head co = recv_head ci" using assms(2) by (simp add: lrpc_msgs_def lrpc_pending_def)
  with lrpc_ok_poll [OF ok] wf show "lrpc_recv st ci = (None, ci, st)" "lrpc_empty st ci"
    by (auto simp: lrpc_recv_def lrpc_empty_def lrpc_wf_def lrpc_slot_idx Let_def)
qed

lemma lrpc_recv_msg:
  assumes wf: "lrpc_wf n co ci st" and m: "lrpc_msgs n co ci st = x # xs"
  shows "\<exists>ci' st'. lrpc_recv st ci = (Some x, ci', st') \<and> lrpc_wf n co ci' st' \<and>
     lrpc_msgs n co ci' st' = xs" and "\<not> lrpc_empty st ci"
proof -
  have ok: "lrpc_ok n (send_head co) (send_tail co) (recv_head ci) (tbls st (in_tbl ci))"
    using wf by (simp add: lrpc_wf_def)
  have ne: "send_head co \<noteq> recv_head ci" using m by (auto simp: lrpc_msgs_def lrpc_pending_def)
  note t = lrpc_ok_take [OF ok ne] and p = lrpc_ok_poll [OF ok]
  show "\<exists>ci' st'. lrpc_recv st ci = (Some x, ci', st') \<and> lrpc_wf n co ci' st' \<and> lrpc_msgs n co ci' st' = xs"
    using wf m t p ne
    by (auto simp: lrpc_recv_def lrpc_wf_def lrpc_msgs_def lrpc_slot_idx Let_def msg_val_def)
  show "\<not> lrpc_empty st ci" using wf p ne by (auto simp: lrpc_empty_def lrpc_wf_def lrpc_slot_idx Let_def)
qed

section \<open>A link between two channel sets\<close>

text \<open>
  A link is an egress channel of one context and the ingress channel of another that share their
  table and counter, as \<open>Worker::register_dpt\<close> sets them up.
\<close>

record lrpc_link =
  lk_src :: LrpcContext
  lk_out :: u32
  lk_dst :: LrpcContext
  lk_in :: u32
  lk_st :: lrpc_store
  lk_bits :: nat

abbreviation lk_chan_out :: "lrpc_link \<Rightarrow> lrpc_chan_out" where
  "lk_chan_out k \<equiv> egress (lk_src k) ! unat (lk_out k)"

abbreviation lk_chan_in :: "lrpc_link \<Rightarrow> lrpc_chan_in" where
  "lk_chan_in k \<equiv> ingress (lk_dst k) ! unat (lk_in k)"

definition lk_push :: "lrpc_link \<Rightarrow> u64 \<Rightarrow> lrpc_link result" where
  "lk_push k x =
     res_bind (push (lk_st k) (lk_src k) x (lk_out k)) (\<lambda>(r, ctx, st). Inr (k\<lparr>lk_src := ctx, lk_st := st\<rparr>))"

definition lk_pop :: "lrpc_link \<Rightarrow> (u64 option \<times> lrpc_link) result" where
  "lk_pop k =
     res_bind (pop (lk_st k) (lk_dst k) (lk_in k)) (\<lambda>(r, v, ctx, st). Inr (v, k\<lparr>lk_dst := ctx, lk_st := st\<rparr>))"

definition lk_msgs :: "lrpc_link \<Rightarrow> (u64 \<times> u64) list" where
  "lk_msgs k = lrpc_msgs (lk_bits k) (lk_chan_out k) (lk_chan_in k) (lk_st k)"

definition lk_contents :: "lrpc_link \<Rightarrow> u64 list" where
  "lk_contents k = map snd (lk_msgs k)"

definition lk_wf :: "lrpc_link \<Rightarrow> bool" where
  "lk_wf k \<longleftrightarrow> unat (lk_out k) < length (egress (lk_src k)) \<and> unat (lk_in k) < length (ingress (lk_dst k)) \<and>
     lrpc_wf (lk_bits k) (lk_chan_out k) (lk_chan_in k) (lk_st k)"

lemma LRPC_TX_valid: "LRPC_TX AND LRPC_DONE_PARITY = 0"
  by (simp add: LRPC_TX_def)

interpretation lk: bounded_fifo lk_push lk_pop lk_contents "\<lambda>k. 2 ^ lk_bits k" lk_wf
proof
  fix k x assume wf: "lk_wf k" and "length (lk_contents k) < 2 ^ lk_bits k"
  then have "length (lrpc_msgs (lk_bits k) (lk_chan_out k) (lk_chan_in k) (lk_st k)) < 2 ^ lk_bits k"
    by (simp add: lk_contents_def lk_msgs_def)
  from lrpc_send_room [OF _ LRPC_TX_valid this, of x] wf
  show "\<exists>k'. lk_push k x = Inr k' \<and> lk_contents k' = lk_contents k @ [x] \<and>
      2 ^ lk_bits k' = (2 :: nat) ^ lk_bits k \<and> lk_wf k'"
    by (auto simp: lk_wf_def lk_push_def push_def lk_contents_def lk_msgs_def Let_def)
next
  fix k x assume wf: "lk_wf k" and "length (lk_contents k) = 2 ^ lk_bits k"
  then have "length (lrpc_msgs (lk_bits k) (lk_chan_out k) (lk_chan_in k) (lk_st k)) = 2 ^ lk_bits k"
    by (simp add: lk_contents_def lk_msgs_def)
  from lrpc_send_full [OF _ LRPC_TX_valid this, of x] wf
  show "\<exists>k'. lk_push k x = Inr k' \<and> lk_contents k' = lk_contents k \<and>
      2 ^ lk_bits k' = (2 :: nat) ^ lk_bits k \<and> lk_wf k'"
    by (auto simp: lk_wf_def lk_push_def push_def lk_contents_def lk_msgs_def Let_def)
next
  fix k assume "lk_wf k" "lk_contents k = []"
  with lrpc_recv_empty(1) [of "lk_bits k" "lk_chan_out k" "lk_chan_in k" "lk_st k"]
  show "lk_pop k = Inr (None, k)"
    by (simp add: lk_wf_def lk_pop_def pop_def lk_contents_def lk_msgs_def)
next
  fix k x xs assume "lk_wf k" "lk_contents k = x # xs"
  with lrpc_recv_msg(1) [of "lk_bits k" "lk_chan_out k" "lk_chan_in k" "lk_st k"]
  show "\<exists>k'. lk_pop k = Inr (Some x, k') \<and> lk_contents k' = xs \<and>
      2 ^ lk_bits k' = (2 :: nat) ^ lk_bits k \<and> lk_wf k'"
    by (fastforce simp: lk_wf_def lk_pop_def pop_def lk_contents_def lk_msgs_def)
next
  fix k assume "lk_wf k"
  then show "length (lk_contents k) \<le> 2 ^ lk_bits k"
    by (auto simp: lk_wf_def lrpc_wf_def lrpc_ok_def lk_contents_def lk_msgs_def lrpc_msgs_def)
qed

section \<open>Properties\<close>

text \<open>
  C6: A link between two workers is a FIFO queue of \<open>2 ^ n\<close> payloads: for every sequence of
  \<open>push\<close> and \<open>pop\<close> calls on it, no assertion fails, the pops return what a bounded list returns,
  pushes on a full link are refused without effect, and the parity protocol stays consistent,
  however often the 32-bit counters have wrapped around.
\<close>

theorem lrpc_link_refines_fifo:
  assumes "lk_wf k"
  shows "\<exists>k'. impl_run lk_push lk_pop k ops = Inr (fst (spec_run (2 ^ lk_bits k) (lk_contents k) ops), k') \<and>
     lk_contents k' = snd (spec_run (2 ^ lk_bits k) (lk_contents k) ops) \<and> lk_wf k'"
  using lk.run_refines [OF assms, of ops] by auto

text \<open>A link of two slots whose counters stand just before the wrap-around.\<close>

definition ex_link :: lrpc_link where
  "ex_link = \<lparr>lk_src = lrpc_context_new\<lparr>egress := [\<lparr>out_tbl = 64, out_wb = 8, send_head = 0xffffffff,
       send_tail = 0xffffffff, out_size = 2\<rparr>]\<rparr>, lk_out = 0,
     lk_dst = lrpc_context_new\<lparr>ingress := [\<lparr>in_tbl = 64, in_wb = 8, recv_head = 0xffffffff, in_size = 2\<rparr>]\<rparr>,
     lk_in = 0,
     lk_st = \<lparr>tbls = (\<lambda>_ i. \<lparr>m_cmd = (if i = 1 then LRPC_DONE_PARITY else 0), m_payload = 0\<rparr>), wbs = (\<lambda>_. 0xffffffff)\<rparr>,
     lk_bits = 1\<rparr>"

lemma ex_link_wf: "lk_wf ex_link" "lk_contents ex_link = []"
proof -
  have "lrpc_ok 1 0xffffffff 0xffffffff 0xffffffff
     (\<lambda>i. \<lparr>m_cmd = (if i = 1 then LRPC_DONE_PARITY else 0), m_payload = 0\<rparr>)"
  proof -
    have all: "(\<forall>k < 2 ^ 1. P k) \<longleftrightarrow> P 0 \<and> P 1" for P :: "nat \<Rightarrow> bool"
      by (auto simp: numeral_2_eq_2 All_less_Suc)
    show ?thesis unfolding lrpc_ok_def all by (simp add: ring_idx_def lrpc_parity_def)
  qed
  then show "lk_wf ex_link" by (simp add: lk_wf_def ex_link_def lrpc_wf_def)
  show "lk_contents ex_link = []"
    by (simp add: lk_contents_def lk_msgs_def ex_link_def lrpc_msgs_def lrpc_pending_def)
qed

theorem lrpc_link_refines_fifo_witness:
  "\<exists>k'. impl_run lk_push lk_pop ex_link [Enq 5, Enq 6, Enq 7, Deq, Enq 8, Deq, Deq, Deq] =
     Inr ([Some 5, Some 6, Some 8, None], k')"
proof -
  let ?ops = "[Enq 5, Enq 6, Enq 7, Deq, Enq 8, Deq, Deq, Deq]"
  have "lk_bits ex_link = 1" by (simp add: ex_link_def)
  then have "spec_run (2 ^ lk_bits ex_link) (lk_contents ex_link) ?ops = ([Some 5, Some 6, Some 8, None], [])"
    by (simp add: ex_link_wf(2))
  with lrpc_link_refines_fifo [OF ex_link_wf(1), of ?ops] show ?thesis by (simp only: fst_conv) blast
qed

text \<open>
  Setting up a channel: with the table and counter of \<open>generate_lrpc_buffer\<close> and a size that
  is a power of two, both initialisers return 0 and the channel is consistent and empty; any other
  size gives \<open>-EINVAL\<close> and leaves the channel structures alone.
\<close>

theorem lrpc_init_establishes:
  assumes "generate_lrpc_buffer st0 bufp wbp = Inr ((tbl, wb), st)"
  shows "if is_power_of_two siz
     then \<exists>n co ci. siz = 2 ^ n \<and> lrpc_init_out co0 tbl siz wb = (0, co) \<and> lrpc_init_in ci0 tbl siz wb = (0, ci) \<and>
       lrpc_wf n co ci st \<and> lrpc_msgs n co ci st = [] \<and> lrpc_empty st ci
     else lrpc_init_out co0 tbl siz wb = (- EINVAL, co0) \<and> lrpc_init_in ci0 tbl siz wb = (- EINVAL, ci0)"
proof (cases "is_power_of_two siz")
  case True
  then obtain n where n: "n < 32" "siz = 2 ^ n" by (auto elim: is_power_of_twoE)
  let ?co = "\<lparr>out_tbl = tbl, out_wb = wb, send_head = 0, send_tail = 0, out_size = siz\<rparr>"
  let ?ci = "\<lparr>in_tbl = tbl, in_wb = wb, recv_head = 0, in_size = siz\<rparr>"
  have st: "\<And>i. m_cmd (tbls st tbl i) = 0" "wbs st wb = 0"
    using assms by (auto simp: generate_lrpc_buffer_def split: if_splits)
  have wf: "lrpc_wf n ?co ?ci st" using n st lrpc_ok_init [OF n(1), of "tbls st tbl"] by (simp add: lrpc_wf_def)
  moreover have m: "lrpc_msgs n ?co ?ci st = []" by (simp add: lrpc_msgs_def lrpc_pending_def)
  moreover have "lrpc_empty st ?ci" using lrpc_recv_empty(2) [OF wf m] .
  ultimately show ?thesis
    using True n by (auto simp: lrpc_init_out_def lrpc_init_in_def)
qed (simp add: lrpc_init_out_def lrpc_init_in_def)

theorem lrpc_init_establishes_witness:
  "\<exists>st. generate_lrpc_buffer (lk_st ex_link) 4096 64 = Inr ((4096, 64), st) \<and>
     (\<exists>n co ci. LRPC_Q_LEN = 2 ^ n \<and> lrpc_init_out (egress (lk_src ex_link) ! 0) 4096 LRPC_Q_LEN 64 = (0, co) \<and>
        lrpc_init_in (ingress (lk_dst ex_link) ! 0) 4096 LRPC_Q_LEN 64 = (0, ci) \<and> lrpc_empty st ci)"
proof -
  obtain st where g: "generate_lrpc_buffer (lk_st ex_link) 4096 64 = Inr ((4096, 64), st)"
    by (simp add: generate_lrpc_buffer_def)
  have "is_power_of_two LRPC_Q_LEN" by (simp add: is_power_of_two_def LRPC_Q_LEN_def)
  with lrpc_init_establishes [OF g, of LRPC_Q_LEN "egress (lk_src ex_link) ! 0" "ingress (lk_dst ex_link) ! 0"] g
  show ?thesis by auto
qed

text \<open>
  The cached view of the sender is safe: the cached length and the cached window always add up
  to the size, the cached length is never below the number of pending messages, and after
  \<open>lrpc_poll_send_tail\<close> it is exactly that number.
\<close>

theorem lrpc_cached_window_safe:
  assumes "lrpc_wf n co ci st"
  shows "unat (lrpc_get_cached_length co) + unat (lrpc_get_cached_send_window co) = 2 ^ n \<and>
     length (lrpc_msgs n co ci st) \<le> unat (lrpc_get_cached_length co) \<and>
     unat (lrpc_get_cached_length (snd (lrpc_poll_send_tail st co))) = length (lrpc_msgs n co ci st)"
proof -
  have n: "n < 32" and le: "unat (send_head co - send_tail co) \<le> 2 ^ n"
      "unat (send_head co - recv_head ci) \<le> unat (send_head co - send_tail co)"
    and siz: "out_size co = 2 ^ n" and wb: "wbs st (out_wb co) = recv_head ci"
    using assms by (auto simp: lrpc_wf_def lrpc_ok_def)
  have u: "unat (2 ^ n :: u32) = 2 ^ n" using n by (simp add: unat_pow2)
  have "out_size co - send_head co + send_tail co = 2 ^ n - (send_head co - send_tail co)"
    by (simp add: siz)
  moreover have "send_head co - send_tail co \<le> 2 ^ n" using le u by (simp add: word_le_nat_alt)
  ultimately have "unat (lrpc_get_cached_send_window co) = 2 ^ n - unat (send_head co - send_tail co)"
    using u by (simp only: lrpc_get_cached_send_window_def unat_sub)
  then show ?thesis
    using le wb by (simp add: lrpc_get_cached_length_def lrpc_poll_send_tail_def lrpc_msgs_def Let_def)
qed

theorem lrpc_cached_window_safe_witness:
  "unat (lrpc_get_cached_length (lk_chan_out ex_link)) + unat (lrpc_get_cached_send_window (lk_chan_out ex_link)) = 2"
proof -
  have "lrpc_wf 1 (lk_chan_out ex_link) (lk_chan_in ex_link) (lk_st ex_link)"
    using ex_link_wf(1) by (simp add: lk_wf_def) (simp add: ex_link_def)
  from lrpc_cached_window_safe [OF this] show ?thesis by simp
qed

end
