(* ===== verification/Lrpc_Concurrent.thy ===== *)
theory Lrpc_Concurrent
  imports Lrpc
begin

text \<open>
  An LRPC channel used by two threads at once.  Every access of \<open>lrpc_send\<close>, its slow path and
  \<open>lrpc_recv\<close> to the shared memory is one step: the sender stores the payload, then the command
  with its parity, and loads the write-back counter when its cached window is used up; the
  receiver loads the command, then the payload, then stores the write-back counter.  The release
  stores and acquire loads make the memory sequentially consistent for these accesses.  The
  counters \<open>send_head\<close>, \<open>send_tail\<close> and \<open>recv_head\<close> are private to one side, so their increments
  are part of the last step of the call.  \<open>sent\<close> and \<open>delivered\<close> record the completed calls.
\<close>

section \<open>Steps\<close>

datatype sender_pc = SIdle | SLoad u64 u64 | SPay u64 u64 | SCmd u64 u64

datatype receiver_pc = RIdle | RPay u64 | RWb u64 u64

record lrpc_sys =
  sys_out :: lrpc_chan_out
  sys_in :: lrpc_chan_in
  sys_st :: lrpc_store
  spc :: sender_pc
  rpc :: receiver_pc
  sent :: "(u64 \<times> u64) list"
  delivered :: "(u64 \<times> u64) list"

abbreviation out_slot :: "lrpc_sys \<Rightarrow> nat" where
  "out_slot s \<equiv> lrpc_slot (send_head (sys_out s)) (out_size (sys_out s))"

abbreviation in_slot :: "lrpc_sys \<Rightarrow> nat" where
  "in_slot s \<equiv> lrpc_slot (recv_head (sys_in s)) (in_size (sys_in s))"

abbreviation out_msg :: "lrpc_sys \<Rightarrow> lrpc_msg" where
  "out_msg s \<equiv> tbls (sys_st s) (out_tbl (sys_out s)) (out_slot s)"

abbreviation in_msg :: "lrpc_sys \<Rightarrow> lrpc_msg" where
  "in_msg s \<equiv> tbls (sys_st s) (in_tbl (sys_in s)) (in_slot s)"

inductive lrpc_step :: "lrpc_sys \<Rightarrow> lrpc_sys \<Rightarrow> bool" where
  send_begin:
    "spc s = SIdle \<Longrightarrow> c AND LRPC_DONE_PARITY = 0 \<Longrightarrow>
     lrpc_step s (s\<lparr>spc := if out_size (sys_out s) \<le> send_head (sys_out s) - send_tail (sys_out s)
                         then SLoad c p else SPay c p\<rparr>)"
| send_load:
    "spc s = SLoad c p \<Longrightarrow> co = (sys_out s)\<lparr>send_tail := wbs (sys_st s) (out_wb (sys_out s))\<rparr> \<Longrightarrow>
     lrpc_step s (s\<lparr>sys_out := co,
       spc := if send_head co - send_tail co = out_size co then SIdle else SPay c p\<rparr>)"
| send_pay:
    "spc s = SPay c p \<Longrightarrow>
     lrpc_step s (s\<lparr>sys_st := put_msg (sys_st s) (out_tbl (sys_out s)) (out_slot s) ((out_msg s)\<lparr>m_payload := p\<rparr>),
       spc := SCmd c p\<rparr>)"
| send_cmd:
    "spc s = SCmd c p \<Longrightarrow>
     lrpc_step s (s\<lparr>sys_st := put_msg (sys_st s) (out_tbl (sys_out s)) (out_slot s)
         ((out_msg s)\<lparr>m_cmd := c OR lrpc_parity (send_head (sys_out s)) (out_size (sys_out s))\<rparr>),
       sys_out := (sys_out s)\<lparr>send_head := send_head (sys_out s) + 1\<rparr>,
       spc := SIdle, sent := sent s @ [(c, p)]\<rparr>)"
| recv_poll:
    "rpc s = RIdle \<Longrightarrow>
     lrpc_step s (s\<lparr>rpc := if m_cmd (in_msg s) AND LRPC_DONE_PARITY \<noteq>
         lrpc_parity (recv_head (sys_in s)) (in_size (sys_in s)) then RIdle else RPay (m_cmd (in_msg s))\<rparr>)"
| recv_pay:
    "rpc s = RPay c \<Longrightarrow> lrpc_step s (s\<lparr>rpc := RWb c (m_payload (in_msg s))\<rparr>)"
| recv_wb:
    "rpc s = RWb c p \<Longrightarrow> r = recv_head (sys_in s) + 1 \<Longrightarrow>
     lrpc_step s (s\<lparr>sys_in := (sys_in s)\<lparr>recv_head := r\<rparr>,
       sys_st := (sys_st s)\<lparr>wbs := (wbs (sys_st s))(in_wb (sys_in s) := r)\<rparr>,
       rpc := RIdle, delivered := delivered s @ [(c AND LRPC_CMD_MASK, p)]\<rparr>)"

section \<open>Invariant\<close>

text \<open>A channel set up on a zeroed table, both sides idle.\<close>

definition lrpc_start :: "nat \<Rightarrow> lrpc_sys \<Rightarrow> bool" where
  "lrpc_start n s \<longleftrightarrow>
     n < 32 \<and> out_tbl (sys_out s) = in_tbl (sys_in s) \<and> out_wb (sys_out s) = in_wb (sys_in s) \<and>
     out_size (sys_out s) = 2 ^ n \<and> in_size (sys_in s) = 2 ^ n \<and>
     send_head (sys_out s) = 0 \<and> send_tail (sys_out s) = 0 \<and> recv_head (sys_in s) = 0 \<and>
     wbs (sys_st s) (in_wb (sys_in s)) = 0 \<and> (\<forall>i. m_cmd (tbls (sys_st s) (in_tbl (sys_in s)) i) = 0) \<and>
     spc s = SIdle \<and> rpc s = RIdle \<and> sent s = [] \<and> delivered s = []"

text \<open>
  The invariant, over the counters and the table.  A sender that decided to store owns the slot
  at the send head; a receiver that saw the parity reads a message that stays in place until the
  counter is written back.
\<close>

fun sender_ok :: "nat \<Rightarrow> u32 \<Rightarrow> u32 \<Rightarrow> (nat \<Rightarrow> lrpc_msg) \<Rightarrow> sender_pc \<Rightarrow> bool" where
  "sender_ok n h t msgs SIdle \<longleftrightarrow> True"
| "sender_ok n h t msgs (SLoad c p) \<longleftrightarrow> c AND LRPC_DONE_PARITY = 0 \<and> unat (h - t) = 2 ^ n"
| "sender_ok n h t msgs (SPay c p) \<longleftrightarrow> c AND LRPC_DONE_PARITY = 0 \<and> unat (h - t) < 2 ^ n"
| "sender_ok n h t msgs (SCmd c p) \<longleftrightarrow> c AND LRPC_DONE_PARITY = 0 \<and> unat (h - t) < 2 ^ n \<and>
     m_payload (msgs (ring_idx n h)) = p"

fun receiver_ok :: "u32 \<Rightarrow> u32 \<Rightarrow> lrpc_msg \<Rightarrow> receiver_pc \<Rightarrow> bool" where
  "receiver_ok h r m RIdle \<longleftrightarrow> True"
| "receiver_ok h r m (RPay c) \<longleftrightarrow> h \<noteq> r \<and> c = m_cmd m"
| "receiver_ok h r m (RWb c p) \<longleftrightarrow> h \<noteq> r \<and> c = m_cmd m \<and> p = m_payload m"

definition lrpc_core ::
  "nat \<Rightarrow> u32 \<Rightarrow> u32 \<Rightarrow> u32 \<Rightarrow> (nat \<Rightarrow> lrpc_msg) \<Rightarrow> sender_pc \<Rightarrow> receiver_pc \<Rightarrow>
   (u64 \<times> u64) list \<Rightarrow> (u64 \<times> u64) list \<Rightarrow> bool" where
  "lrpc_core n h t r msgs sp rp snt del \<longleftrightarrow>
     lrpc_ok n h t r msgs \<and> sender_ok n h t msgs sp \<and> receiver_ok h r (msgs (ring_idx n r)) rp \<and>
     snt = del @ lrpc_pending n h r msgs"

definition lrpc_shape :: "nat \<Rightarrow> lrpc_sys \<Rightarrow> bool" where
  "lrpc_shape n s \<longleftrightarrow>
     out_tbl (sys_out s) = in_tbl (sys_in s) \<and> out_wb (sys_out s) = in_wb (sys_in s) \<and>
     out_size (sys_out s) = 2 ^ n \<and> in_size (sys_in s) = 2 ^ n \<and>
     wbs (sys_st s) (in_wb (sys_in s)) = recv_head (sys_in s)"

definition lrpc_inv :: "nat \<Rightarrow> lrpc_sys \<Rightarrow> bool" where
  "lrpc_inv n s \<longleftrightarrow> lrpc_shape n s \<and>
     lrpc_core n (send_head (sys_out s)) (send_tail (sys_out s)) (recv_head (sys_in s))
       (tbls (sys_st s) (in_tbl (sys_in s))) (spc s) (rpc s) (sent s) (delivered s)"

lemma lrpc_inv_start: "lrpc_start n s \<Longrightarrow> lrpc_inv n s"
  by (auto simp: lrpc_start_def lrpc_inv_def lrpc_shape_def lrpc_core_def lrpc_pending_def intro: lrpc_ok_init)

lemma receiver_ok_mono:
  "receiver_ok h r m pc \<Longrightarrow> (h \<noteq> r \<Longrightarrow> h' \<noteq> r \<and> m' = m) \<Longrightarrow> receiver_ok h' r m' pc"
  by (cases pc) auto

lemma lrpc_slots_differ:
  assumes "n < 32" "unat (h - r) < 2 ^ n" "h \<noteq> r"
  shows "ring_idx n h \<noteq> ring_idx n r"
proof
  assume eq: "ring_idx n h = ring_idx n r"
  have h: "r + of_nat (unat (h - r)) = h" and r: "r + of_nat 0 = r" by simp_all
  have n: "n \<le> 32" using assms(1) by simp
  have "unat (h - r) = 0"
    by (rule ring_idx_inj [OF n, of r]) (simp_all only: h r eq, use assms in simp_all)
  then show False using assms(3) by (simp add: unat_eq_zero)
qed

text \<open>A payload stored in the slot at the send head disturbs no pending message.\<close>

lemma lrpc_ok_store_payload:
  assumes ok: "lrpc_ok n h t r msgs" and room: "unat (h - t) < 2 ^ n"
  shows "lrpc_ok n h t r (msgs(ring_idx n h := (msgs (ring_idx n h))\<lparr>m_payload := p\<rparr>))"
    "lrpc_pending n h r (msgs(ring_idx n h := (msgs (ring_idx n h))\<lparr>m_payload := p\<rparr>)) = lrpc_pending n h r msgs"
proof -
  have same: "m_cmd ((msgs(ring_idx n h := (msgs (ring_idx n h))\<lparr>m_payload := p\<rparr>)) j) = m_cmd (msgs j)" for j
    by simp
  show "lrpc_ok n h t r (msgs(ring_idx n h := (msgs (ring_idx n h))\<lparr>m_payload := p\<rparr>))"
    using ok unfolding lrpc_ok_def same .
  have n: "n < 32" and hr: "unat (h - r) < 2 ^ n" using ok room by (auto simp: lrpc_ok_def)
  have "ring_list n (msgs(ring_idx n h := x)) h r = ring_list n msgs h r" for x
    using ring_list_push [OF n hr, of msgs x] ring_list_push [OF n hr, of "msgs(ring_idx n h := x)" x]
    by (metis append_same_eq fun_upd_upd)
  then show "lrpc_pending n h r (msgs(ring_idx n h := (msgs (ring_idx n h))\<lparr>m_payload := p\<rparr>)) = lrpc_pending n h r msgs"
    by (simp add: lrpc_pending_def)
qed

lemma core_begin:
  assumes "lrpc_core n h t r msgs SIdle rp snt del" "c AND LRPC_DONE_PARITY = 0"
  shows "lrpc_core n h t r msgs (if (2 ^ n) \<le> h - t then SLoad c p else SPay c p) rp snt del"
proof -
  have n: "n < 32" and le: "unat (h - t) \<le> 2 ^ n" using assms(1) by (auto simp: lrpc_core_def lrpc_ok_def)
  have "2 ^ n \<le> h - t \<longleftrightarrow> \<not> unat (h - t) < 2 ^ n" using n by (auto simp: word_le_nat_alt unat_pow2)
  then show ?thesis using assms le by (auto simp: lrpc_core_def)
qed

lemma core_load:
  assumes "lrpc_core n h t r msgs (SLoad c p) rp snt del"
  shows "lrpc_core n h r r msgs (if h - r = 2 ^ n then SIdle else SPay c p) rp snt del"
proof -
  have ok: "lrpc_ok n h r r msgs" using assms by (auto simp: lrpc_core_def intro: lrpc_ok_refresh)
  then have n: "n < 32" and "unat (h - r) \<le> 2 ^ n" by (auto simp: lrpc_ok_def)
  moreover have "h - r = 2 ^ n \<longleftrightarrow> unat (h - r) = 2 ^ n" using n by (simp add: word_unat_eq_iff unat_pow2)
  ultimately show ?thesis using assms ok by (auto simp: lrpc_core_def)
qed

lemma core_pay:
  assumes "lrpc_core n h t r msgs (SPay c p) rp snt del"
  shows "lrpc_core n h t r (msgs(ring_idx n h := (msgs (ring_idx n h))\<lparr>m_payload := p\<rparr>)) (SCmd c p) rp snt del"
proof -
  have ok: "lrpc_ok n h t r msgs" and room: "unat (h - t) < 2 ^ n" and
    rok: "receiver_ok h r (msgs (ring_idx n r)) rp"
    using assms by (auto simp: lrpc_core_def)
  have "h \<noteq> r \<Longrightarrow> ring_idx n h \<noteq> ring_idx n r"
    using ok room by (intro lrpc_slots_differ) (auto simp: lrpc_ok_def)
  then have "receiver_ok h r ((msgs(ring_idx n h := (msgs (ring_idx n h))\<lparr>m_payload := p\<rparr>)) (ring_idx n r)) rp"
    by (intro receiver_ok_mono [OF rok]) auto
  then show ?thesis
    using assms lrpc_ok_store_payload [OF ok room, of p] by (simp add: lrpc_core_def)
qed

lemma core_cmd:
  assumes "lrpc_core n h t r msgs (SCmd c p) rp snt del"
  shows "lrpc_core n (h + 1) t r
     (msgs(ring_idx n h := (msgs (ring_idx n h))\<lparr>m_cmd := c OR lrpc_parity h (2 ^ n)\<rparr>)) SIdle rp (snt @ [(c, p)]) del"
proof -
  let ?m = "(msgs (ring_idx n h))\<lparr>m_cmd := c OR lrpc_parity h (2 ^ n)\<rparr>"
  have ok: "lrpc_ok n h t r msgs" and room: "unat (h - t) < 2 ^ n" and c: "c AND LRPC_DONE_PARITY = 0"
    and rok: "receiver_ok h r (msgs (ring_idx n r)) rp" and p: "m_payload (msgs (ring_idx n h)) = p"
    using assms by (auto simp: lrpc_core_def)
  have m: "m_cmd ?m AND LRPC_DONE_PARITY = lrpc_parity h (2 ^ n)" "msg_val ?m = (c, p)"
    using parity_or [OF c] p by (simp_all add: msg_val_def)
  have hr: "unat (h - r) < 2 ^ n" "n < 32" using ok room by (auto simp: lrpc_ok_def)
  then have "unat (h + 1 - r) = Suc (unat (h - r))"
    using pow_lt_u32 [of n] by (intro unat_Suc_diff) simp
  then have "h + 1 \<noteq> r" by auto
  moreover have "h \<noteq> r \<Longrightarrow> ring_idx n h \<noteq> ring_idx n r" using hr by (intro lrpc_slots_differ)
  ultimately have "receiver_ok (h + 1) r ((msgs(ring_idx n h := ?m)) (ring_idx n r)) rp"
    by (intro receiver_ok_mono [OF rok]) auto
  then show ?thesis
    using assms lrpc_ok_put [OF ok room m(1)] m(2) by (simp add: lrpc_core_def)
qed

lemma core_poll:
  assumes "lrpc_core n h t r msgs sp RIdle snt del"
  shows "lrpc_core n h t r msgs sp
     (if m_cmd (msgs (ring_idx n r)) AND LRPC_DONE_PARITY \<noteq> lrpc_parity r (2 ^ n) then RIdle
      else RPay (m_cmd (msgs (ring_idx n r)))) snt del"
  using assms lrpc_ok_poll [of n h t r msgs] by (auto simp: lrpc_core_def)

lemma core_read:
  "lrpc_core n h t r msgs sp (RPay c) snt del \<Longrightarrow>
   lrpc_core n h t r msgs sp (RWb c (m_payload (msgs (ring_idx n r)))) snt del"
  by (simp add: lrpc_core_def)

lemma core_wb:
  assumes "lrpc_core n h t r msgs sp (RWb c p) snt del"
  shows "lrpc_core n h t (r + 1) msgs sp RIdle snt (del @ [(c AND LRPC_CMD_MASK, p)])"
proof -
  have ok: "lrpc_ok n h t r msgs" and ne: "h \<noteq> r" using assms by (auto simp: lrpc_core_def)
  show ?thesis using assms lrpc_ok_take [OF ok ne] by (simp add: lrpc_core_def msg_val_def)
qed

lemmas core_steps = core_begin core_load core_pay core_cmd core_poll core_read core_wb

lemma lrpc_inv_step: "lrpc_step s s' \<Longrightarrow> lrpc_inv n s \<Longrightarrow> lrpc_inv n s'"
proof (induction rule: lrpc_step.induct)
  case (send_begin s c p)
  then show ?case using core_begin [of n _ _ _ _ _ _ _ c p] by (simp add: lrpc_inv_def lrpc_shape_def)
qed (auto simp: lrpc_inv_def lrpc_shape_def put_msg_def lrpc_slot_idx dest: core_steps)

lemma lrpc_inv_reachable:
  assumes "lrpc_start n s0" "lrpc_step\<^sup>*\<^sup>* s0 s"
  shows "lrpc_inv n s"
  using assms(2) by (induction rule: rtranclp_induct) (auto intro: lrpc_inv_start [OF assms(1)] lrpc_inv_step)

section \<open>Progress of the receiver\<close>

text \<open>From every reachable state with a pending message the receiver's own steps deliver it.\<close>

definition recv_done :: "lrpc_sys \<Rightarrow> lrpc_sys \<Rightarrow> bool" where
  "recv_done s s' \<longleftrightarrow> (\<exists>m. delivered s' = delivered s @ [m]) \<and> sent s' = sent s \<and> spc s' = spc s"

lemma deliver_from_wb: "rpc s = RWb c p \<Longrightarrow> \<exists>s'. lrpc_step s s' \<and> recv_done s s'"
  by (rule exI, rule conjI, erule recv_wb [OF _ refl]) (simp add: recv_done_def)

lemma deliver_from_pay:
  assumes "rpc s = RPay c"
  shows "\<exists>s'. lrpc_step\<^sup>*\<^sup>* s s' \<and> recv_done s s'"
proof -
  let ?s1 = "s\<lparr>rpc := RWb c (m_payload (in_msg s))\<rparr>"
  from deliver_from_wb [of ?s1] obtain s' where "lrpc_step ?s1 s'" "recv_done ?s1 s'" by auto
  moreover have "lrpc_step s ?s1" using assms by (rule recv_pay)
  moreover have "recv_done s s'" using calculation(2) by (simp add: recv_done_def)
  ultimately show ?thesis by (meson converse_rtranclp_into_rtranclp r_into_rtranclp)
qed

lemma deliver_pending:
  assumes "lrpc_inv n s" "sent s \<noteq> delivered s"
  shows "\<exists>s'. lrpc_step\<^sup>*\<^sup>* s s' \<and> recv_done s s'"
proof (cases "rpc s")
  case RIdle
  let ?s1 = "s\<lparr>rpc := RPay (m_cmd (in_msg s))\<rparr>"
  let ?h = "send_head (sys_out s)" and ?r = "recv_head (sys_in s)"
  have inv: "lrpc_ok n ?h (send_tail (sys_out s)) ?r (tbls (sys_st s) (in_tbl (sys_in s)))"
      "sent s = delivered s @ lrpc_pending n ?h ?r (tbls (sys_st s) (in_tbl (sys_in s)))"
    using assms(1) by (auto simp: lrpc_inv_def lrpc_core_def)
  then have "?h \<noteq> ?r" using assms(2) by (auto simp: lrpc_pending_def)
  then have "m_cmd (in_msg s) AND LRPC_DONE_PARITY = lrpc_parity ?r (in_size (sys_in s))"
    using lrpc_ok_poll [OF inv(1)] assms(1) by (simp add: lrpc_inv_def lrpc_shape_def lrpc_slot_idx)
  then have "lrpc_step s ?s1" using recv_poll [OF RIdle] by simp
  moreover from deliver_from_pay [of ?s1] obtain s' where "lrpc_step\<^sup>*\<^sup>* ?s1 s'" "recv_done ?s1 s'" by auto
  moreover have "recv_done s s'" using calculation(3) by (simp add: recv_done_def)
  ultimately show ?thesis by (meson converse_rtranclp_into_rtranclp)
next
  case (RPay c)
  then show ?thesis by (rule deliver_from_pay)
next
  case (RWb c p)
  with deliver_from_wb show ?thesis by (meson r_into_rtranclp)
qed

section \<open>Properties\<close>

text \<open>
  C7: Under every interleaving of the two threads, also across the wrap-around of the 32-bit
  counters, the receiver gets exactly the messages sent, whole and in order: what was delivered is
  a prefix of what was sent, at most \<open>2 ^ n\<close> messages are in between, the assertion of the slow
  path holds whenever it is reached, and a pending message can always be delivered next while the
  sender stays where it is.
\<close>

theorem lrpc_interleaving_fifo:
  assumes "lrpc_start n s0" "lrpc_step\<^sup>*\<^sup>* s0 s"
  shows "(\<exists>pending. sent s = delivered s @ pending \<and> length pending \<le> 2 ^ n) \<and>
     (\<forall>c p. spc s = SLoad c p \<longrightarrow> send_head (sys_out s) - send_tail (sys_out s) = out_size (sys_out s)) \<and>
     (sent s \<noteq> delivered s \<longrightarrow> (\<exists>s'. lrpc_step\<^sup>*\<^sup>* s s' \<and> recv_done s s'))"
proof (intro conjI allI impI)
  have inv: "lrpc_inv n s" using assms by (rule lrpc_inv_reachable)
  then have core: "lrpc_core n (send_head (sys_out s)) (send_tail (sys_out s)) (recv_head (sys_in s))
       (tbls (sys_st s) (in_tbl (sys_in s))) (spc s) (rpc s) (sent s) (delivered s)"
    and siz: "out_size (sys_out s) = 2 ^ n" by (auto simp: lrpc_inv_def lrpc_shape_def)
  show "\<exists>pending. sent s = delivered s @ pending \<and> length pending \<le> 2 ^ n"
    by (rule exI [of _ "lrpc_pending n (send_head (sys_out s)) (recv_head (sys_in s))
        (tbls (sys_st s) (in_tbl (sys_in s)))"]) (use core in \<open>simp add: lrpc_core_def lrpc_ok_def\<close>)
  show "send_head (sys_out s) - send_tail (sys_out s) = out_size (sys_out s)" if "spc s = SLoad c p" for c p
    using that core siz by (simp add: lrpc_core_def lrpc_ok_def word_unat_eq_iff unat_pow2)
  show "\<exists>s'. lrpc_step\<^sup>*\<^sup>* s s' \<and> recv_done s s'" if "sent s \<noteq> delivered s"
    using deliver_pending [OF inv that] .
qed

definition ex_sys :: lrpc_sys where
  "ex_sys = \<lparr>sys_out = \<lparr>out_tbl = 64, out_wb = 8, send_head = 0, send_tail = 0, out_size = 2\<rparr>,
     sys_in = \<lparr>in_tbl = 64, in_wb = 8, recv_head = 0, in_size = 2\<rparr>,
     sys_st = \<lparr>tbls = (\<lambda>_ _. \<lparr>m_cmd = 0, m_payload = 0\<rparr>), wbs = (\<lambda>_. 0)\<rparr>,
     spc = SIdle, rpc = RIdle, sent = [], delivered = []\<rparr>"

text \<open>One message sent, none delivered yet.\<close>

theorem lrpc_interleaving_fifo_witness:
  "lrpc_start 1 ex_sys \<and> (\<exists>s. lrpc_step\<^sup>*\<^sup>* ex_sys s \<and> sent s = [(0, 7)] \<and> delivered s = [] \<and>
     (\<exists>s'. lrpc_step\<^sup>*\<^sup>* s s' \<and> recv_done s s'))"
proof -
  define s1 where "s1 = ex_sys\<lparr>spc := SPay 0 7\<rparr>"
  define s2 where "s2 = s1\<lparr>sys_st := put_msg (sys_st s1) (out_tbl (sys_out s1)) (out_slot s1)
     ((out_msg s1)\<lparr>m_payload := 7\<rparr>), spc := SCmd 0 7\<rparr>"
  define s3 where "s3 = s2\<lparr>sys_st := put_msg (sys_st s2) (out_tbl (sys_out s2)) (out_slot s2)
     ((out_msg s2)\<lparr>m_cmd := 0 OR lrpc_parity (send_head (sys_out s2)) (out_size (sys_out s2))\<rparr>),
     sys_out := (sys_out s2)\<lparr>send_head := send_head (sys_out s2) + 1\<rparr>,
     spc := SIdle, sent := sent s2 @ [(0, 7)]\<rparr>"
  have start: "lrpc_start 1 ex_sys" by (simp add: lrpc_start_def ex_sys_def)
  have "lrpc_step ex_sys s1"
    using send_begin [of ex_sys 0 7] by (simp add: s1_def ex_sys_def)
  moreover have "lrpc_step s1 s2" unfolding s2_def by (rule send_pay) (simp add: s1_def)
  moreover have "lrpc_step s2 s3" unfolding s3_def by (rule send_cmd) (simp add: s2_def)
  ultimately have reach: "lrpc_step\<^sup>*\<^sup>* ex_sys s3"
    by (meson converse_rtranclp_into_rtranclp rtranclp.rtrancl_refl)
  have "sent s3 = [(0, 7)]" "delivered s3 = []" by (simp_all add: s3_def s2_def s1_def ex_sys_def)
  with lrpc_interleaving_fifo [OF start reach] start reach show ?thesis by auto
qed

end
