(* ===== verification/Request.thy ===== *)
theory Request
  imports Psp_Fail Fifo
begin

text \<open>
  Requests, from \<^verbatim>\<open>include/psp/libos/Request.hh\<close>: the request types and their names, the number parser,
  and \<open>struct RequestType\<close> with its ring of pending requests.  The constructors of \<open>enum class ReqType\<close>
  carry the prefix \<open>RT_\<close>.  The members of \<open>RequestType\<close> that no code reads (the reservation
  variables of DARC, the floating-point ratio) are left out.
\<close>

section \<open>Request types\<close>

datatype ReqType =
  RT_UNKNOWN | RT_SHORT | RT_LONG | RT_PAGE | RT_REGEX | RT_NEW_ORDER | RT_PAYMENT | RT_DELIVERY
| RT_ORDER_STATUS | RT_STOCK_LEVEL | RT_GET | RT_SCAN | RT_LAST

fun ReqType_code :: "ReqType \<Rightarrow> nat" where
  "ReqType_code RT_UNKNOWN = 0"
| "ReqType_code RT_SHORT = 1"
| "ReqType_code RT_LONG = 2"
| "ReqType_code RT_PAGE = 3"
| "ReqType_code RT_REGEX = 4"
| "ReqType_code RT_NEW_ORDER = 5"
| "ReqType_code RT_PAYMENT = 6"
| "ReqType_code RT_DELIVERY = 7"
| "ReqType_code RT_ORDER_STATUS = 8"
| "ReqType_code RT_STOCK_LEVEL = 9"
| "ReqType_code RT_GET = 10"
| "ReqType_code RT_SCAN = 11"
| "ReqType_code RT_LAST = 12"

definition req_type_str :: "string list" where
  "req_type_str =
     [''UNKNOWN'', ''SHORT'', ''LONG'', ''PAGE'', ''REGEX'', ''NewOrder'', ''Payment'', ''Delivery'',
      ''OrderStatus'', ''StockLevel'', ''GET'', ''SCAN'']"

definition str_to_type :: "string \<Rightarrow> ReqType" where
  "str_to_type ty =
     (if ty = ''REGEX'' then RT_REGEX
      else if ty = ''PAGE'' then RT_PAGE
      else if ty = ''Payment'' then RT_PAYMENT
      else if ty = ''NewOrder'' then RT_NEW_ORDER
      else if ty = ''Delivery'' then RT_DELIVERY
      else if ty = ''StockLevel'' then RT_STOCK_LEVEL
      else if ty = ''OrderStatus'' then RT_ORDER_STATUS
      else if ty = ''SHORT'' then RT_SHORT
      else if ty = ''LONG'' then RT_LONG
      else if ty = ''GET'' then RT_GET
      else if ty = ''SCAN'' then RT_SCAN
      else RT_UNKNOWN)"

section \<open>Parsing numbers\<close>

text \<open>
  The characters from \<open>str\<close> on are a list of their (signed) codes; \<open>n\<close> is \<open>end - str\<close>.  The loop
  condition reads \<open>*str\<close> before it compares \<open>str\<close> with \<open>end\<close>.
\<close>

definition int_ok :: "int \<Rightarrow> bool" where
  "int_ok z \<longleftrightarrow> - (2 ^ 31) \<le> z \<and> z < 2 ^ 31"

fun fast_atoi_loop :: "int list \<Rightarrow> nat \<Rightarrow> int \<Rightarrow> int result" where
  "fast_atoi_loop [] n val = Inl OutOfBounds"
| "fast_atoi_loop (c # cs) n val =
     (if c \<noteq> 32 \<and> 0 < n then
        if \<not> int_ok (val * 10) \<or> \<not> int_ok (val * 10 + (c - 48)) then Inl SignedOverflow
        else fast_atoi_loop cs (n - 1) (val * 10 + (c - 48))
      else Inr val)"

definition fast_atoi :: "int list \<Rightarrow> nat \<Rightarrow> int result" where
  "fast_atoi str n = fast_atoi_loop str n 0"

section \<open>Pending requests of a type\<close>

definition RQUEUE_LEN :: u32 where "RQUEUE_LEN = 4096"
definition MAX_WORKERS :: nat where "MAX_WORKERS = 32"

record RequestType =
  rt_type :: ReqType
  mean_ns :: u64
  deadline :: u64
  rqueue :: "nat \<Rightarrow> u64"
  rqueue_tail :: u32
  rqueue_head :: u32
  tsqueue :: "nat \<Rightarrow> u64"
  windows_mean_ns :: u64
  windows_count :: u64

text \<open>The constructor; \<open>tsqueue\<close> is not initialised and keeps what \<open>mem\<close> holds.\<close>

definition RequestType_new :: "(nat \<Rightarrow> u64) \<Rightarrow> ReqType \<Rightarrow> u64 \<Rightarrow> u64 \<Rightarrow> RequestType" where
  "RequestType_new mem ty mean dl =
     \<lparr>rt_type = ty, mean_ns = mean, deadline = dl, rqueue = (\<lambda>_. 0), rqueue_tail = 0, rqueue_head = 0,
      tsqueue = mem, windows_mean_ns = 0, windows_count = 0\<rparr>"

definition RequestType_eq :: "RequestType \<Rightarrow> RequestType \<Rightarrow> bool" where
  "RequestType_eq a b \<longleftrightarrow> rt_type b = rt_type a"

definition RequestType_less :: "RequestType \<Rightarrow> RequestType \<Rightarrow> bool" where
  "RequestType_less a b \<longleftrightarrow> mean_ns a < mean_ns b"

definition RequestType_neq :: "RequestType \<Rightarrow> RequestType \<Rightarrow> bool" where
  "RequestType_neq a b \<longleftrightarrow> rt_type b \<noteq> rt_type a"

text \<open>Decimal digits of a number, most significant first.\<close>

fun digits :: "nat \<Rightarrow> int list" where
  "digits m = (if m < 10 then [int m + 48] else digits (m div 10) @ [int (m mod 10) + 48])"

declare digits.simps [simp del]

lemma int_ok_small: "0 \<le> z \<Longrightarrow> z < 2147483648 \<Longrightarrow> int_ok z"
  by (simp add: int_ok_def)

lemma fast_atoi_loop_digits:
  assumes "m < 2147483648" "length (digits m) \<le> n"
  shows "fast_atoi_loop (digits m @ rest) n 0 = fast_atoi_loop rest (n - length (digits m)) (int m)"
  using assms
proof (induction m arbitrary: rest n rule: digits.induct)
  case (1 m)
  show ?case
  proof (cases "m < 10")
    case True
    then show ?thesis using 1(3) by (simp add: digits.simps [of m] int_ok_small)
  next
    case False
    let ?q = "m div 10" and ?d = "int (m mod 10)"
    have d: "digits m = digits ?q @ [?d + 48]" using False by (simp add: digits.simps [of m])
    have m: "int m = int ?q * 10 + ?d" by (simp add: of_nat_mod of_nat_div)
    have "fast_atoi_loop (digits m @ rest) n 0 =
        fast_atoi_loop ((?d + 48) # rest) (n - length (digits ?q)) (int ?q)"
      using 1(1) [OF False, of n "(?d + 48) # rest"] 1(2,3) d by simp
    moreover have "int_ok (int ?q * 10)" "int_ok (int ?q * 10 + ?d)"
      using 1(2) m by (auto intro!: int_ok_small)
    moreover have "?d + 48 \<noteq> 32" "0 < n - length (digits ?q)" using 1(3) d by simp_all
    ultimately show ?thesis using d m by simp
  qed
qed

section \<open>Properties\<close>

text \<open>
  The name of every request type is parsed back to the type it names; every other string is
  \<open>UNKNOWN\<close>, and no string gives the end marker \<open>LAST\<close>.
\<close>

theorem str_to_type_roundtrip:
  assumes "t \<noteq> RT_LAST"
  shows "str_to_type (req_type_str ! ReqType_code t) = t \<and>
     (s \<notin> set req_type_str \<longrightarrow> str_to_type s = RT_UNKNOWN) \<and> str_to_type s \<noteq> RT_LAST"
  using assms by (cases t) (simp_all add: str_to_type_def req_type_str_def)

theorem str_to_type_roundtrip_witness:
  "str_to_type (req_type_str ! ReqType_code RT_STOCK_LEVEL) = RT_STOCK_LEVEL \<and> str_to_type ''short'' = RT_UNKNOWN"
  using str_to_type_roundtrip [of RT_STOCK_LEVEL "''short''"] by (simp add: req_type_str_def)

text \<open>
  \<open>fast_atoi\<close> reads back the decimal digits of every number below \<open>2\<^sup>31\<close>, whether they are
  followed by a space or end at \<open>end\<close>; in the second case it still reads the character at \<open>end\<close>,
  so a buffer that stops there is read out of bounds.
\<close>

theorem fast_atoi_digits:
  assumes "m < 2 ^ 31" "length (digits m) \<le> n"
  shows "fast_atoi (digits m @ 32 # rest) n = Inr (int m) \<and>
     fast_atoi (digits m @ c # rest) (length (digits m)) = Inr (int m) \<and>
     fast_atoi (digits m) (length (digits m)) = Inl OutOfBounds"
proof -
  have m: "m < 2147483648" using assms(1) by simp
  show ?thesis
    using fast_atoi_loop_digits [OF m assms(2), of "32 # rest"]
      fast_atoi_loop_digits [OF m order_refl, of "c # rest"] fast_atoi_loop_digits [OF m order_refl, of "[]"]
    by (simp add: fast_atoi_def)
qed

theorem fast_atoi_digits_witness:
  "fast_atoi [52, 50, 32, 55] 4 = Inr 42 \<and> fast_atoi [52, 50] 2 = Inl OutOfBounds"
proof -
  have "digits 42 = [52, 50]" by (simp add: digits.simps)
  with fast_atoi_digits [of 42 4 "[55]" 0] show ?thesis by (simp flip: numeral_2_eq_2)
qed

end
