(* ===== verification/Dispatcher.thy ===== *)
theory Dispatcher
  imports Request Lrpc
begin

text \<open>
  The request rings of the dispatcher, from \<^verbatim>\<open>src/c++/libos/su/dispatch_su.cc\<close> and
  \<^verbatim>\<open>include/psp/libos/su/DispatchSu.hh\<close>: \<open>enqueue\<close> and \<open>push_to_rqueue\<close>, \<open>drain_queue\<close>, which hands
  pending requests to free workers over LRPC, and \<open>signal_free_worker\<close>, which takes their
  completions.  A ring is an interpretation of \<open>bounded_fifo\<close>.
\<close>

section \<open>State\<close>

datatype dispatch_mode = DP_DFCFS | DP_CFCFS | DP_SJF | DP_DARC | DP_EDF | DP_UNKNOWN

definition dp_str :: "string list" where
  "dp_str = [''DFCFS'', ''CFCFS'', ''SJF'', ''DARC'', ''EDF'', ''UNKNOWN'']"

fun dispatch_mode_code :: "dispatch_mode \<Rightarrow> nat" where
  "dispatch_mode_code DP_DFCFS = 0"
| "dispatch_mode_code DP_CFCFS = 1"
| "dispatch_mode_code DP_SJF = 2"
| "dispatch_mode_code DP_DARC = 3"
| "dispatch_mode_code DP_EDF = 4"
| "dispatch_mode_code DP_UNKNOWN = 5"

definition str_to_dp :: "string \<Rightarrow> dispatch_mode" where
  "str_to_dp dp =
     (if dp = ''CFCFS'' then DP_CFCFS
      else if dp = ''DFCFS'' then DP_DFCFS
      else if dp = ''SJF'' then DP_SJF
      else if dp = ''DARC'' then DP_DARC
      else if dp = ''EDF'' then DP_EDF
      else DP_UNKNOWN)"

text \<open>
  The members of \<open>class Dispatcher\<close> its methods use.  \<open>rtypes\<close> holds the request types by their
  address in the store \<open>rt_mem\<close>; an entry that was never set is the address it holds.
\<close>

record Dispatcher =
  dp :: dispatch_mode
  free_peers :: u32
  rtypes :: "ptr list"
  n_rtypes :: u32
  type_to_nsorder :: "u32 list"
  num_rcvd :: u64
  num_dped :: u32
  peer_dpt_tsc :: "u64 list"
  n_workers :: u32
  lrpc_ctx :: LrpcContext
  rt_mem :: "ptr \<Rightarrow> RequestType"

definition set_dp :: "Dispatcher \<Rightarrow> string \<Rightarrow> Dispatcher" where
  "set_dp d policy = d\<lparr>dp := str_to_dp policy\<rparr>"

section \<open>Operations\<close>

definition disp_process_request :: "u64 \<Rightarrow> int" where "disp_process_request pay = ENOTSUP"
definition disp_dequeue :: "int" where "disp_dequeue = ENOTSUP"
definition disp_setup :: "int" where "disp_setup = 0"
definition disp_work :: "int \<Rightarrow> u64 \<Rightarrow> int" where "disp_work status pay = ENOTSUP"

text \<open>\<open>rtypes[type_to_nsorder[type]]\<close>, with both array bounds.\<close>

definition rtype_of :: "Dispatcher \<Rightarrow> nat \<Rightarrow> ptr result" where
  "rtype_of d ty =
     (if ty < length (type_to_nsorder d) \<and> unat (type_to_nsorder d ! ty) < length (rtypes d)
      then Inr (rtypes d ! unat (type_to_nsorder d ! ty)) else Inl OutOfBounds)"

definition signal_free_worker :: "Dispatcher \<Rightarrow> u32 \<Rightarrow> u64 \<Rightarrow> (int \<times> Dispatcher) result" where
  "signal_free_worker d peer_id notif =
     res_bind (rtype_of d (unat (drop_bit 60 notif))) (\<lambda>t.
       if t = NULL then Inl NullDeref
       else if unat peer_id < length (peer_dpt_tsc d) then
         let cplt_tsc = notif AND 0xfffffffffffffff;
             service_time = cplt_tsc - peer_dpt_tsc d ! unat peer_id;
             rt = rt_mem d t in
         if windows_count rt + 1 = 0 then Inl DivByZero
         else
           let rt = rt\<lparr>windows_mean_ns :=
                 (service_time + windows_mean_ns rt * windows_count rt) div (windows_count rt + 1),
               windows_count := windows_count rt + 1\<rparr> in
           Inr (0, d\<lparr>rt_mem := (rt_mem d)(t := rt), free_peers := free_peers d OR push_bit (unat peer_id) 1\<rparr>)
       else Inl OutOfBounds)"

definition push_to_rqueue :: "RequestType \<Rightarrow> u64 \<Rightarrow> u64 \<Rightarrow> int \<times> RequestType" where
  "push_to_rqueue rt req tsc =
     (if rqueue_head rt - rqueue_tail rt = RQUEUE_LEN then (EXFULL, rt)
      else
        let i = unat (rqueue_head rt AND (RQUEUE_LEN - 1)) in
        (0, rt\<lparr>tsqueue := (tsqueue rt)(i := tsc), rqueue := (rqueue rt)(i := req),
               rqueue_head := rqueue_head rt + 1\<rparr>))"

definition disp_enqueue :: "Dispatcher \<Rightarrow> u64 \<Rightarrow> u64 \<Rightarrow> (int \<times> Dispatcher) result" where
  "disp_enqueue d req cur_tsc =
     res_bind (rtype_of d (ReqType_code RT_UNKNOWN)) (\<lambda>t.
       if t = NULL then Inl NullDeref
       else
         let (r, rt) = push_to_rqueue (rt_mem d t) req cur_tsc in
         Inr (r, d\<lparr>rt_mem := (rt_mem d)(t := rt)\<rparr>))"

text \<open>\<open>__builtin_ctz\<close>: the index of the lowest bit set, undefined for 0.\<close>

fun ctz_from :: "nat \<Rightarrow> nat \<Rightarrow> u32 \<Rightarrow> nat" where
  "ctz_from 0 i w = i"
| "ctz_from (Suc f) i w = (if bit w i then i else ctz_from f (Suc i) w)"

definition ctz :: "u32 \<Rightarrow> nat" where
  "ctz w = ctz_from 32 0 w"

text \<open>
  The loop of \<open>drain_queue\<close>.  A \<open>push\<close> that fails changes nothing and the loop tries again, so it
  need not end; running out of fuel stands for that.
\<close>

fun drain_loop ::
  "nat \<Rightarrow> u64 \<Rightarrow> ptr \<Rightarrow> Dispatcher \<Rightarrow> lrpc_store \<Rightarrow> (Dispatcher \<times> lrpc_store) result" where
  "drain_loop fuel cur_tsc t d st =
     (let rt = rt_mem d t in
      if \<not> (rqueue_tail rt < rqueue_head rt \<and> 0 < free_peers d) then Inr (d, st)
      else case fuel of 0 \<Rightarrow> Inl OutOfFuel | Suc fuel \<Rightarrow>
        let req = rqueue rt (unat (rqueue_tail rt AND (RQUEUE_LEN - 1)));
            peer_id = ctz (free_peers d) in
        res_bind (push st (lrpc_ctx d) req (of_nat peer_id)) (\<lambda>(r, ctx, st).
          let d = d\<lparr>lrpc_ctx := ctx\<rparr> in
          if r = 0 then
            if peer_id < length (peer_dpt_tsc d) then
              drain_loop fuel cur_tsc t
                (d\<lparr>num_dped := num_dped d + 1,
                   rt_mem := (rt_mem d)(t := rt\<lparr>rqueue_tail := rqueue_tail rt + 1\<rparr>),
                   free_peers := free_peers d XOR push_bit peer_id 1,
                   peer_dpt_tsc := (peer_dpt_tsc d)[peer_id := cur_tsc]\<rparr>) st
            else Inl OutOfBounds
          else drain_loop fuel cur_tsc t d st))"

declare drain_loop.simps [simp del]

definition drain_queue ::
  "nat \<Rightarrow> u64 \<Rightarrow> ptr \<Rightarrow> Dispatcher \<Rightarrow> lrpc_store \<Rightarrow> (int \<times> Dispatcher \<times> lrpc_store) result" where
  "drain_queue fuel cur_tsc t d st =
     (if t = NULL then Inl NullDeref
      else res_bind (drain_loop fuel cur_tsc t d st) (\<lambda>(d, st). Inr (0, d, st)))"

section \<open>Free workers\<close>

definition peers_of :: "u32 \<Rightarrow> nat list" where
  "peers_of w = filter (bit w) [0..<32]"

lemma peers_of_bound: "p \<in> set (peers_of w) \<Longrightarrow> p < 32 \<and> bit w p"
  by (simp add: peers_of_def)

lemma distinct_peers_of: "distinct (peers_of w)"
  by (simp add: peers_of_def)

lemma peers_of_Nil: "peers_of w = [] \<longleftrightarrow> w = 0"
proof
  assume "peers_of w = []"
  then have "\<not> bit w p" if "p < 32" for p using that by (auto simp: peers_of_def filter_empty_conv)
  then show "w = 0" by (intro bit_eqI) simp
qed (simp add: peers_of_def)

lemma ctz_from_hd: "f + i = 32 \<Longrightarrow> filter (bit w) [i..<32] \<noteq> [] \<Longrightarrow> ctz_from f i w = hd (filter (bit w) [i..<32])"
proof (induction f arbitrary: i)
  case (Suc f)
  then have "[i..<32] = i # [Suc i..<32]" by (simp add: upt_conv_Cons)
  with Suc.prems Suc.IH [of "Suc i"] show ?case by (auto split: if_splits)
qed simp

lemma ctz_hd: "w \<noteq> 0 \<Longrightarrow> ctz w = hd (peers_of w)"
  using ctz_from_hd [of 32 0 w] by (simp add: ctz_def peers_of_def [symmetric] peers_of_Nil)

lemma bit_clear: "p < 32 \<Longrightarrow> bit w p \<Longrightarrow> bit (w XOR push_bit p 1 :: u32) q \<longleftrightarrow> bit w q \<and> q \<noteq> p"
  by (auto simp: bit_simps dest: bit_imp_le_length)

lemma peers_of_clear:
  assumes "peers_of w = p # ps"
  shows "peers_of (w XOR push_bit p 1) = ps"
proof -
  have p: "p < 32" "bit w p" using peers_of_bound [of p w] assms by auto
  have "peers_of (w XOR push_bit p 1) = filter (\<lambda>q. q \<noteq> p) (peers_of w)"
    unfolding peers_of_def filter_filter by (rule filter_cong [OF refl]) (use p bit_clear in blast)
  also have "\<dots> = ps" using assms distinct_peers_of [of w] by (auto simp: filter_id_conv)
  finally show ?thesis .
qed

section \<open>Draining a ring\<close>

abbreviation rq_pending :: "RequestType \<Rightarrow> u64 list" where
  "rq_pending rt \<equiv> ring_list 12 (rqueue rt) (rqueue_head rt) (rqueue_tail rt)"

text \<open>The pushes \<open>drain_queue\<close> makes, one after the other; a refused push is not expected.\<close>

fun push_seq :: "lrpc_store \<Rightarrow> LrpcContext \<Rightarrow> (nat \<times> u64) list \<Rightarrow> (LrpcContext \<times> lrpc_store) result" where
  "push_seq st ctx [] = Inr (ctx, st)"
| "push_seq st ctx ((p, req) # xs) =
     res_bind (push st ctx req (of_nat p)) (\<lambda>(r, ctx, st). if r = 0 then push_seq st ctx xs else Inl OutOfFuel)"

text \<open>An egress channel whose cached window has room.\<close>

definition chan_ready :: "LrpcContext \<Rightarrow> nat \<Rightarrow> bool" where
  "chan_ready ctx p \<longleftrightarrow> p < 32 \<and> p < length (egress ctx) \<and>
     send_head (egress ctx ! p) - send_tail (egress ctx ! p) < out_size (egress ctx ! p)"

lemma push_ready:
  assumes "chan_ready ctx p"
  shows "\<exists>ctx' st'. push st ctx req (of_nat p) = Inr (0, ctx', st') \<and>
     (\<forall>q. q \<noteq> p \<longrightarrow> chan_ready ctx' q = chan_ready ctx q)"
proof -
  have u: "unat (of_nat p :: u32) = p" using assms by (simp add: chan_ready_def unat_of_nat)
  have "\<not> out_size (egress ctx ! p) \<le> send_head (egress ctx ! p) - send_tail (egress ctx ! p)"
    using assms by (simp add: chan_ready_def not_le)
  then show ?thesis
    using assms by (auto simp: push_def u lrpc_send_def LRPC_TX_def chan_ready_def Let_def)
qed

text \<open>The dispatcher after the first \<open>k\<close> pending requests of \<open>t\<close> went to the peers \<open>ps\<close>.\<close>

definition drained :: "u64 \<Rightarrow> ptr \<Rightarrow> Dispatcher \<Rightarrow> nat list \<Rightarrow> LrpcContext \<Rightarrow> Dispatcher" where
  "drained cur_tsc t d ps ctx = d\<lparr>lrpc_ctx := ctx, num_dped := num_dped d + of_nat (length ps),
     rt_mem := (rt_mem d)(t := (rt_mem d t)\<lparr>rqueue_tail := rqueue_tail (rt_mem d t) + of_nat (length ps)\<rparr>),
     free_peers := fold (\<lambda>p w. w XOR push_bit p 1) ps (free_peers d),
     peer_dpt_tsc := fold (\<lambda>p ts. ts[p := cur_tsc]) ps (peer_dpt_tsc d)\<rparr>"

lemma drain_loop_spec:
  assumes "length (peers_of (free_peers d)) \<le> fuel" "rqueue_tail (rt_mem d t) \<le> rqueue_head (rt_mem d t)"
    and "\<forall>p \<in> set (peers_of (free_peers d)). chan_ready (lrpc_ctx d) p" "length (peer_dpt_tsc d) = 32"
  shows "\<exists>ctx' st'. push_seq st (lrpc_ctx d) (zip (peers_of (free_peers d)) (rq_pending (rt_mem d t))) = Inr (ctx', st') \<and>
     drain_loop fuel cur_tsc t d st =
       Inr (drained cur_tsc t d (take (length (rq_pending (rt_mem d t))) (peers_of (free_peers d))) ctx', st')"
  using assms
proof (induction "peers_of (free_peers d)" arbitrary: d fuel st)
  case Nil
  then have "free_peers d = 0" by (metis peers_of_Nil)
  then show ?case using Nil.hyps [symmetric]
    by (simp add: drain_loop.simps [of fuel cur_tsc t d st] drained_def)
next
  case (Cons p ps)
  let ?rt = "rt_mem d t" and ?h = "rqueue_head (rt_mem d t)" and ?t = "rqueue_tail (rt_mem d t)"
  show ?case
  proof (cases "?h = ?t")
    case True
    then show ?thesis by (simp add: drain_loop.simps [of fuel cur_tsc t d st] drained_def)
  next
    case False
    then have lt: "?t < ?h" using Cons.prems(2) by simp
    have fp: "free_peers d \<noteq> 0" using Cons(2) peers_of_Nil [of "free_peers d"] by auto
    then have ctz: "ctz (free_peers d) = p" using ctz_hd Cons(2) by (metis list.sel(1))
    have p: "p < 32" "chan_ready (lrpc_ctx d) p" "p \<notin> set ps"
      using peers_of_bound [of p "free_peers d"] Cons.prems(3) distinct_peers_of [of "free_peers d"]
      by (auto simp flip: Cons(2))
    obtain fuel' where fuel: "fuel = Suc fuel'" using Cons.prems(1) by (cases fuel) (auto simp flip: Cons(2))
    let ?req = "rqueue ?rt (ring_idx 12 ?t)"
    obtain ctx1 st1 where push: "push st (lrpc_ctx d) ?req (of_nat p) = Inr (0, ctx1, st1)"
      and ready: "\<And>q. q \<noteq> p \<Longrightarrow> chan_ready ctx1 q = chan_ready (lrpc_ctx d) q"
      using push_ready [OF p(2)] by blast
    define d1 where "d1 = d\<lparr>lrpc_ctx := ctx1, num_dped := num_dped d + 1,
       rt_mem := (rt_mem d)(t := ?rt\<lparr>rqueue_tail := ?t + 1\<rparr>), free_peers := free_peers d XOR push_bit p 1,
       peer_dpt_tsc := (peer_dpt_tsc d)[p := cur_tsc]\<rparr>"
    have ps: "peers_of (free_peers d1) = ps" using peers_of_clear [OF Cons(2) [symmetric]] by (simp add: d1_def)
    have pend: "rq_pending ?rt = ?req # rq_pending (rt_mem d1 t)"
      using ring_list_pop [OF False] by (simp add: d1_def)
    have d1: "lrpc_ctx d1 = ctx1" "rqueue_tail (rt_mem d1 t) \<le> rqueue_head (rt_mem d1 t)" "length (peer_dpt_tsc d1) = 32"
      using Cons.prems(4) inc_le [OF lt] by (simp_all add: d1_def)
    have "\<forall>q \<in> set (peers_of (free_peers d1)). chan_ready (lrpc_ctx d1) q"
      using Cons.prems(3) ready p(3) unfolding ps d1(1) Cons(2) [symmetric] by fastforce
    moreover have "length (peers_of (free_peers d1)) \<le> fuel'"
      using Cons.prems(1) fuel unfolding ps by (auto simp flip: Cons(2))
    ultimately have "\<exists>ctx' st'. push_seq st1 (lrpc_ctx d1) (zip ps (rq_pending (rt_mem d1 t))) = Inr (ctx', st') \<and>
       drain_loop fuel' cur_tsc t d1 st1 = Inr (drained cur_tsc t d1 (take (length (rq_pending (rt_mem d1 t))) ps) ctx', st')"
      using Cons(1) [OF ps [symmetric], of fuel' st1] d1(2,3) unfolding ps by blast
    moreover have "drain_loop fuel cur_tsc t d st = drain_loop fuel' cur_tsc t d1 st1"
      using lt fp ctz push p(1) Cons.prems(4) unat_and_mask_ring_idx [of ?t 12]
      by (simp add: drain_loop.simps [of "Suc fuel'" cur_tsc t d st] fuel RQUEUE_LEN_def d1_def word_gt_0 Let_def)
    moreover have "drained cur_tsc t d1 qs ctx' = drained cur_tsc t d (p # qs) ctx'" for qs ctx'
      by (simp add: drained_def d1_def add.assoc)
    ultimately show ?thesis
      using push d1(1) unfolding pend Cons(2) [symmetric] by auto
  qed
qed

lemma fold_clear_bits:
  "set ps \<subseteq> set (peers_of w) \<Longrightarrow> distinct ps \<Longrightarrow>
   bit (fold (\<lambda>p w. w XOR push_bit p 1) ps w) q \<longleftrightarrow> bit w q \<and> q \<notin> set ps"
proof (induction ps arbitrary: w)
  case (Cons p ps)
  have p: "p < 32" "bit w p" using Cons.prems(1) peers_of_bound by auto
  have "set ps \<subseteq> set (peers_of (w XOR push_bit p 1))"
  proof
    fix x assume "x \<in> set ps"
    then have "x \<in> set (peers_of w)" "x \<noteq> p" using Cons.prems by auto
    then show "x \<in> set (peers_of (w XOR push_bit p 1))"
      using bit_clear [OF p] by (simp add: peers_of_def del: push_bit_of_1)
  qed
  from Cons.IH [OF this] Cons.prems(2) have "bit (fold (\<lambda>p w. w XOR push_bit p 1) ps (w XOR push_bit p 1)) q \<longleftrightarrow>
      bit (w XOR push_bit p 1) q \<and> q \<notin> set ps" by simp
  then show ?case using bit_clear [OF p, of q] by auto
qed simp

lemma ring_list_drop: "k \<le> unat (h - t) \<Longrightarrow> ring_list n buf h (t + of_nat k) = drop k (ring_list n buf h t)"
proof (induction k arbitrary: t)
  case (Suc k)
  then have ne: "h \<noteq> t" by auto
  have "k \<le> unat (h - (t + 1))" using Suc.prems unat_diff_Suc [OF ne] by simp
  from Suc.IH [OF this] show ?case by (simp add: ring_list_pop [OF ne] add.assoc)
qed simp

lemma zip_min: "zip xs ys = zip (take (min (length ys) (length xs)) xs) (take (min (length ys) (length xs)) ys)"
  by (simp add: take_zip [symmetric])

lemma nth_fold_update:
  "q < length xs \<Longrightarrow> fold (\<lambda>p ts. ts[p := c]) ps xs ! q = (if q \<in> set ps then c else xs ! q)"
  by (induction ps arbitrary: xs) (auto simp: nth_list_update)

section \<open>Properties\<close>

text \<open>
  C10: \<open>drain_queue\<close> ends and hands the oldest pending requests to the lowest-numbered free
  workers, one each, in order, as many as there are of both: with \<open>k\<close> the smaller number, the
  pushes made are exactly the first \<open>k\<close> pairs, the ring keeps the rest, the \<open>k\<close> workers are no
  longer free and carry the dispatch time.  The counters must not have wrapped between tail and
  head, and the channels of the free workers must have room.
\<close>

theorem drain_queue_fifo:
  assumes "t \<noteq> NULL" "length (peers_of (free_peers d)) \<le> fuel"
    and "rqueue_tail (rt_mem d t) \<le> rqueue_head (rt_mem d t)"
    and "\<forall>p \<in> set (peers_of (free_peers d)). chan_ready (lrpc_ctx d) p" "length (peer_dpt_tsc d) = 32"
  shows "\<exists>d' st' k. drain_queue fuel cur_tsc t d st = Inr (0, d', st') \<and>
     k = min (length (rq_pending (rt_mem d t))) (length (peers_of (free_peers d))) \<and>
     push_seq st (lrpc_ctx d) (zip (take k (peers_of (free_peers d))) (take k (rq_pending (rt_mem d t)))) =
       Inr (lrpc_ctx d', st') \<and>
     rq_pending (rt_mem d' t) = drop k (rq_pending (rt_mem d t)) \<and>
     num_dped d' = num_dped d + of_nat k \<and>
     (\<forall>p. bit (free_peers d') p \<longleftrightarrow> bit (free_peers d) p \<and> p \<notin> set (take k (peers_of (free_peers d)))) \<and>
     (\<forall>p \<in> set (take k (peers_of (free_peers d))). peer_dpt_tsc d' ! p = cur_tsc)"
proof -
  let ?ps = "peers_of (free_peers d)" and ?pend = "rq_pending (rt_mem d t)"
  define k where "k = min (length ?pend) (length ?ps)"
  from drain_loop_spec [OF assms(2-5), of st cur_tsc] obtain ctx' st'
    where r: "push_seq st (lrpc_ctx d) (zip ?ps ?pend) = Inr (ctx', st')"
      "drain_loop fuel cur_tsc t d st = Inr (drained cur_tsc t d (take (length ?pend) ?ps) ctx', st')" by blast
  let ?d = "drained cur_tsc t d (take k ?ps) ctx'"
  have tk: "take (length ?pend) ?ps = take k ?ps" by (simp add: k_def min_def)
  have len: "length (take k ?ps) = k" by (simp add: k_def)
  have "drain_queue fuel cur_tsc t d st = Inr (0, ?d, st')"
    using assms(1) r(2) tk by (simp add: drain_queue_def)
  moreover have "push_seq st (lrpc_ctx d) (zip (take k ?ps) (take k ?pend)) = Inr (lrpc_ctx ?d, st')"
    using r(1) zip_min [of ?ps ?pend] by (simp add: k_def drained_def)
  moreover have "rq_pending (rt_mem ?d t) = drop k ?pend"
    using ring_list_drop [of k "rqueue_head (rt_mem d t)" "rqueue_tail (rt_mem d t)"] len
    by (simp add: drained_def k_def)
  moreover have "num_dped ?d = num_dped d + of_nat k" using len by (simp add: drained_def)
  moreover have "bit (free_peers ?d) p \<longleftrightarrow> bit (free_peers d) p \<and> p \<notin> set (take k ?ps)" for p
    using fold_clear_bits [OF set_take_subset distinct_take, OF distinct_peers_of, of k "free_peers d" p]
    by (simp add: drained_def)
  moreover have "peer_dpt_tsc ?d ! p = cur_tsc" if "p \<in> set (take k ?ps)" for p
  proof -
    have "p < 32" using that peers_of_bound [of p "free_peers d"] by (auto dest: in_set_takeD)
    then show ?thesis using that assms(5) by (simp add: drained_def nth_fold_update)
  qed
  ultimately show ?thesis unfolding k_def by blast
qed

definition ex_rt :: RequestType where
  "ex_rt = (RequestType_new (\<lambda>_. 0) RT_UNKNOWN 0 0)\<lparr>rqueue := (\<lambda>i. if i = 0 then 77 else 88), rqueue_head := 1\<rparr>"

definition ex_disp :: Dispatcher where
  "ex_disp = \<lparr>dp = DP_CFCFS, free_peers = 6, rtypes = [16], n_rtypes = 1, type_to_nsorder = replicate 12 0,
     num_rcvd = 0, num_dped = 0, peer_dpt_tsc = replicate 32 0, n_workers = 3,
     lrpc_ctx = \<lparr>ingress = [], egress = replicate 32 \<lparr>out_tbl = 64, out_wb = 8, send_head = 0, send_tail = 0,
       out_size = 2\<rparr>\<rparr>, rt_mem = (\<lambda>_. ex_rt)\<rparr>"

lemma ex_disp_peers: "peers_of 6 = [1, 2]"
proof -
  have "[0..<32] = [0, 1, 2] @ [3..<32]" by (simp add: upt_rec)
  moreover have "filter (bit (6 :: u32)) [3..<32] = []"
  proof (unfold filter_empty_conv, rule ballI)
    fix q assume "q \<in> set [3..<32 :: nat]"
    then have "2 ^ 3 \<le> (2 :: nat) ^ q" by (intro power_increasing) auto
    then show "\<not> bit (6 :: u32) q" by (simp add: bit_word_nat)
  qed
  ultimately show ?thesis by (simp add: peers_of_def)
qed

text \<open>One request pending and workers 1 and 2 free: worker 1 gets it.\<close>

theorem drain_queue_fifo_witness:
  "\<exists>d' st'. drain_queue 2 9 16 ex_disp (lk_st ex_link) = Inr (0, d', st') \<and> num_dped d' = 1 \<and>
     push_seq (lk_st ex_link) (lrpc_ctx ex_disp) [(1, 77)] = Inr (lrpc_ctx d', st') \<and>
     rq_pending (rt_mem d' 16) = [] \<and> \<not> bit (free_peers d') 1 \<and> bit (free_peers d') 2"
proof -
  have fp: "peers_of (free_peers ex_disp) = [1, 2]" using ex_disp_peers by (simp add: ex_disp_def)
  have pend: "rq_pending (rt_mem ex_disp 16) = [77]"
    by (simp add: ex_disp_def ex_rt_def RequestType_new_def ring_list_def ring_idx_def)
  have "\<forall>p \<in> set (peers_of (free_peers ex_disp)). chan_ready (lrpc_ctx ex_disp) p"
    unfolding fp by (simp add: chan_ready_def ex_disp_def)
  from drain_queue_fifo [OF _ _ _ this, of 16 2 9 "lk_st ex_link"] fp pend
  show ?thesis
    by (auto simp: ex_disp_def ex_rt_def RequestType_new_def)
qed

text \<open>
  \<open>enqueue\<close> appends the request with its time to the ring of the type \<open>UNKNOWN\<close> when the ring
  holds fewer than 4096 requests, and otherwise refuses it with \<open>EXFULL\<close> and changes nothing; no
  other ring is touched, and the wrap-around of the counters makes no difference.
\<close>

theorem disp_enqueue_spec:
  assumes "rtype_of d 0 = Inr t" "t \<noteq> NULL" "length (rq_pending (rt_mem d t)) \<le> 4096"
  shows "if length (rq_pending (rt_mem d t)) = 4096 then disp_enqueue d req tsc = Inr (EXFULL, d)
     else \<exists>d'. disp_enqueue d req tsc = Inr (0, d') \<and> rq_pending (rt_mem d' t) = rq_pending (rt_mem d t) @ [req] \<and>
       ring_list 12 (tsqueue (rt_mem d' t)) (rqueue_head (rt_mem d' t)) (rqueue_tail (rt_mem d' t)) =
         ring_list 12 (tsqueue (rt_mem d t)) (rqueue_head (rt_mem d t)) (rqueue_tail (rt_mem d t)) @ [tsc] \<and>
       (\<forall>u. u \<noteq> t \<longrightarrow> rt_mem d' u = rt_mem d u)"
proof -
  let ?rt = "rt_mem d t"
  let ?n = "rqueue_head ?rt - rqueue_tail ?rt"
  have full: "?n = 4096 \<longleftrightarrow> unat ?n = 4096" by (simp add: word_unat_eq_iff)
  show ?thesis
  proof (cases "unat ?n = 4096")
    case True
    then show ?thesis
      using assms full by (simp add: disp_enqueue_def push_to_rqueue_def RQUEUE_LEN_def)
  next
    case False
    then have room: "unat ?n < 2 ^ 12" using assms(3) by simp
    have "ring_list 12 (buf(ring_idx 12 (rqueue_head ?rt) := x)) (rqueue_head ?rt + 1) (rqueue_tail ?rt) =
        ring_list 12 buf (rqueue_head ?rt) (rqueue_tail ?rt) @ [x]" for buf and x :: u64
      using ring_list_push [OF _ room] by simp
    then show ?thesis
      using assms False full unat_and_mask_ring_idx [of "rqueue_head ?rt" 12]
      by (simp add: disp_enqueue_def push_to_rqueue_def RQUEUE_LEN_def Let_def)
  qed
qed

theorem disp_enqueue_spec_witness:
  "\<exists>d'. disp_enqueue ex_disp 5 6 = Inr (0, d') \<and> rq_pending (rt_mem d' 16) = rq_pending (rt_mem ex_disp 16) @ [5]"
proof -
  have "rtype_of ex_disp 0 = Inr 16" by (simp add: rtype_of_def ex_disp_def)
  moreover have "length (rq_pending (rt_mem ex_disp 16)) = 1"
    by (simp add: ex_disp_def ex_rt_def RequestType_new_def)
  ultimately show ?thesis using disp_enqueue_spec [of ex_disp 16 5 6] by auto
qed

text \<open>
  \<open>signal_free_worker\<close> keeps an exact running mean: as long as the products fit 64 bits, the
  new mean is the integer quotient of the total service time by the number of completions, the
  count grows by one, the worker becomes free and no other worker's state changes.
\<close>

theorem signal_free_worker_mean:
  assumes "rtype_of d (unat (drop_bit 60 notif)) = Inr t" "t \<noteq> NULL" "unat peer < length (peer_dpt_tsc d)"
    and "unat peer < 32" "service = (notif AND 0xfffffffffffffff) - peer_dpt_tsc d ! unat peer"
    and "unat service + unat (windows_mean_ns (rt_mem d t)) * unat (windows_count (rt_mem d t)) < 2 ^ 64"
    and "unat (windows_count (rt_mem d t)) + 1 < 2 ^ 64"
  shows "\<exists>d'. signal_free_worker d peer notif = Inr (0, d') \<and>
     unat (windows_mean_ns (rt_mem d' t)) =
       (unat service + unat (windows_mean_ns (rt_mem d t)) * unat (windows_count (rt_mem d t))) div
         (unat (windows_count (rt_mem d t)) + 1) \<and>
     unat (windows_count (rt_mem d' t)) = unat (windows_count (rt_mem d t)) + 1 \<and>
     (\<forall>p. bit (free_peers d') p \<longleftrightarrow> bit (free_peers d) p \<or> p = unat peer)"
proof -
  let ?rt = "rt_mem d t"
  have c: "unat (windows_count ?rt + 1) = unat (windows_count ?rt) + 1"
    using assms(7) by (simp add: unat_word_ariths)
  then have nz: "windows_count ?rt + 1 \<noteq> 0" by (auto simp: word_unat_eq_iff)
  have "unat (windows_mean_ns ?rt * windows_count ?rt) = unat (windows_mean_ns ?rt) * unat (windows_count ?rt)"
    using assms(6) by (simp add: unat_word_ariths)
  then have "unat (service + windows_mean_ns ?rt * windows_count ?rt) =
      unat service + unat (windows_mean_ns ?rt) * unat (windows_count ?rt)"
    using assms(6) by (simp add: unat_word_ariths)
  then have m: "unat ((service + windows_mean_ns ?rt * windows_count ?rt) div (windows_count ?rt + 1)) =
      (unat service + unat (windows_mean_ns ?rt) * unat (windows_count ?rt)) div (unat (windows_count ?rt) + 1)"
    using c by (simp add: unat_div)
  have b: "bit (free_peers d OR push_bit (unat peer) 1) p \<longleftrightarrow> bit (free_peers d) p \<or> p = unat peer" for p
    using assms(4) by (auto simp: bit_simps)
  show ?thesis
    using assms(1-3) nz c m b by (simp add: signal_free_worker_def Let_def assms(5) del: push_bit_of_1)
qed

theorem signal_free_worker_mean_witness:
  "\<exists>d'. signal_free_worker ex_disp 3 1000 = Inr (0, d') \<and> unat (windows_mean_ns (rt_mem d' 16)) = 1000"
proof -
  have "rtype_of ex_disp (unat (drop_bit 60 (1000 :: u64))) = Inr 16" by (simp add: rtype_of_def ex_disp_def)
  from signal_free_worker_mean [OF this, of 3 1000] show ?thesis
    by (auto simp: ex_disp_def ex_rt_def RequestType_new_def)
qed

end
