(* ===== verification/Udp_Context.thy ===== *)
theory Udp_Context
  imports Psp_Fail Base_Bits Fifo
begin

text \<open>
  The UDP context of \<^verbatim>\<open>src/c++/libos/io/udp_dpdk/context.cc\<close> and
  \<^verbatim>\<open>include/psp/libos/io/udp_dpdk/context.hh\<close>: the inbound and outbound rings and the headers of
  outgoing packets.  A packet buffer is a record of the mbuf fields the code uses and of its bytes;
  the bytes are laid out as Ethernet (14), IPv4 (20), UDP (8), data.  The NIC is a parameter: the
  packets \<open>rte_eth_rx_burst\<close> returns and the number \<open>rte_eth_tx_burst\<close> accepts.  \<open>NET_DEBUG\<close> is
  off, as in the source.
\<close>

section \<open>Packets\<close>

record mbuf =
  pkt_data :: "nat \<Rightarrow> u8"
  buf_addr :: ptr
  data_off :: u16
  l2_len :: u8
  l3_len :: u16
  l4_len :: u8
  ol_ip_cksum :: bool
  data_len :: u16
  pkt_len :: u32
  nb_segs :: u16

type_synonym mbuf_store = "ptr \<Rightarrow> mbuf"

definition NET_HDR_SIZE :: nat where "NET_HDR_SIZE = 42"

text \<open>Loads and stores of multi-byte fields are little-endian.\<close>

definition get16 :: "(nat \<Rightarrow> u8) \<Rightarrow> nat \<Rightarrow> u16" where
  "get16 b i = ucast (b i) OR push_bit 8 (ucast (b (i + 1)))"

definition get32 :: "(nat \<Rightarrow> u8) \<Rightarrow> nat \<Rightarrow> u32" where
  "get32 b i = ucast (b i) OR push_bit 8 (ucast (b (i + 1))) OR push_bit 16 (ucast (b (i + 2))) OR
     push_bit 24 (ucast (b (i + 3)))"

definition put16 :: "nat \<Rightarrow> u16 \<Rightarrow> (nat \<Rightarrow> u8) \<Rightarrow> nat \<Rightarrow> u8" where
  "put16 i v b = b(i := ucast v, i + 1 := ucast (drop_bit 8 v))"

definition put32 :: "nat \<Rightarrow> u32 \<Rightarrow> (nat \<Rightarrow> u8) \<Rightarrow> nat \<Rightarrow> u8" where
  "put32 i v b = b(i := ucast v, i + 1 := ucast (drop_bit 8 v), i + 2 := ucast (drop_bit 16 v),
     i + 3 := ucast (drop_bit 24 v))"

text \<open>Six bytes of a MAC address.\<close>

definition get_mac :: "(nat \<Rightarrow> u8) \<Rightarrow> nat \<Rightarrow> nat \<Rightarrow> u8" where
  "get_mac b i = (\<lambda>k. if k < 6 then b (i + k) else 0)"

definition put_mac :: "nat \<Rightarrow> (nat \<Rightarrow> u8) \<Rightarrow> (nat \<Rightarrow> u8) \<Rightarrow> nat \<Rightarrow> u8" where
  "put_mac i m b = (\<lambda>k. if i \<le> k \<and> k < i + 6 then m (k - i) else b k)"

definition is_zero_mac :: "(nat \<Rightarrow> u8) \<Rightarrow> bool" where
  "is_zero_mac m \<longleftrightarrow> list_all (\<lambda>k. m k = 0) [0..<6]"

abbreviation htons :: "u16 \<Rightarrow> u16" where "htons \<equiv> bswap16"

section \<open>The context\<close>

definition MAX_TX_BURST :: nat where "MAX_TX_BURST = 8"
definition MAX_RX_BURST :: nat where "MAX_RX_BURST = 8"
definition INBOUND_Q_LEN :: u32 where "INBOUND_Q_LEN = 128"
definition OUTBOUND_Q_LEN :: u32 where "OUTBOUND_Q_LEN = 128"
definition IP_DEFTTL :: u8 where "IP_DEFTTL = 64"
definition IP_VHL_DEF :: u8 where "IP_VHL_DEF = 0x40 OR 0x05"
definition IPPROTO_UDP :: u8 where "IPPROTO_UDP = 17"
definition RTE_ETHER_TYPE_IPV4 :: u16 where "RTE_ETHER_TYPE_IPV4 = 0x0800"

record UdpContext =
  u_id :: u32
  u_ip :: u32
  u_port :: u16
  u_port_id :: u16
  remote_port :: u16
  remote_ip :: u32
  my_mac :: "nat \<Rightarrow> u8"
  remote_mac :: "nat \<Rightarrow> u8"
  mbuf_pool :: ptr
  inbound_queue :: "nat \<Rightarrow> u64"
  pop_tail :: u32
  pop_head :: u32
  outbound_queue :: "nat \<Rightarrow> u64"
  push_tail :: u32
  push_head :: u32

definition parse_packet :: "UdpContext \<Rightarrow> ptr \<Rightarrow> int \<times> UdpContext" where
  "parse_packet u pkt =
     (0, u\<lparr>inbound_queue := (inbound_queue u)(unat (pop_head u AND (INBOUND_Q_LEN - 1)) := pkt),
           pop_head := pop_head u + 1\<rparr>)"

fun parse_packets :: "UdpContext \<Rightarrow> ptr list \<Rightarrow> UdpContext result" where
  "parse_packets u [] = Inr u"
| "parse_packets u (p # ps) = (let (r, u) = parse_packet u p in psp_ok r (parse_packets u ps))"

definition recv_packets :: "UdpContext \<Rightarrow> ptr list \<Rightarrow> (int \<times> UdpContext) result" where
  "recv_packets u rx =
     (if pop_head u - pop_tail u < INBOUND_Q_LEN - of_nat MAX_RX_BURST then
        if length rx = 0 then Inr (EAGAIN, u)
        else res_bind (parse_packets u rx) (\<lambda>u. Inr (0, u))
      else Inr (0, u))"

text \<open>The bytes of an outgoing packet: header fields are written in the order of the source.\<close>

definition out_bytes :: "UdpContext \<Rightarrow> u32 \<Rightarrow> (nat \<Rightarrow> u8) \<Rightarrow> nat \<Rightarrow> u8" where
  "out_bytes u dlen b =
     (let b = put16 34 (htons (u_port u)) b;
          b = put16 38 (htons (ucast (dlen + 8))) b;
          b = put16 16 (htons (ucast (dlen + 8 + 20))) b;
          b = b(14 := IP_VHL_DEF);
          b = b(22 := IP_DEFTTL);
          b = b(23 := IPPROTO_UDP);
          b = put32 26 (u_ip u) b;
          b = (if is_zero_mac (remote_mac u) then
                 let b = put_mac 0 (get_mac b 6) b;
                     b = put16 36 (get16 b 34) b in
                 put32 30 (get32 b 26) b
               else
                 let b = put_mac 0 (remote_mac u) b;
                     b = put16 36 (remote_port u) b in
                 put32 30 (remote_ip u) b);
          b = put_mac 6 (my_mac u) b in
      put16 12 (htons RTE_ETHER_TYPE_IPV4) b)"

definition prepare_outbound_packet :: "UdpContext \<Rightarrow> mbuf_store \<Rightarrow> ptr \<Rightarrow> (int \<times> ptr \<times> mbuf_store) result" where
  "prepare_outbound_packet u ms pkt =
     psp_true ENOMEM (pkt \<noteq> NULL)
       (let m = ms pkt;
            dlen = ucast (l4_len m) + get32 (pkt_data m) (NET_HDR_SIZE + unat (l4_len m));
            total_len = of_nat NET_HDR_SIZE + dlen in
        Inr (0, pkt, ms(pkt := m\<lparr>pkt_data := out_bytes u dlen (pkt_data m), l4_len := 8, ol_ip_cksum := True,
          l3_len := 20, l2_len := 14, data_len := ucast total_len, pkt_len := total_len, nb_segs := 1\<rparr>)))"

text \<open>The loop of \<open>send_packets\<close>; \<open>n\<close> is the room left in the burst.\<close>

fun send_loop :: "nat \<Rightarrow> UdpContext \<Rightarrow> mbuf_store \<Rightarrow> (ptr list \<times> UdpContext \<times> mbuf_store) result" where
  "send_loop 0 u ms = Inr ([], u, ms)"
| "send_loop (Suc n) u ms =
     (if push_tail u < push_head u then
        let req = outbound_queue u (unat (push_tail u AND (OUTBOUND_Q_LEN - 1)));
            u = u\<lparr>push_tail := push_tail u + 1\<rparr> in
        res_bind (prepare_outbound_packet u ms req) (\<lambda>(r, pkt, ms).
          psp_ok r (res_bind (send_loop n u ms) (\<lambda>(pkts, u, ms). Inr (pkt # pkts, u, ms))))
      else Inr ([], u, ms))"

text \<open>
  \<open>tx pkts\<close> is the number of packets \<open>rte_eth_tx_burst\<close> takes of a burst; the result carries the
  packets it took.
\<close>

definition send_packets ::
  "UdpContext \<Rightarrow> mbuf_store \<Rightarrow> (ptr list \<Rightarrow> nat) \<Rightarrow> (int \<times> ptr list \<times> UdpContext \<times> mbuf_store) result" where
  "send_packets u ms tx =
     res_bind (send_loop MAX_TX_BURST u ms) (\<lambda>(pkts, u, ms).
       if 0 < length pkts then
         let count = tx pkts in
         if count < length pkts then Inr (EAGAIN, take count pkts, u, ms) else Inr (0, pkts, u, ms)
       else Inr (0, [], u, ms))"

definition udp_poll ::
  "UdpContext \<Rightarrow> mbuf_store \<Rightarrow> ptr list \<Rightarrow> (ptr list \<Rightarrow> nat) \<Rightarrow>
   (int \<times> ptr list \<times> UdpContext \<times> mbuf_store) result" where
  "udp_poll u ms rx tx =
     res_bind (recv_packets u rx) (\<lambda>(r, u). psp_ok r
       (res_bind (send_packets u ms tx) (\<lambda>(r, sent, u, ms). psp_ok r (Inr (0, sent, u, ms)))))"

text \<open>\<open>alloc\<close> is what \<open>rte_pktmbuf_alloc\<close> returns.  The result is the status and the out parameters.\<close>

definition get_mbuf :: "mbuf_store \<Rightarrow> ptr \<Rightarrow> ptr \<Rightarrow> ptr \<Rightarrow> int \<times> ptr \<times> ptr" where
  "get_mbuf ms alloc mbuf_out payload_addr =
     (if mbuf_out \<noteq> NULL then (0, mbuf_out, buf_addr (ms mbuf_out) + ucast (data_off (ms mbuf_out)))
      else if alloc = NULL then (ENOMEM, mbuf_out, payload_addr)
      else (0, alloc, buf_addr (ms alloc) + ucast (data_off (ms alloc))))"

section \<open>Fields of a packet\<close>

lemma le16_join [simp]:
  "ucast (ucast (v :: u16) :: u8) OR push_bit 8 (ucast (ucast (drop_bit 8 v) :: u8)) = v" (is "?w = v")
proof (rule bit_word_eqI)
  fix n assume n: "n < LENGTH(16)"
  show "bit ?w n = bit v n" using n by (cases "n < 8") (auto simp: bit_simps)
qed

lemma le32_join [simp]:
  "ucast (ucast (v :: u32) :: u8) OR push_bit 8 (ucast (ucast (drop_bit 8 v) :: u8)) OR
   push_bit 16 (ucast (ucast (drop_bit 16 v) :: u8)) OR push_bit 24 (ucast (ucast (drop_bit 24 v) :: u8)) = v"
  (is "?w = v")
proof (rule bit_word_eqI)
  fix n assume n: "n < LENGTH(32)"
  consider "n < 8" | "8 \<le> n" "n < 16" | "16 \<le> n" "n < 24" | "24 \<le> n" by linarith
  then show "bit ?w n = bit v n" using n by cases (auto simp: bit_simps)
qed

text \<open>A field reads back what was stored in it, and is not affected by stores elsewhere.\<close>

lemmas field_defs = get16_def get32_def put16_def put32_def get_mac_def put_mac_def

lemma get16_put [simp]:
  "get16 (put16 i v b) i = v"
  "j + 1 < i \<or> i + 1 < j \<Longrightarrow> get16 (put16 i v b) j = get16 b j"
  "j + 1 < i \<or> i + 3 < j \<Longrightarrow> get16 (put32 i w b) j = get16 b j"
  "j + 1 < i \<or> i + 5 < j \<Longrightarrow> get16 (put_mac i m b) j = get16 b j"
  "i \<noteq> j \<Longrightarrow> i \<noteq> j + 1 \<Longrightarrow> get16 (b(i := x)) j = get16 b j"
  by (auto simp: field_defs)

lemma get32_put [simp]:
  "get32 (put32 i w b) i = w"
  "j + 3 < i \<or> i + 1 < j \<Longrightarrow> get32 (put16 i v b) j = get32 b j"
  "j + 3 < i \<or> i + 3 < j \<Longrightarrow> get32 (put32 i w b) j = get32 b j"
  "j + 3 < i \<or> i + 5 < j \<Longrightarrow> get32 (put_mac i m b) j = get32 b j"
  "i < j \<or> j + 3 < i \<Longrightarrow> get32 (b(i := x)) j = get32 b j"
  by (auto simp: field_defs)

lemma byte_put [simp]:
  "k < i \<or> i + 1 < k \<Longrightarrow> put16 i v b k = b k"
  "k < i \<or> i + 3 < k \<Longrightarrow> put32 i w b k = b k"
  "put_mac i m b k = (if i \<le> k \<and> k < i + 6 then m (k - i) else b k)"
  "get_mac b i k = (if k < 6 then b (i + k) else 0)"
  by (auto simp: field_defs)

lemma out_bytes_fields:
  "get16 (out_bytes u d b) 12 = htons RTE_ETHER_TYPE_IPV4"
  "out_bytes u d b 14 = IP_VHL_DEF" "out_bytes u d b 22 = IP_DEFTTL" "out_bytes u d b 23 = IPPROTO_UDP"
  "get16 (out_bytes u d b) 16 = htons (ucast (d + 28))"
  "get32 (out_bytes u d b) 26 = u_ip u"
  "get16 (out_bytes u d b) 34 = htons (u_port u)"
  "get16 (out_bytes u d b) 38 = htons (ucast (d + 8))"
  "42 \<le> i \<Longrightarrow> out_bytes u d b i = b i"
  by (simp_all add: out_bytes_def Let_def add.commute)

lemma out_bytes_mac: "k < 6 \<Longrightarrow> out_bytes u d b (6 + k) = my_mac u k"
  by (auto simp: out_bytes_def Let_def)

lemma out_bytes_dst:
  "get32 (out_bytes u d b) 30 = (if is_zero_mac (remote_mac u) then u_ip u else remote_ip u)"
  "get16 (out_bytes u d b) 36 = (if is_zero_mac (remote_mac u) then htons (u_port u) else remote_port u)"
  by (simp_all add: out_bytes_def Let_def add.commute)

lemma out_bytes_dst_mac:
  "k < 6 \<Longrightarrow> out_bytes u d b k = (if is_zero_mac (remote_mac u) then b (6 + k) else remote_mac u k)"
  by (auto simp: out_bytes_def Let_def)

section \<open>The rings\<close>

abbreviation inbound :: "UdpContext \<Rightarrow> u64 list" where
  "inbound u \<equiv> ring_list 7 (inbound_queue u) (pop_head u) (pop_tail u)"

abbreviation outbound :: "UdpContext \<Rightarrow> u64 list" where
  "outbound u \<equiv> ring_list 7 (outbound_queue u) (push_head u) (push_tail u)"

lemma parse_packets_spec:
  assumes "length (inbound u) + length ps \<le> 128"
  shows "\<exists>u'. parse_packets u ps = Inr u' \<and> inbound u' = inbound u @ ps \<and> pop_tail u' = pop_tail u \<and>
     outbound u' = outbound u"
  using assms
proof (induction ps arbitrary: u)
  case (Cons p ps)
  let ?u = "snd (parse_packet u p)"
  have room: "unat (pop_head u - pop_tail u) < 2 ^ 7" using Cons.prems by simp
  have i: "unat (pop_head u AND 127) = ring_idx 7 (pop_head u)"
    using unat_and_mask_ring_idx [of "pop_head u" 7] by simp
  have "inbound ?u = inbound u @ [p]"
    using ring_list_push [OF _ room, of "inbound_queue u" p] by (simp add: parse_packet_def INBOUND_Q_LEN_def i)
  moreover have "pop_tail ?u = pop_tail u" "outbound ?u = outbound u" by (simp_all add: parse_packet_def)
  moreover have "parse_packets u (p # ps) = parse_packets ?u ps" by (simp add: parse_packet_def)
  ultimately show ?case using Cons.IH [of ?u] Cons.prems by (auto simp: simp del: parse_packets.simps)
qed simp

lemma prepare_ok:
  assumes "pkt \<noteq> NULL"
  obtains ms' where "prepare_outbound_packet u ms pkt = Inr (0, pkt, ms')" "\<And>p. p \<noteq> pkt \<Longrightarrow> ms' p = ms p"
  using assms by (simp add: prepare_outbound_packet_def Let_def)

lemma send_loop_spec:
  assumes "push_tail u \<le> push_head u" "NULL \<notin> set (outbound u)"
  shows "\<exists>u' ms'. send_loop n u ms = Inr (take n (outbound u), u', ms') \<and>
     outbound u' = drop n (outbound u) \<and> push_tail u' \<le> push_head u' \<and> inbound u' = inbound u"
  using assms
proof (induction n arbitrary: u ms)
  case (Suc n)
  show ?case
  proof (cases "push_tail u = push_head u")
    case True
    then show ?thesis by simp
  next
    case False
    then have lt: "push_tail u < push_head u" using Suc.prems(1) by simp
    let ?u = "u\<lparr>push_tail := push_tail u + 1\<rparr>"
    let ?req = "outbound_queue u (ring_idx 7 (push_tail u))"
    have i: "unat (push_tail u AND 127) = ring_idx 7 (push_tail u)"
      using unat_and_mask_ring_idx [of "push_tail u" 7] by simp
    have out: "outbound u = ?req # outbound ?u" using ring_list_pop [of "push_head u" "push_tail u"] False by simp
    obtain ms1 where "prepare_outbound_packet ?u ms ?req = Inr (0, ?req, ms1)"
      using prepare_ok [of ?req ?u ms] Suc.prems(2) out by auto
    moreover have "push_tail ?u \<le> push_head ?u" using inc_le [OF lt] by simp
    moreover have "NULL \<notin> set (outbound ?u)" using Suc.prems(2) unfolding out by simp
    ultimately show ?thesis
      using Suc.IH [of ?u ms1] lt unfolding out by (auto simp: OUTBOUND_Q_LEN_def i Let_def)
  qed
qed simp

section \<open>Properties\<close>

text \<open>
  C11: \<open>recv_packets\<close> never overwrites a packet that was not consumed: as long as the NIC returns
  at most the burst of 8 it was asked for, the packets are appended to the inbound ring in order
  and the ring never holds more than its 128 slots; with fewer than 8 slots to spare nothing is
  taken from the NIC, and an empty burst is \<open>EAGAIN\<close>.
\<close>

theorem recv_packets_no_overrun:
  assumes "length rx \<le> MAX_RX_BURST" "length (inbound u) \<le> 128"
  shows "if 120 \<le> length (inbound u) then recv_packets u rx = Inr (0, u)
     else if rx = [] then recv_packets u rx = Inr (EAGAIN, u)
     else \<exists>u'. recv_packets u rx = Inr (0, u') \<and> inbound u' = inbound u @ rx \<and> length (inbound u') \<le> 128 \<and>
       outbound u' = outbound u"
proof -
  let ?d = "pop_head u - pop_tail u"
  have g: "?d < INBOUND_Q_LEN - of_nat MAX_RX_BURST \<longleftrightarrow> length (inbound u) < 120"
    by (simp add: INBOUND_Q_LEN_def MAX_RX_BURST_def word_less_nat_alt)
  have "length (inbound u) + length rx \<le> 128" if "length (inbound u) < 120"
    using that assms(1) by (simp add: MAX_RX_BURST_def)
  with parse_packets_spec [of u rx] g assms show ?thesis
    by (auto simp: recv_packets_def not_less simp del: length_ring_list)
qed

definition ex_udp :: UdpContext where
  "ex_udp = \<lparr>u_id = 0, u_ip = 0x0100000a, u_port = 6789, u_port_id = 0, remote_port = 0, remote_ip = 0,
     my_mac = (\<lambda>_. 2), remote_mac = (\<lambda>_. 0), mbuf_pool = 8, inbound_queue = (\<lambda>_. 0), pop_tail = 0xffffffff,
     pop_head = 0xffffffff, outbound_queue = (\<lambda>_. 4096), push_tail = 0, push_head = 1\<rparr>"

text \<open>The head wraps around during the call.\<close>

theorem recv_packets_no_overrun_witness:
  "\<exists>u'. recv_packets ex_udp [64, 128, 192] = Inr (0, u') \<and> inbound u' = [64, 128, 192]"
  using recv_packets_no_overrun [of "[64, 128, 192]" ex_udp] by (auto simp: ex_udp_def MAX_RX_BURST_def)

text \<open>
  C12: \<open>send_packets\<close> takes the oldest packets of the outbound ring, at most 8, and offers them to
  the NIC in order.  If the NIC takes them all the result is 0; if it takes fewer, the rest of the
  burst is gone from the ring all the same and the result is \<open>EAGAIN\<close>.
\<close>

theorem send_packets_fifo:
  assumes "push_tail u \<le> push_head u" "NULL \<notin> set (outbound u)"
  shows "\<exists>u' ms'. send_packets u ms tx =
      Inr (let burst = take 8 (outbound u) in
           if burst \<noteq> [] \<and> tx burst < length burst then (EAGAIN, take (tx burst) burst, u', ms')
           else (0, burst, u', ms')) \<and>
     outbound u' = drop 8 (outbound u) \<and> inbound u' = inbound u"
proof -
  obtain u' ms' where r: "send_loop 8 u ms = Inr (take 8 (outbound u), u', ms')"
      "outbound u' = drop 8 (outbound u)" "inbound u' = inbound u"
    using send_loop_spec [OF assms, of 8 ms] by blast
  show ?thesis
    by (rule exI [of _ u'], rule exI [of _ ms'])
       (use r in \<open>auto simp: send_packets_def MAX_TX_BURST_def Let_def simp del: ring_list_eq_Nil length_ring_list\<close>)
qed

definition ex_mbuf :: mbuf where
  "ex_mbuf = \<lparr>pkt_data = (\<lambda>i. if i = 46 then 1 else 0), buf_addr = 0, data_off = 128, l2_len = 0, l3_len = 0,
     l4_len = 12, ol_ip_cksum = False, data_len = 0, pkt_len = 0, nb_segs = 0\<rparr>"

theorem send_packets_fifo_witness:
  "\<exists>u' ms'. send_packets ex_udp (\<lambda>_. ex_mbuf) (\<lambda>_. 0) = Inr (EAGAIN, [], u', ms') \<and> outbound u' = []"
proof -
  have o: "outbound ex_udp = [4096]" by (simp add: ring_list_def ex_udp_def)
  from send_packets_fifo [of ex_udp "\<lambda>_. ex_mbuf" "\<lambda>_. 0"] show ?thesis
    unfolding o by (auto simp: ex_udp_def)
qed

text \<open>
  C13: Every outgoing packet has consistent headers: own MAC, port and address as the source, IPv4
  and UDP type fields, TTL 64, UDP and IP lengths that are the data length plus 8 and plus 28, the
  buffer lengths set to the 42 header bytes plus the data, and the data bytes untouched.
\<close>

theorem prepare_outbound_headers:
  assumes "pkt \<noteq> NULL" "d = ucast (l4_len (ms pkt)) + get32 (pkt_data (ms pkt)) (42 + unat (l4_len (ms pkt)))"
  shows "\<exists>ms' b. prepare_outbound_packet u ms pkt = Inr (0, pkt, ms') \<and> b = pkt_data (ms' pkt) \<and>
     get16 b 12 = htons 0x0800 \<and> b 14 = 0x45 \<and> b 22 = 64 \<and> b 23 = 17 \<and>
     get16 b 16 = htons (ucast (d + 28)) \<and> get16 b 38 = htons (ucast (d + 8)) \<and>
     get32 b 26 = u_ip u \<and> get16 b 34 = htons (u_port u) \<and> map (\<lambda>k. b (6 + k)) [0..<6] = map (my_mac u) [0..<6] \<and>
     pkt_len (ms' pkt) = 42 + d \<and> data_len (ms' pkt) = ucast (42 + d) \<and> nb_segs (ms' pkt) = 1 \<and>
     (\<forall>i \<ge> 42. b i = pkt_data (ms pkt) i) \<and> (\<forall>p. p \<noteq> pkt \<longrightarrow> ms' p = ms p)"
  using assms
  by (simp add: prepare_outbound_packet_def NET_HDR_SIZE_def Let_def out_bytes_fields out_bytes_mac
      RTE_ETHER_TYPE_IPV4_def IP_VHL_DEF_def IP_DEFTTL_def IPPROTO_UDP_def)

theorem prepare_outbound_headers_witness:
  "\<exists>ms'. prepare_outbound_packet ex_udp (\<lambda>_. ex_mbuf) 4096 = Inr (0, 4096, ms') \<and> pkt_len (ms' 4096) = 54 \<and>
     get16 (pkt_data (ms' 4096)) 38 = htons 20"
  using prepare_outbound_headers [of 4096 12 "\<lambda>_. ex_mbuf" ex_udp] by (auto simp: ex_mbuf_def get32_def)

text \<open>
  Where a packet goes.  With a remote MAC set, the destination MAC, port and address are the
  remote ones.  Without one (the server side) the packet goes to the MAC it came from, but with the
  sender's own port and own address as destination: the source fields are overwritten before they
  are copied.
\<close>

theorem prepare_outbound_destination:
  assumes "pkt \<noteq> NULL"
  shows "\<exists>ms' b. prepare_outbound_packet u ms pkt = Inr (0, pkt, ms') \<and> b = pkt_data (ms' pkt) \<and>
     (if is_zero_mac (remote_mac u)
      then map b [0..<6] = map (\<lambda>k. pkt_data (ms pkt) (6 + k)) [0..<6] \<and>
        get16 b 36 = htons (u_port u) \<and> get32 b 30 = u_ip u
      else map b [0..<6] = map (remote_mac u) [0..<6] \<and> get16 b 36 = remote_port u \<and> get32 b 30 = remote_ip u)"
  using assms by (simp add: prepare_outbound_packet_def Let_def out_bytes_dst out_bytes_dst_mac)

theorem prepare_outbound_destination_witness:
  "\<exists>ms'. prepare_outbound_packet ex_udp (\<lambda>_. ex_mbuf) 4096 = Inr (0, 4096, ms') \<and>
     get32 (pkt_data (ms' 4096)) 30 = 0x0100000a"
proof -
  have "is_zero_mac (remote_mac ex_udp)" "u_ip ex_udp = 0x0100000a"
    by (simp_all add: ex_udp_def is_zero_mac_def list_all_iff)
  with prepare_outbound_destination [of 4096 ex_udp "\<lambda>_. ex_mbuf"] show ?thesis by auto
qed

text \<open>
  \<open>poll\<close> stops the process on an idle network: it checks the \<open>EAGAIN\<close> that \<open>recv_packets\<close>
  returns for an empty burst with \<open>PSP_OK\<close>, whose default handler aborts.
\<close>

theorem udp_poll_idle_aborts:
  assumes "length (inbound u) < 120"
  shows "udp_poll u ms [] tx = Inl Panic"
proof -
  have "pop_head u - pop_tail u < INBOUND_Q_LEN - of_nat MAX_RX_BURST"
    using assms by (simp add: INBOUND_Q_LEN_def MAX_RX_BURST_def word_less_nat_alt)
  then show ?thesis by (simp add: udp_poll_def recv_packets_def psp_ok_if)
qed

theorem udp_poll_idle_aborts_witness: "udp_poll ex_udp (\<lambda>_. ex_mbuf) [] length = Inl Panic"
  by (rule udp_poll_idle_aborts) (simp add: ex_udp_def)

end
