(* ===== verification/Scheduler.thy ===== *)
theory Scheduler
  imports Taskqueue
begin

text \<open>
  Scheduling of requests onto workers: \<open>dispatch\<close> and its handlers in
  \<^verbatim>\<open>src/c++/libos/su/dispatch_su.cc\<close>, the worker side of \<open>Worker::main_loop\<close> in
  \<^verbatim>\<open>src/c++/libos/common/Worker.cc\<close>, and the shared slots of \<^verbatim>\<open>include/psp/dispatch.h\<close>.  The dispatcher
  hands a task to worker \<open>i\<close> through \<open>dispatcher_requests[i]\<close> and learns of its end or preemption
  through \<open>worker_responses[i]\<close>; a task is a context with its packet.  A context is a coroutine of
  \<open>simple_generic_work\<close>: switching to it runs it up to its next switch back.
\<close>

section \<open>Shared slots\<close>

definition WAITING :: u64 where "WAITING = 0"
definition ACTIVE :: u64 where "ACTIVE = 1"
definition RUNNING :: u64 where "RUNNING = 0"
definition FINISHED :: u64 where "FINISHED = 1"
definition PREEMPTED :: u64 where "PREEMPTED = 2"
definition PROCESSED :: u64 where "PROCESSED = 3"
definition PACKET :: u8 where "PACKET = 1"
definition CONTEXT :: u8 where "CONTEXT = 2"

lemmas flag_defs = WAITING_def ACTIVE_def RUNNING_def FINISHED_def PREEMPTED_def PROCESSED_def PACKET_def CONTEXT_def

definition MAX_WORKER_SLOTS :: nat where "MAX_WORKER_SLOTS = 32"

record worker_response =
  wr_flag :: u64
  wr_rnbl :: ptr
  wr_mbuf :: ptr
  wr_timestamp :: u64
  wr_type :: u8
  wr_category :: u8

record dispatcher_request =
  dr_flag :: u64
  dr_rnbl :: ptr
  dr_mbuf :: ptr
  dr_type :: u8
  dr_category :: u8
  dr_timestamp :: u64

section \<open>State\<close>

text \<open>A context that was never prepared, one that \<open>makecontext\<close> has set to start
  \<open>simple_generic_work\<close> with its argument, one that switched away at the loop index \<open>i\<close> with counter
  \<open>k\<close>, and one whose function has done its work.\<close>

datatype coro = CNew | CReady ptr | CYield int int ptr | CDone

record bench =
  TEST_START_TIME :: u64
  TEST_END_TIME :: u64
  TEST_RCVD_SMALL_PACKETS :: u64
  TEST_RCVD_BIG_PACKETS :: u64
  TEST_TOTAL_PACKETS_COUNTER :: u64
  TEST_FINISHED :: bool
  IS_FIRST_PACKET :: bool

definition BENCHMARK_STOP_AT_PACKET :: u64 where "BENCHMARK_STOP_AT_PACKET = 100"

datatype DB_REQ_TYPE = DB_PUT | DB_GET | DB_DELETE | DB_ITERATOR | DB_SEEK | DB_CUSTOM

text \<open>
  \<open>freed\<close> lists the packets given to \<open>rte_pktmbuf_free\<close>.  \<open>req_type p\<close> is the type of the request
  in packet \<open>p\<close>.  \<open>conts\<close> and \<open>finished\<close> are the thread-local variables of each worker.
\<close>

record sched =
  tskq :: task_queue
  tmem :: task_mem
  cmem :: ctx_mem
  worker_responses :: "nat \<Rightarrow> worker_response"
  dispatcher_requests :: "nat \<Rightarrow> dispatcher_request"
  timestamps :: "nat \<Rightarrow> u64"
  preempt_check :: "nat \<Rightarrow> bool"
  freed :: "ptr list"
  coros :: "ptr \<Rightarrow> coro"
  req_type :: "ptr \<Rightarrow> DB_REQ_TYPE"
  bench :: bench
  uctx_main :: "nat \<Rightarrow> ptr"
  conts :: "nat \<Rightarrow> ptr"
  finished :: "nat \<Rightarrow> bool"

abbreviation upd_response :: "nat \<Rightarrow> (worker_response \<Rightarrow> worker_response) \<Rightarrow> sched \<Rightarrow> sched" where
  "upd_response i f s \<equiv> s\<lparr>worker_responses := (worker_responses s)(i := f (worker_responses s i))\<rparr>"

abbreviation upd_request :: "nat \<Rightarrow> (dispatcher_request \<Rightarrow> dispatcher_request) \<Rightarrow> sched \<Rightarrow> sched" where
  "upd_request i f s \<equiv> s\<lparr>dispatcher_requests := (dispatcher_requests s)(i := f (dispatcher_requests s i))\<rparr>"

section \<open>The dispatcher\<close>

definition dispatch_request :: "sched \<Rightarrow> nat \<Rightarrow> u64 \<Rightarrow> sched result" where
  "dispatch_request s i cur_time =
     res_bind (tskq_dequeue (tmem s) (tskq s)) (\<lambda>(r, tq, tm).
       let s = s\<lparr>tskq := tq, tmem := tm\<rparr> in
       case r of None \<Rightarrow> Inr s
       | Some (rnbl, mb, ty, cat, ts) \<Rightarrow>
           let s = upd_response i (\<lambda>r. r\<lparr>wr_flag := RUNNING\<rparr>) s;
               s = upd_request i (\<lambda>r. r\<lparr>dr_rnbl := rnbl, dr_mbuf := mb, dr_type := ty, dr_category := cat,
                     dr_timestamp := ts\<rparr>) s;
               s = s\<lparr>timestamps := (timestamps s)(i := cur_time), preempt_check := (preempt_check s)(i := True)\<rparr> in
           Inr (upd_request i (\<lambda>r. r\<lparr>dr_flag := ACTIVE\<rparr>) s))"

definition handle_finished :: "sched \<Rightarrow> nat \<Rightarrow> sched result" where
  "handle_finished s i =
     res_bind (context_free (cmem s) (wr_rnbl (worker_responses s i))) (\<lambda>cm.
       let s = s\<lparr>cmem := cm, freed := freed s @ [wr_mbuf (worker_responses s i)],
                 preempt_check := (preempt_check s)(i := False)\<rparr> in
       Inr (upd_response i (\<lambda>r. r\<lparr>wr_flag := PROCESSED\<rparr>) s))"

definition handle_preempted :: "sched \<Rightarrow> nat \<Rightarrow> sched result" where
  "handle_preempted s i =
     (let r = worker_responses s i in
      res_bind (tskq_enqueue_tail (tmem s) (tskq s)
          (wr_rnbl r, wr_mbuf r, wr_type r, wr_category r, wr_timestamp r)) (\<lambda>(tq, tm).
        let s = s\<lparr>tskq := tq, tmem := tm, preempt_check := (preempt_check s)(i := False)\<rparr> in
        Inr (upd_response i (\<lambda>r. r\<lparr>wr_flag := PROCESSED\<rparr>) s)))"

text \<open>The body of the loop of \<open>dispatch\<close>, and the loop.\<close>

definition dispatch_worker :: "sched \<Rightarrow> nat \<Rightarrow> u64 \<Rightarrow> sched result" where
  "dispatch_worker s i cur_tsc =
     (if MAX_WORKER_SLOTS \<le> i then Inl OutOfBounds
      else
        let flag = wr_flag (worker_responses s i) in
        if flag \<noteq> RUNNING then
          res_bind (if flag = FINISHED then handle_finished s i
                    else if flag = PREEMPTED then handle_preempted s i
                    else Inr s) (\<lambda>s. dispatch_request s i cur_tsc)
        else Inr s)"

fun dispatch_loop :: "sched \<Rightarrow> nat list \<Rightarrow> u64 \<Rightarrow> sched result" where
  "dispatch_loop s [] cur_tsc = Inr s"
| "dispatch_loop s (i # is) cur_tsc = res_bind (dispatch_worker s i cur_tsc) (\<lambda>s. dispatch_loop s is cur_tsc)"

definition dispatch :: "sched \<Rightarrow> nat \<Rightarrow> u64 \<Rightarrow> (int \<times> sched) result" where
  "dispatch s n_peers cur_tsc = res_bind (dispatch_loop s [1..<n_peers + 1] cur_tsc) (\<lambda>s. Inr (0, s))"

section \<open>The worker\<close>

definition init_worker :: "sched \<Rightarrow> nat \<Rightarrow> sched" where
  "init_worker s worker_id = upd_response 1 (\<lambda>r. r\<lparr>wr_flag := PROCESSED\<rparr>) s"

definition finish_request :: "sched \<Rightarrow> nat \<Rightarrow> sched" where
  "finish_request s w =
     (let q = dispatcher_requests s w;
          s = upd_response w (\<lambda>r. r\<lparr>wr_timestamp := dr_timestamp q, wr_type := dr_type q, wr_mbuf := dr_mbuf q,
                wr_rnbl := conts s w, wr_category := CONTEXT\<rparr>) s in
      if finished s w = True then upd_response w (\<lambda>r. r\<lparr>wr_flag := FINISHED\<rparr>) s
      else upd_response w (\<lambda>r. r\<lparr>wr_flag := PREEMPTED\<rparr>) s)"

text \<open>
  The loop of \<open>simple_generic_work\<close> from index \<open>i\<close> with counter \<open>k\<close>: where it switches away, or
  \<open>None\<close> when it ends.
\<close>

function work_loop :: "int \<Rightarrow> int \<Rightarrow> (int \<times> int) option" where
  "work_loop i k = (if i < 4 then if k = 2 then Some (i, k) else work_loop (i + 1) (k + 1) else None)"
  by pat_completeness auto
termination by (relation "measure (\<lambda>(i, k). nat (4 - i))") auto

declare work_loop.simps [simp del]

text \<open>The rest of the function, up to its last switch; \<open>now\<close> is what \<open>get_us\<close> returns.\<close>

definition work_end :: "bench \<Rightarrow> DB_REQ_TYPE \<Rightarrow> u64 \<Rightarrow> bench" where
  "work_end b ty now =
     (let b = b\<lparr>TEST_TOTAL_PACKETS_COUNTER := TEST_TOTAL_PACKETS_COUNTER b + 1\<rparr>;
          b = (if TEST_TOTAL_PACKETS_COUNTER b = BENCHMARK_STOP_AT_PACKET
               then b\<lparr>TEST_END_TIME := now, TEST_FINISHED := True\<rparr> else b) in
      if ty = DB_GET \<or> ty = DB_PUT then b\<lparr>TEST_RCVD_SMALL_PACKETS := TEST_RCVD_SMALL_PACKETS b + 1\<rparr>
      else b\<lparr>TEST_RCVD_BIG_PACKETS := TEST_RCVD_BIG_PACKETS b + 1\<rparr>)"

definition simple_generic_work :: "sched \<Rightarrow> nat \<Rightarrow> int \<Rightarrow> int \<Rightarrow> ptr \<Rightarrow> u64 \<Rightarrow> sched" where
  "simple_generic_work s w i k req now =
     (case work_loop i k of
        Some (i, k) \<Rightarrow> s\<lparr>coros := (coros s)(conts s w := CYield i k req)\<rparr>
      | None \<Rightarrow> s\<lparr>bench := work_end (bench s) (req_type s req) now, finished := (finished s)(w := True),
          coros := (coros s)(conts s w := CDone)\<rparr>)"

text \<open>
  \<open>makecontext\<close> of the C library makes the context ready to start the function with its argument
  (the request in packet \<open>req\<close>).  Switching to a context (\<open>swapcontext_very_fast\<close>,
  \<open>swapcontext_fast\<close>) runs it up to its next switch back: from the start of the function, or from the
  increments after its last switch.  Switching to any other context is undefined.  Registers and the
  frames the function has on its stack are not part of the model.
\<close>

definition makecontext :: "sched \<Rightarrow> nat \<Rightarrow> ptr \<Rightarrow> sched" where
  "makecontext s w req = s\<lparr>coros := (coros s)(conts s w := CReady req)\<rparr>"

definition swapcontext :: "sched \<Rightarrow> nat \<Rightarrow> u64 \<Rightarrow> sched result" where
  "swapcontext s w now =
     (case coros s (conts s w) of
        CReady req \<Rightarrow> Inr (simple_generic_work s w 0 0 req now)
      | CYield i k req \<Rightarrow> Inr (simple_generic_work s w (i + 1) (k + 1) req now)
      | _ \<Rightarrow> Inl Panic)"

definition handle_fake_new_packet :: "sched \<Rightarrow> nat \<Rightarrow> u64 \<Rightarrow> sched result" where
  "handle_fake_new_packet s w now =
     (let pkt = dr_mbuf (dispatcher_requests s w) in
      if pkt = NULL then Inl NullDeref
      else
        let s = s\<lparr>conts := (conts s)(w := dr_rnbl (dispatcher_requests s w))\<rparr> in
        res_bind (set_context_link (cmem s) (conts s w) (uctx_main s w)) (\<lambda>cm.
          let s = makecontext (s\<lparr>cmem := cm\<rparr>) w pkt;
              s = s\<lparr>finished := (finished s)(w := False)\<rparr> in
          swapcontext s w now))"

definition handle_context :: "sched \<Rightarrow> nat \<Rightarrow> u64 \<Rightarrow> sched result" where
  "handle_context s w now =
     (let s = s\<lparr>finished := (finished s)(w := False),
                conts := (conts s)(w := dr_rnbl (dispatcher_requests s w))\<rparr> in
      res_bind (set_context_link (cmem s) (conts s w) (uctx_main s w)) (\<lambda>cm.
        swapcontext (s\<lparr>cmem := cm\<rparr>) w now))"

text \<open>The first packet of a run starts the benchmark clock.\<close>

definition first_packet :: "bench \<Rightarrow> u64 \<Rightarrow> bench" where
  "first_packet b now =
     (if \<not> IS_FIRST_PACKET b then b\<lparr>TEST_START_TIME := now, IS_FIRST_PACKET := True\<rparr> else b)"

text \<open>One round of the worker loop after the wait: the request is taken and its context run.\<close>

definition worker_run :: "sched \<Rightarrow> nat \<Rightarrow> u64 \<Rightarrow> sched result" where
  "worker_run s w now =
     (let s = upd_request w (\<lambda>r. r\<lparr>dr_flag := WAITING\<rparr>) s in
      if dr_category (dispatcher_requests s w) = PACKET then
        let s = s\<lparr>bench := first_packet (bench s) now\<rparr> in
        handle_fake_new_packet s w now
      else handle_context s w now)"

definition worker_round :: "sched \<Rightarrow> nat \<Rightarrow> u64 \<Rightarrow> sched result" where
  "worker_round s w now = res_bind (worker_run s w now) (\<lambda>s. Inr (finish_request s w))"

section \<open>Arrival of a packet\<close>

text \<open>
  What \<open>NetWorker::work\<close> does with a packet of the inbound ring; \<open>False\<close> when no context is left.
\<close>

definition net_accept :: "sched \<Rightarrow> ptr \<Rightarrow> u64 \<Rightarrow> (bool \<times> sched) result" where
  "net_accept s mb cur_tsc =
     res_bind (context_alloc (cmem s)) (\<lambda>(ret, c, cm).
       let s = s\<lparr>cmem := cm\<rparr> in
       if ret \<noteq> 0 then Inr (False, s)
       else
         res_bind (tskq_enqueue_tail (tmem s) (tskq s) (c, mb, 1, 1, cur_tsc)) (\<lambda>(tq, tm).
           Inr (True, s\<lparr>tskq := tq, tmem := tm\<rparr>)))"

section \<open>Quanta\<close>

lemma work_loop_start: "work_loop 0 0 = Some (2, 2)"
  by (simp add: work_loop.simps)

lemma work_loop_resume: "work_loop 3 3 = None"
  by (simp add: work_loop.simps)

section \<open>Live contexts as a multiset\<close>

definition ctx_live :: "ctx_mem \<Rightarrow> ptr multiset \<Rightarrow> bool" where
  "ctx_live cm M \<longleftrightarrow> (\<exists>L. mset L = M \<and> ctx_wf cm L \<and> (\<forall>c \<in> set L. ss_size (contexts cm c) = 8))"

lemma ctx_liveI: "ctx_wf cm L \<Longrightarrow> \<forall>c \<in> set L. ss_size (contexts cm c) = 8 \<Longrightarrow> mset L = M \<Longrightarrow> ctx_live cm M"
  by (auto simp: ctx_live_def)

abbreviation ctx_cap :: "ctx_mem \<Rightarrow> nat" where
  "ctx_cap cm \<equiv> unat (capacity (context_pool cm))"

lemma mempool_alloc_capacity: "mempool_alloc m = Inr (x, m') \<Longrightarrow> capacity m' = capacity m"
  by (auto simp: mempool_alloc_def split: if_splits)

lemma mempool_free_capacity: "mempool_free m x = Inr m' \<Longrightarrow> capacity m' = capacity m"
  by (auto simp: mempool_free_def Let_def split: if_splits)

lemma context_alloc_cap: "context_alloc cm = Inr (r, c, cm') \<Longrightarrow> ctx_cap cm' = ctx_cap cm"
  by (auto simp: context_alloc_def res_bind_eq_Inr split: if_splits
      dest!: mempool_alloc_capacity mempool_free_capacity)

lemma context_free_cap: "context_free cm c = Inr cm' \<Longrightarrow> ctx_cap cm' = ctx_cap cm"
  by (auto simp: context_free_def res_bind_eq_Inr split: if_splits dest!: mempool_free_capacity)

lemma ctx_live_size: "ctx_live cm M \<Longrightarrow> size M \<le> ctx_cap cm"
  by (auto simp: ctx_live_def ctx_wf_def)

lemma ctx_live_distinct: "ctx_live cm (add_mset c M) \<Longrightarrow> c \<notin># M \<and> c \<noteq> NULL"
proof -
  assume "ctx_live cm (add_mset c M)"
  then obtain L where L: "mset L = add_mset c M" "distinct L" "NULL \<notin> set L"
    by (auto simp: ctx_live_def ctx_wf_def)
  have "count (mset L) c \<le> 1" using L(2) by (simp add: distinct_count_atmost_1)
  moreover have "c \<in> set L" using L(1) by (metis set_mset_mset union_single_eq_member)
  ultimately show ?thesis using L(1,3) by (auto simp: count_eq_zero_iff)
qed

lemma ctx_live_alloc:
  assumes "ctx_live cm M"
  shows "(\<exists>c cm'. context_alloc cm = Inr (0, c, cm') \<and> ctx_live cm' (add_mset c M)) \<or>
     (\<exists>c cm'. context_alloc cm = Inr (-1, c, cm') \<and> ctx_live cm' M)"
proof -
  obtain L where L: "mset L = M" "ctx_wf cm L" "\<forall>c \<in> set L. ss_size (contexts cm c) = 8"
    using assms by (auto simp: ctx_live_def)
  show ?thesis
  proof (cases "mp_avail (context_pool cm) = [] \<or> mp_avail (stack_pool cm) = []")
    case True
    with context_alloc_fail [OF L(2)] L(1,3) show ?thesis by (metis ctx_liveI)
  next
    case False
    then obtain c cs s ss where "mp_avail (context_pool cm) = c # cs" "mp_avail (stack_pool cm) = s # ss"
      by (meson list.exhaust)
    with context_alloc_ok [OF L(2)] obtain cm' where cm': "context_alloc cm = Inr (0, c, cm')" "ctx_wf cm' (c # L)"
        "contexts cm' = (contexts cm)(c := (contexts cm c)\<lparr>ss_sp := s, ss_size := 8\<rparr>)"
      by blast
    moreover have "mset (c # L) = add_mset c M" using L(1) by simp
    moreover have "\<forall>x \<in> set (c # L). ss_size (contexts cm' x) = 8" using L(3) cm'(3) by simp
    ultimately show ?thesis by (blast intro: ctx_liveI)
  qed
qed

lemma ctx_live_free:
  assumes "ctx_live cm (add_mset c M)"
  shows "\<exists>cm'. context_free cm c = Inr cm' \<and> ctx_live cm' M"
proof -
  obtain L where L: "mset L = add_mset c M" "ctx_wf cm L" "\<forall>c \<in> set L. ss_size (contexts cm c) = 8"
    using assms by (auto simp: ctx_live_def)
  then have "c \<in> set L" by (metis set_mset_mset union_single_eq_member)
  with context_free_ok [OF L(2)] obtain cm' where cm': "context_free cm c = Inr cm'" "ctx_wf cm' (remove1 c L)"
      "contexts cm' = contexts cm" by blast
  moreover have "mset (remove1 c L) = M" using L(1) by simp
  moreover have "\<forall>x \<in> set (remove1 c L). ss_size (contexts cm' x) = 8"
    using L(3) cm'(3) using set_remove1_subset by fastforce
  ultimately show ?thesis by (blast intro: ctx_liveI)
qed

lemma ctx_live_link:
  assumes "ctx_live cm (add_mset c M)"
  shows "\<exists>cm'. set_context_link cm c l = Inr cm' \<and> ctx_live cm' (add_mset c M) \<and> ctx_cap cm' = ctx_cap cm"
proof -
  let ?cm = "cm\<lparr>contexts := (contexts cm)(c := (contexts cm c)\<lparr>uc_link := l\<rparr>),
     stack_mem := (stack_mem cm)(link_slot (contexts cm c) := l)\<rparr>"
  obtain L where L: "mset L = add_mset c M" "ctx_wf cm L" "\<forall>c \<in> set L. ss_size (contexts cm c) = 8"
    using assms by (auto simp: ctx_live_def)
  then have "c \<in> set L" by (metis set_mset_mset union_single_eq_member)
  then have "\<not> unat STACK_SIZE < unat (link_slot (contexts cm c) - ss_sp (contexts cm c)) + 8"
    using link_slot_in_stack [of "contexts cm c"] L(3) by (simp add: not_less)
  moreover have "ss_sp (contexts ?cm a) = ss_sp (contexts cm a)" "ss_size (contexts ?cm a) = ss_size (contexts cm a)"
    for a by simp_all
  then have "ctx_wf ?cm L" "\<forall>c \<in> set L. ss_size (contexts ?cm c) = 8" using L(2,3) by (simp_all add: ctx_wf_def)
  then have "ctx_live ?cm (add_mset c M)" using L(1) by (blast intro: ctx_liveI)
  moreover have "c \<noteq> NULL" using ctx_live_distinct [OF assms] by simp
  ultimately show ?thesis by (simp add: set_context_link_def)
qed

end
