(* ===== verification/Sched_System.thy ===== *)
theory Sched_System
  imports Scheduler
begin

text \<open>
  The dispatcher and the workers as one system: the step relation of their interleavings, the
  invariant that every request is in exactly one place (queued, assigned, running or reported),
  and what follows for every reachable state.
\<close>

section \<open>The system of dispatcher and workers\<close>

text \<open>
  The network thread and the workers interleave.  A worker takes a request when its flag is set
  (\<open>run\<close>), runs its context, and reports (\<open>report\<close>); in between \<open>busy\<close> holds.  The network thread
  accepts packets (\<open>arrive\<close>, \<open>refuse\<close>) and runs the body of the dispatch loop for one worker
  (\<open>dispatch\<close>).  \<open>accepted\<close> records the packets that entered.
\<close>

record system =
  core :: sched
  busy :: "nat \<Rightarrow> bool"
  accepted :: "ptr list"

inductive sys_step :: "nat \<Rightarrow> system \<Rightarrow> system \<Rightarrow> bool" for n :: nat where
  arrive: "net_accept (core S) mb t = Inr (True, s) \<Longrightarrow> mb \<noteq> NULL \<Longrightarrow>
     sys_step n S (S\<lparr>core := s, accepted := accepted S @ [mb]\<rparr>)"
| refuse: "net_accept (core S) mb t = Inr (False, s) \<Longrightarrow> sys_step n S (S\<lparr>core := s\<rparr>)"
| dispatch: "1 \<le> i \<Longrightarrow> i \<le> n \<Longrightarrow> dispatch_worker (core S) i t = Inr s \<Longrightarrow> sys_step n S (S\<lparr>core := s\<rparr>)"
| run: "1 \<le> w \<Longrightarrow> w \<le> n \<Longrightarrow> \<not> busy S w \<Longrightarrow> dr_flag (dispatcher_requests (core S) w) \<noteq> WAITING \<Longrightarrow>
     worker_run (core S) w t = Inr s \<Longrightarrow> sys_step n S (S\<lparr>core := s, busy := (busy S)(w := True)\<rparr>)"
| report: "1 \<le> w \<Longrightarrow> w \<le> n \<Longrightarrow> busy S w \<Longrightarrow>
     sys_step n S (S\<lparr>core := finish_request (core S) w, busy := (busy S)(w := False)\<rparr>)"

section \<open>Where the requests are\<close>

definition tok :: "task_data \<Rightarrow> ptr \<times> ptr" where
  "tok d = (fst d, fst (snd d))"

abbreviation queue_of :: "sched \<Rightarrow> task_data list" where
  "queue_of s \<equiv> tskq_contents (tskq s, tmem s)"

text \<open>The task a worker's slots hold: assigned, being run, preempted or finished.\<close>

definition slot :: "system \<Rightarrow> nat \<Rightarrow> (ptr \<times> ptr) multiset" where
  "slot S w =
     (let r = worker_responses (core S) w; q = dispatcher_requests (core S) w in
      if wr_flag r = FINISHED \<or> wr_flag r = PREEMPTED then {#(wr_rnbl r, wr_mbuf r)#}
      else if wr_flag r = RUNNING \<and> (busy S w \<or> dr_flag q = ACTIVE) then {#(dr_rnbl q, dr_mbuf q)#}
      else {#})"

definition others :: "nat \<Rightarrow> system \<Rightarrow> nat \<Rightarrow> (ptr \<times> ptr) multiset" where
  "others n S w = mset (map tok (queue_of (core S))) + (\<Sum>v \<in> {1..n} - {w}. slot S v)"

definition inflight :: "nat \<Rightarrow> system \<Rightarrow> (ptr \<times> ptr) multiset" where
  "inflight n S = mset (map tok (queue_of (core S))) + (\<Sum>v \<in> {1..n}. slot S v)"

lemma inflight_split: "w \<in> {1..n} \<Longrightarrow> inflight n S = slot S w + others n S w"
  using sum.remove [of "{1..n}" w "slot S"] by (simp add: inflight_def others_def ac_simps)

section \<open>Invariant\<close>

text \<open>A packet has not been started yet; a context is suspended at its only switch point.\<close>

definition task_ok :: "(ptr \<Rightarrow> coro) \<Rightarrow> task_data \<Rightarrow> bool" where
  "task_ok co d \<longleftrightarrow> (case d of (rnbl, mb, ty, cat, ts) \<Rightarrow>
     mb \<noteq> NULL \<and> (cat = PACKET \<or> cat = CONTEXT \<and> co rnbl = CYield 2 2 mb))"

definition req_data :: "dispatcher_request \<Rightarrow> task_data" where
  "req_data q = (dr_rnbl q, dr_mbuf q, dr_type q, dr_category q, dr_timestamp q)"

definition resp_data :: "worker_response \<Rightarrow> task_data" where
  "resp_data r = (wr_rnbl r, wr_mbuf r, wr_type r, wr_category r, wr_timestamp r)"

definition slot_ok :: "system \<Rightarrow> nat \<Rightarrow> bool" where
  "slot_ok S w \<longleftrightarrow>
     (let s = core S; r = worker_responses s w; q = dispatcher_requests s w in
      wr_flag r \<in> {RUNNING, FINISHED, PREEMPTED, PROCESSED} \<and>
      (wr_flag r \<noteq> RUNNING \<longrightarrow> dr_flag q = WAITING \<and> \<not> busy S w) \<and>
      (busy S w \<longrightarrow> dr_flag q = WAITING \<and> conts s w = dr_rnbl q \<and> dr_mbuf q \<noteq> NULL \<and>
         coros s (dr_rnbl q) = (if finished s w then CDone else CYield 2 2 (dr_mbuf q))) \<and>
      (dr_flag q \<noteq> WAITING \<longrightarrow> dr_flag q = ACTIVE \<and> task_ok (coros s) (req_data q)) \<and>
      (wr_flag r = PREEMPTED \<longrightarrow> task_ok (coros s) (resp_data r)))"

definition sys_inv :: "nat \<Rightarrow> system \<Rightarrow> bool" where
  "sys_inv n S \<longleftrightarrow>
     n < MAX_WORKER_SLOTS \<and> tskq_wf (tskq (core S), tmem (core S)) \<and>
     ctx_cap (cmem (core S)) \<le> tskq_bound (tskq (core S), tmem (core S)) \<and>
     ctx_live (cmem (core S)) (image_mset fst (inflight n S)) \<and>
     mset (accepted S) = mset (freed (core S)) + image_mset snd (inflight n S) \<and>
     (\<forall>w \<in> {1..n}. slot_ok S w) \<and> (\<forall>d \<in> set (queue_of (core S)). task_ok (coros (core S)) d)"

lemma flags_distinct [simp]:
  "RUNNING \<noteq> FINISHED" "RUNNING \<noteq> PREEMPTED" "RUNNING \<noteq> PROCESSED" "FINISHED \<noteq> PREEMPTED"
  "FINISHED \<noteq> PROCESSED" "PREEMPTED \<noteq> PROCESSED" "FINISHED \<noteq> RUNNING" "PREEMPTED \<noteq> RUNNING"
  "PROCESSED \<noteq> RUNNING" "PREEMPTED \<noteq> FINISHED" "PROCESSED \<noteq> FINISHED" "PROCESSED \<noteq> PREEMPTED"
  "WAITING \<noteq> ACTIVE" "ACTIVE \<noteq> WAITING" "PACKET \<noteq> CONTEXT" "CONTEXT \<noteq> PACKET"
  by (simp_all add: flag_defs)

lemma slot_cong:
  assumes "worker_responses (core S') v = worker_responses (core S) v"
    "dispatcher_requests (core S') v = dispatcher_requests (core S) v" "busy S' v = busy S v"
  shows "slot S' v = slot S v"
  using assms by (simp add: slot_def Let_def)

lemma slot_ok_coro:
  assumes "slot_ok S v" "worker_responses (core S') v = worker_responses (core S) v"
    "dispatcher_requests (core S') v = dispatcher_requests (core S) v" "busy S' v = busy S v"
    "conts (core S') v = conts (core S) v" "finished (core S') v = finished (core S) v"
    and "\<And>c. c \<in># image_mset fst (slot S v) \<Longrightarrow> coros (core S') c = coros (core S) c"
  shows "slot_ok S' v"
proof -
  let ?r = "worker_responses (core S) v" and ?q = "dispatcher_requests (core S) v"
  have "coros (core S') (dr_rnbl ?q) = coros (core S) (dr_rnbl ?q)" if "busy S v \<or> dr_flag ?q \<noteq> WAITING"
    by (rule assms(7)) (use that assms(1) in \<open>auto simp: slot_def slot_ok_def Let_def\<close>)
  moreover have "coros (core S') (wr_rnbl ?r) = coros (core S) (wr_rnbl ?r)" if "wr_flag ?r = PREEMPTED"
    by (rule assms(7)) (use that in \<open>simp add: slot_def Let_def\<close>)
  ultimately show ?thesis
    using assms(1-6) by (auto simp: slot_ok_def Let_def task_ok_def req_data_def resp_data_def)
qed

lemma others_cong:
  assumes "queue_of (core S') = queue_of (core S)" "\<And>v. v \<noteq> w \<Longrightarrow> slot S' v = slot S v"
  shows "others n S' w = others n S w"
  using assms by (simp add: others_def)

lemma sys_inv_slots:
  assumes "sys_inv n S" "w \<in> {1..n}"
  shows "slot_ok S w" "w < MAX_WORKER_SLOTS" "ctx_live (cmem (core S)) (image_mset fst (slot S w + others n S w))"
    "mset (accepted S) = mset (freed (core S)) + image_mset snd (slot S w + others n S w)"
  using assms by (auto simp: sys_inv_def inflight_split [OF assms(2), symmetric])

lemma sys_inv_parts:
  assumes "sys_inv n S"
  shows "tskq_wf (tskq (core S), tmem (core S))"
    and "ctx_cap (cmem (core S)) \<le> tskq_bound (tskq (core S), tmem (core S))"
    and "\<And>d. d \<in> set (queue_of (core S)) \<Longrightarrow> task_ok (coros (core S)) d"
  using assms by (simp_all add: sys_inv_def)

text \<open>What an operation on the slots of worker \<open>w\<close> has to establish.\<close>

lemma sys_inv_intro:
  assumes "sys_inv n S" "w \<in> {1..n}"
    and "tskq_wf (tskq (core S'), tmem (core S'))"
    and "ctx_cap (cmem (core S')) \<le> tskq_bound (tskq (core S'), tmem (core S'))"
    and "ctx_live (cmem (core S')) (image_mset fst (slot S' w + others n S' w))"
    and "mset (accepted S') = mset (freed (core S')) + image_mset snd (slot S' w + others n S' w)"
    and "slot_ok S' w" "\<And>v. v \<in> {1..n} \<Longrightarrow> v \<noteq> w \<Longrightarrow> slot_ok S' v"
    and "\<And>d. d \<in> set (queue_of (core S')) \<Longrightarrow> task_ok (coros (core S')) d"
  shows "sys_inv n S'"
proof -
  have "slot_ok S' v" if "v \<in> {1..n}" for v using that assms(7,8) by (cases "v = w") auto
  then show ?thesis
    using assms(1,3-6,9) unfolding sys_inv_def inflight_split [OF assms(2)] by blast
qed

section \<open>Every operation keeps the invariant\<close>

lemma dispatch_request_Nil:
  assumes "tskq_wf (tskq s, tmem s)" "queue_of s = []"
  shows "dispatch_request s i t = Inr s"
  using tq.deq_none [OF assms] by (simp add: tskq_deq_def dispatch_request_def)

lemma dispatch_request_Cons:
  assumes wf: "tskq_wf (tskq s, tmem s)" and q: "queue_of s = d # ds"
  obtains s' q where "dispatch_request s i t = Inr s'" "queue_of s' = ds" "tskq_wf (tskq s', tmem s')"
    "tskq_bound (tskq s', tmem s') = tskq_bound (tskq s, tmem s)" "cmem s' = cmem s"
    "freed s' = freed s" "coros s' = coros s" "conts s' = conts s" "finished s' = finished s" "bench s' = bench s"
    "worker_responses s' = (worker_responses s)(i := (worker_responses s i)\<lparr>wr_flag := RUNNING\<rparr>)"
    "dispatcher_requests s' = (dispatcher_requests s)(i := q)" "dr_flag q = ACTIVE" "req_data q = d"
proof -
  from tq.deq_some [OF wf q] obtain tq tm
    where q: "tskq_dequeue (tmem s) (tskq s) = Inr (Some d, tq, tm)" "tskq_contents (tq, tm) = ds"
      "tskq_bound (tq, tm) = tskq_bound (tskq s, tmem s)" "tskq_wf (tq, tm)"
    by (auto simp: tskq_deq_def)
  obtain rnbl mb ty cat ts where d: "d = (rnbl, mb, ty, cat, ts)" by (cases d)
  obtain s' where s': "dispatch_request s i t = Inr s'" "tskq s' = tq" "tmem s' = tm" "cmem s' = cmem s"
      "freed s' = freed s" "coros s' = coros s" "conts s' = conts s" "finished s' = finished s" "bench s' = bench s"
      "worker_responses s' = (worker_responses s)(i := (worker_responses s i)\<lparr>wr_flag := RUNNING\<rparr>)"
      "dispatcher_requests s' = (dispatcher_requests s)(i := (dispatcher_requests s i)\<lparr>dr_rnbl := rnbl, dr_mbuf := mb,
         dr_type := ty, dr_category := cat, dr_timestamp := ts, dr_flag := ACTIVE\<rparr>)"
    by (simp add: dispatch_request_def q d Let_def)
  show ?thesis by (rule that [OF s'(1) _ _ _ s'(4-11)]) (simp_all add: s'(2,3) q d req_data_def)
qed

lemma slot_active:
  assumes "wr_flag (worker_responses (core S) w) = RUNNING" "dr_flag (dispatcher_requests (core S) w) = ACTIVE"
  shows "slot S w = {#tok (req_data (dispatcher_requests (core S) w))#}"
  using assms by (simp add: slot_def Let_def tok_def req_data_def)

lemma dispatch_request_inv:
  assumes inv: "sys_inv n S" and i: "i \<in> {1..n}" and idle: "wr_flag (worker_responses (core S) i) = PROCESSED"
  shows "\<exists>s. dispatch_request (core S) i t = Inr s \<and> sys_inv n (S\<lparr>core := s\<rparr>) \<and> queue_of s = tl (queue_of (core S)) \<and>
     (\<forall>v. v \<noteq> i \<longrightarrow> worker_responses s v = worker_responses (core S) v) \<and>
     wr_flag (worker_responses s i) = (if queue_of (core S) = [] then PROCESSED else RUNNING)"
proof (cases "queue_of (core S)")
  case Nil
  then show ?thesis using inv idle dispatch_request_Nil [OF sys_inv_parts(1) [OF inv] Nil] by simp
next
  case (Cons d ds)
  let ?s = "core S"
  obtain s q where s: "dispatch_request ?s i t = Inr s" "queue_of s = ds" "tskq_wf (tskq s, tmem s)"
      "tskq_bound (tskq s, tmem s) = tskq_bound (tskq ?s, tmem ?s)" "cmem s = cmem ?s"
      "freed s = freed ?s" "coros s = coros ?s" "conts s = conts ?s" "finished s = finished ?s" "bench s = bench ?s"
      "worker_responses s = (worker_responses ?s)(i := (worker_responses ?s i)\<lparr>wr_flag := RUNNING\<rparr>)"
      "dispatcher_requests s = (dispatcher_requests ?s)(i := q)" "dr_flag q = ACTIVE" "req_data q = d"
    by (rule dispatch_request_Cons [OF sys_inv_parts(1) [OF inv] Cons, of i t])
  let ?S = "S\<lparr>core := s\<rparr>"
  have nb: "\<not> busy S i" using sys_inv_slots(1) [OF inv i] idle by (auto simp: slot_ok_def Let_def)
  have slot: "slot S i = {#}" "slot ?S i = {#tok d#}"
    using idle nb s(11-14) slot_active [of ?S i] by (simp_all add: slot_def Let_def)
  have "slot ?S v = slot S v" if "v \<noteq> i" for v using that s(11,12) by (intro slot_cong) simp_all
  then have oth: "others n S i = add_mset (tok d) (others n ?S i)"
    using Cons s(2) by (simp add: others_def)
  have "task_ok (coros ?s) d" using sys_inv_parts(3) [OF inv] Cons by simp
  then have "slot_ok ?S i" using nb s(7,11-14) by (simp add: slot_ok_def)
  moreover have "slot_ok ?S v" if "v \<in> {1..n}" "v \<noteq> i" for v
    by (rule slot_ok_coro [OF sys_inv_slots(1) [OF inv that(1)]]) (use that s(7-12) in simp_all)
  ultimately have "sys_inv n ?S"
    using sys_inv_parts [OF inv] sys_inv_slots(3,4) [OF inv i] s(2-7) slot oth Cons
    by - (rule sys_inv_intro [OF inv i], simp_all)
  then show ?thesis using s(1,2,11) Cons by auto
qed

lemma handle_finished_inv:
  assumes inv: "sys_inv n S" and i: "i \<in> {1..n}" and fin: "wr_flag (worker_responses (core S) i) = FINISHED"
  shows "\<exists>s. handle_finished (core S) i = Inr s \<and> sys_inv n (S\<lparr>core := s\<rparr>) \<and> queue_of s = queue_of (core S) \<and>
     (\<forall>v. v \<noteq> i \<longrightarrow> worker_responses s v = worker_responses (core S) v) \<and>
     wr_flag (worker_responses s i) = PROCESSED \<and> freed s = freed (core S) @ [wr_mbuf (worker_responses (core S) i)] \<and>
     bench s = bench (core S)"
proof -
  let ?s = "core S" and ?r = "worker_responses (core S) i"
  have ok: "slot_ok S i" using sys_inv_slots(1) [OF inv i] .
  have sl: "slot S i = {#(wr_rnbl ?r, wr_mbuf ?r)#}" using fin by (simp add: slot_def Let_def)
  have "ctx_live (cmem ?s) (add_mset (wr_rnbl ?r) (image_mset fst (others n S i)))"
    using sys_inv_slots(3) [OF inv i] sl by simp
  from ctx_live_free [OF this] obtain cm where cm: "context_free (cmem ?s) (wr_rnbl ?r) = Inr cm"
      "ctx_live cm (image_mset fst (others n S i))" by blast
  define s where "s = ?s\<lparr>cmem := cm, freed := freed ?s @ [wr_mbuf ?r], preempt_check := (preempt_check ?s)(i := False),
      worker_responses := (worker_responses ?s)(i := ?r\<lparr>wr_flag := PROCESSED\<rparr>)\<rparr>"
  let ?S = "S\<lparr>core := s\<rparr>"
  have s: "handle_finished ?s i = Inr s" by (simp add: handle_finished_def cm Let_def s_def)
  have oth: "others n ?S i = others n S i"
    by (intro others_cong slot_cong) (simp_all add: s_def)
  have "slot ?S i = {#}" by (simp add: slot_def Let_def s_def)
  moreover have "slot_ok ?S i" using ok fin by (simp add: slot_ok_def Let_def s_def)
  moreover have "slot_ok ?S v" if "v \<in> {1..n}" "v \<noteq> i" for v
    by (rule slot_ok_coro [OF sys_inv_slots(1) [OF inv that(1)]]) (use that in \<open>simp_all add: s_def\<close>)
  ultimately have "sys_inv n ?S"
    using sys_inv_parts [OF inv] sys_inv_slots(4) [OF inv i] oth sl cm(2) context_free_cap [OF cm(1)]
    by - (rule sys_inv_intro [OF inv i], simp_all add: s_def)
  then show ?thesis using s by (intro exI [of _ s]) (simp add: s_def)
qed

text \<open>There is always a cell for a task that comes back: every queued task has a context of its own.\<close>

lemma queue_room:
  assumes "sys_inv n S" "i \<in> {1..n}" "slot S i \<noteq> {#}"
  shows "length (queue_of (core S)) < tskq_bound (tskq (core S), tmem (core S))"
proof -
  have "size (slot S i + others n S i) \<le> ctx_cap (cmem (core S))"
    using ctx_live_size [OF sys_inv_slots(3) [OF assms(1,2)]] by simp
  moreover have "length (queue_of (core S)) \<le> size (others n S i)" by (simp add: others_def)
  moreover have "0 < size (slot S i)" using assms(3) by (simp add: nonempty_has_size)
  ultimately show ?thesis using assms(1) by (simp add: sys_inv_def)
qed

lemma handle_preempted_inv:
  assumes inv: "sys_inv n S" and i: "i \<in> {1..n}" and pre: "wr_flag (worker_responses (core S) i) = PREEMPTED"
  shows "\<exists>s. handle_preempted (core S) i = Inr s \<and> sys_inv n (S\<lparr>core := s\<rparr>) \<and>
     queue_of s = queue_of (core S) @ [resp_data (worker_responses (core S) i)] \<and>
     (\<forall>v. v \<noteq> i \<longrightarrow> worker_responses s v = worker_responses (core S) v) \<and>
     wr_flag (worker_responses s i) = PROCESSED \<and> freed s = freed (core S) \<and> bench s = bench (core S)"
proof -
  let ?s = "core S" and ?r = "worker_responses (core S) i"
  have ok: "slot_ok S i" using sys_inv_slots(1) [OF inv i] .
  have wf: "tskq_wf (tskq ?s, tmem ?s)" using inv by (simp add: sys_inv_def)
  have sl: "slot S i = {#tok (resp_data ?r)#}" using pre by (simp add: slot_def Let_def tok_def resp_data_def)
  then have "length (queue_of ?s) < tskq_bound (tskq ?s, tmem ?s)" using queue_room [OF inv i] by simp
  from tq.enq_room [OF wf this, of "resp_data ?r"] obtain tq tm
    where q: "tskq_enqueue_tail (tmem ?s) (tskq ?s) (resp_data ?r) = Inr (tq, tm)"
      "tskq_contents (tq, tm) = queue_of ?s @ [resp_data ?r]"
      "tskq_bound (tq, tm) = tskq_bound (tskq ?s, tmem ?s)" "tskq_wf (tq, tm)"
    by (auto simp: tskq_enq_def)
  define s where "s = ?s\<lparr>tskq := tq, tmem := tm, preempt_check := (preempt_check ?s)(i := False),
      worker_responses := (worker_responses ?s)(i := ?r\<lparr>wr_flag := PROCESSED\<rparr>)\<rparr>"
  let ?S = "S\<lparr>core := s\<rparr>"
  have s: "handle_preempted ?s i = Inr s"
    using q(1) by (simp add: handle_preempted_def resp_data_def Let_def s_def)
  have "slot ?S v = slot S v" if "v \<noteq> i" for v using that by (intro slot_cong) (simp_all add: s_def)
  then have oth: "others n ?S i = add_mset (tok (resp_data ?r)) (others n S i)"
    using q(2) by (simp add: others_def s_def)
  have "slot ?S i = {#}" by (simp add: slot_def Let_def s_def)
  moreover have "slot_ok ?S i" using ok pre by (simp add: slot_ok_def Let_def s_def)
  moreover have "slot_ok ?S v" if "v \<in> {1..n}" "v \<noteq> i" for v
    by (rule slot_ok_coro [OF sys_inv_slots(1) [OF inv that(1)]]) (use that in \<open>simp_all add: s_def\<close>)
  moreover have "task_ok (coros ?s) (resp_data ?r)" using ok pre by (simp add: slot_ok_def Let_def)
  ultimately have "sys_inv n ?S"
    using sys_inv_parts [OF inv] sys_inv_slots(3,4) [OF inv i] oth sl q(2-4)
    by - (rule sys_inv_intro [OF inv i], auto simp: s_def)
  then show ?thesis using s q(2) by (intro exI [of _ s]) (simp add: s_def)
qed

lemma dispatch_worker_inv:
  assumes inv: "sys_inv n S" and i: "i \<in> {1..n}"
  shows "\<exists>s. dispatch_worker (core S) i t = Inr s \<and> sys_inv n (S\<lparr>core := s\<rparr>) \<and>
     (\<forall>v. v \<noteq> i \<longrightarrow> worker_responses s v = worker_responses (core S) v) \<and>
     (queue_of s \<noteq> [] \<longrightarrow> queue_of (core S) \<noteq> [] \<and> wr_flag (worker_responses s i) = RUNNING)"
proof -
  let ?f = "wr_flag (worker_responses (core S) i)"
  have bound: "i < MAX_WORKER_SLOTS" using sys_inv_slots(2) [OF inv i] .
  have go: ?thesis
    if h: "dispatch_worker (core S) i t = dispatch_request s i t" "sys_inv n (S\<lparr>core := s\<rparr>)"
      "\<forall>v. v \<noteq> i \<longrightarrow> worker_responses s v = worker_responses (core S) v" "wr_flag (worker_responses s i) = PROCESSED"
      "length (queue_of s) \<le> Suc (length (queue_of (core S)))" for s
  proof -
    have idle: "wr_flag (worker_responses (core (S\<lparr>core := s\<rparr>)) i) = PROCESSED" using h(4) by simp
    have "queue_of (core S) \<noteq> []" if "tl (queue_of s) \<noteq> []" using that h(5) by (cases "queue_of s") auto
    then show ?thesis using dispatch_request_inv [OF h(2) i idle, of t] h(1,3) by (cases "queue_of s") auto
  qed
  consider "?f = RUNNING" | "?f = FINISHED" | "?f = PREEMPTED" | "?f = PROCESSED"
    using sys_inv_slots(1) [OF inv i] by (auto simp: slot_ok_def Let_def)
  then show ?thesis
  proof cases
    case 1
    then show ?thesis using inv bound by (simp add: dispatch_worker_def)
  next
    case 2
    from handle_finished_inv [OF inv i 2] obtain s where "handle_finished (core S) i = Inr s" "sys_inv n (S\<lparr>core := s\<rparr>)"
      "\<forall>v. v \<noteq> i \<longrightarrow> worker_responses s v = worker_responses (core S) v" "wr_flag (worker_responses s i) = PROCESSED"
      "queue_of s = queue_of (core S)" by blast
    then show ?thesis using 2 bound by (intro go [of s]) (simp_all add: dispatch_worker_def)
  next
    case 3
    from handle_preempted_inv [OF inv i 3] obtain s where "handle_preempted (core S) i = Inr s" "sys_inv n (S\<lparr>core := s\<rparr>)"
      "\<forall>v. v \<noteq> i \<longrightarrow> worker_responses s v = worker_responses (core S) v" "wr_flag (worker_responses s i) = PROCESSED"
      "queue_of s = queue_of (core S) @ [resp_data (worker_responses (core S) i)]" by blast
    then show ?thesis using 3 bound by (intro go [of s]) (simp_all add: dispatch_worker_def)
  next
    case 4
    then show ?thesis using inv bound by (intro go [of "core S"]) (simp_all add: dispatch_worker_def)
  qed
qed

text \<open>What a round of a worker does to its task: a packet runs up to the switch, a suspended context
  runs to its end.\<close>

lemma worker_run_task:
  assumes "task_ok (coros s) (req_data (dispatcher_requests s w))"
    and "set_context_link (cmem s) (dr_rnbl (dispatcher_requests s w)) (uctx_main s w) = Inr cm"
  defines "q \<equiv> dispatcher_requests s w" and "fin \<equiv> dr_category (dispatcher_requests s w) = CONTEXT"
  shows "worker_run s w t = Inr (s\<lparr>dispatcher_requests := (dispatcher_requests s)(w := q\<lparr>dr_flag := WAITING\<rparr>),
      bench := (if fin then work_end (bench s) (req_type s (dr_mbuf q)) t else first_packet (bench s) t),
      conts := (conts s)(w := dr_rnbl q), cmem := cm, finished := (finished s)(w := fin),
      coros := (coros s)(dr_rnbl q := (if fin then CDone else CYield 2 2 (dr_mbuf q)))\<rparr>)"
proof -
  have mb: "dr_mbuf q \<noteq> NULL" and cat: "dr_category q = PACKET \<or> dr_category q = CONTEXT \<and>
      coros s (dr_rnbl q) = CYield 2 2 (dr_mbuf q)"
    using assms(1) by (auto simp: task_ok_def req_data_def q_def)
  note work = worker_run_def handle_fake_new_packet_def handle_context_def makecontext_def swapcontext_def
    simple_generic_work_def
  from cat show ?thesis
  proof
    assume "dr_category q = PACKET"
    with mb assms(2) show ?thesis unfolding q_def fin_def
      by (simp add: work work_loop_start Let_def)
  next
    assume "dr_category q = CONTEXT \<and> coros s (dr_rnbl q) = CYield 2 2 (dr_mbuf q)"
    with mb assms(2) show ?thesis unfolding q_def fin_def
      by (simp add: work work_loop_resume Let_def)
  qed
qed

lemma others_slot: "v \<in> {1..n} \<Longrightarrow> v \<noteq> w \<Longrightarrow> x \<in># slot S v \<Longrightarrow> x \<in># others n S w"
  using sum.remove [of "{1..n} - {w}" v "slot S"] by (simp add: others_def)

lemma others_queue: "d \<in> set (queue_of (core S)) \<Longrightarrow> tok d \<in># others n S w"
  by (simp add: others_def)

lemma worker_run_inv:
  assumes inv: "sys_inv n S" and w: "w \<in> {1..n}" and nb: "\<not> busy S w"
    and act: "dr_flag (dispatcher_requests (core S) w) \<noteq> WAITING"
  shows "\<exists>s. worker_run (core S) w t = Inr s \<and> sys_inv n (S\<lparr>core := s, busy := (busy S)(w := True)\<rparr>)"
proof -
  let ?s = "core S" and ?q = "dispatcher_requests (core S) w"
  let ?c = "dr_rnbl ?q" and ?co = "if dr_category ?q = CONTEXT then CDone else CYield 2 2 (dr_mbuf ?q)"
  have ok: "slot_ok S w" using sys_inv_slots(1) [OF inv w] .
  have fl: "wr_flag (worker_responses ?s w) = RUNNING" "dr_flag ?q = ACTIVE" and task: "task_ok (coros ?s) (req_data ?q)"
    using ok act by (auto simp: slot_ok_def Let_def)
  have sl: "slot S w = {#(?c, dr_mbuf ?q)#}" using fl by (simp add: slot_def Let_def)
  have "ctx_live (cmem ?s) (add_mset ?c (image_mset fst (others n S w)))"
    using sys_inv_slots(3) [OF inv w] sl by simp
  from ctx_live_link [OF this] ctx_live_distinct [OF this] obtain cm
    where cm: "set_context_link (cmem ?s) ?c (uctx_main ?s w) = Inr cm" "ctx_cap cm = ctx_cap (cmem ?s)"
      "ctx_live cm (add_mset ?c (image_mset fst (others n S w)))" and new: "?c \<notin># image_mset fst (others n S w)"
    by blast
  obtain s where s: "worker_run ?s w t = Inr s" "tskq s = tskq ?s" "tmem s = tmem ?s" "cmem s = cm" "freed s = freed ?s"
      "worker_responses s = worker_responses ?s" "conts s = (conts ?s)(w := ?c)"
      "finished s = (finished ?s)(w := dr_category ?q = CONTEXT)" "coros s = (coros ?s)(?c := ?co)"
      "dispatcher_requests s = (dispatcher_requests ?s)(w := ?q\<lparr>dr_flag := WAITING\<rparr>)"
    using worker_run_task [OF task cm(1)] by simp
  let ?S = "S\<lparr>core := s, busy := (busy S)(w := True)\<rparr>"
  have oth: "others n ?S w = others n S w" by (intro others_cong slot_cong) (use s in simp_all)
  have "slot ?S w = slot S w" using s fl sl by (simp add: slot_def Let_def)
  moreover have "slot_ok ?S w"
    using s fl task by (simp add: slot_ok_def Let_def task_ok_def req_data_def)
  moreover have "slot_ok ?S v" if v: "v \<in> {1..n}" "v \<noteq> w" for v
  proof (rule slot_ok_coro [OF sys_inv_slots(1) [OF inv v(1)]])
    fix c assume "c \<in># image_mset fst (slot S v)"
    then have "c \<in># image_mset fst (others n S w)" using others_slot [OF v] by auto
    then have "c \<noteq> ?c" using new by metis
    then show "coros (core ?S) c = coros (core S) c" using s(9) by simp
  qed (use v s in simp_all)
  moreover have "task_ok (coros s) d" if d: "d \<in> set (queue_of s)" for d
  proof -
    have d: "d \<in> set (queue_of ?s)" using d s by simp
    then have "fst d \<in># image_mset fst (others n S w)" using others_queue [OF d, of n w] by (force simp: tok_def)
    then have "fst d \<noteq> ?c" using new by metis
    then have "coros s (fst d) = coros ?s (fst d)" using s(9) by simp
    then show ?thesis using sys_inv_parts(3) [OF inv d] by (cases d) (simp add: task_ok_def)
  qed
  ultimately have "sys_inv n ?S"
    using sys_inv_parts(1,2) [OF inv] sys_inv_slots(4) [OF inv w] s(2-5) cm(2,3) oth sl
    by - (rule sys_inv_intro [OF inv w], simp_all)
  then show ?thesis using s(1) by blast
qed

lemma finish_request_inv:
  assumes inv: "sys_inv n S" and w: "w \<in> {1..n}" and b: "busy S w"
  shows "sys_inv n (S\<lparr>core := finish_request (core S) w, busy := (busy S)(w := False)\<rparr>)"
proof -
  let ?s = "core S" and ?q = "dispatcher_requests (core S) w" and ?f = "finished (core S) w"
  let ?S = "S\<lparr>core := finish_request (core S) w, busy := (busy S)(w := False)\<rparr>"
  have ok: "slot_ok S w" using sys_inv_slots(1) [OF inv w] .
  have fl: "wr_flag (worker_responses ?s w) = RUNNING" "dr_flag ?q = WAITING" "conts ?s w = dr_rnbl ?q" "dr_mbuf ?q \<noteq> NULL"
      "coros ?s (dr_rnbl ?q) = (if ?f then CDone else CYield 2 2 (dr_mbuf ?q))"
    using ok b by (auto simp: slot_ok_def Let_def)
  obtain r where r: "worker_responses (core ?S) = (worker_responses ?s)(w := r)"
      "wr_flag r = (if ?f then FINISHED else PREEMPTED)" "wr_rnbl r = dr_rnbl ?q" "wr_mbuf r = dr_mbuf ?q"
      "wr_timestamp r = dr_timestamp ?q" "wr_type r = dr_type ?q" "wr_category r = CONTEXT"
    using fl by (cases ?f) (simp_all add: finish_request_def Let_def)
  have s: "tskq (core ?S) = tskq ?s" "tmem (core ?S) = tmem ?s" "cmem (core ?S) = cmem ?s" "freed (core ?S) = freed ?s"
      "conts (core ?S) = conts ?s" "finished (core ?S) = finished ?s" "coros (core ?S) = coros ?s"
      "dispatcher_requests (core ?S) = dispatcher_requests ?s" "accepted ?S = accepted S" "busy ?S = (busy S)(w := False)"
    by (simp_all add: finish_request_def Let_def)
  have oth: "others n ?S w = others n S w" by (intro others_cong slot_cong) (use s r in simp_all)
  have "slot ?S w = {#(dr_rnbl ?q, dr_mbuf ?q)#}" "slot S w = {#(dr_rnbl ?q, dr_mbuf ?q)#}"
    using s(8,10) r fl b by (simp_all add: slot_def Let_def)
  moreover have "slot_ok ?S w"
    using s(5-8,10) r fl by (simp add: slot_ok_def Let_def task_ok_def resp_data_def)
  moreover have "slot_ok ?S v" if v: "v \<in> {1..n}" "v \<noteq> w" for v
    by (rule slot_ok_coro [OF sys_inv_slots(1) [OF inv v(1)]]) (use v s r in simp_all)
  ultimately show ?thesis
    using sys_inv_parts [OF inv] sys_inv_slots(3,4) [OF inv w] s(1-4,7,9) oth
    by - (rule sys_inv_intro [OF inv w], simp_all)
qed

lemma net_accept_inv:
  assumes inv: "sys_inv n S"
  shows "\<exists>b s. net_accept (core S) mb t = Inr (b, s) \<and>
     (b \<and> mb \<noteq> NULL \<longrightarrow> sys_inv n (S\<lparr>core := s, accepted := accepted S @ [mb]\<rparr>)) \<and>
     (\<not> b \<longrightarrow> sys_inv n (S\<lparr>core := s\<rparr>))"
proof -
  let ?s = "core S"
  have live: "ctx_live (cmem ?s) (image_mset fst (inflight n S))" and n: "n < MAX_WORKER_SLOTS"
    and acc: "mset (accepted S) = mset (freed ?s) + image_mset snd (inflight n S)"
    and ok: "\<And>v. v \<in> {1..n} \<Longrightarrow> slot_ok S v"
    using inv by (simp_all add: sys_inv_def)
  note parts = sys_inv_parts [OF inv]
  have infl: "inflight n S = mset (map tok (queue_of ?s)) + sum (slot S) {1..n}" by (simp add: inflight_def)
  consider (yes) c cm where "context_alloc (cmem ?s) = Inr (0, c, cm)" "ctx_live cm (add_mset c (image_mset fst (inflight n S)))"
    | (no) c cm where "context_alloc (cmem ?s) = Inr (-1, c, cm)" "ctx_live cm (image_mset fst (inflight n S))"
    using ctx_live_alloc [OF live] by blast
  then show ?thesis
  proof cases
    case yes
    let ?d = "(c, mb, 1, 1, t)"
    have cap: "ctx_cap cm = ctx_cap (cmem ?s)" using context_alloc_cap [OF yes(1)] .
    have "length (queue_of ?s) \<le> size (inflight n S)" by (simp add: infl)
    also have "\<dots> < tskq_bound (tskq ?s, tmem ?s)" using ctx_live_size [OF yes(2)] parts(2) cap by simp
    finally obtain tq tm where q: "tskq_enqueue_tail (tmem ?s) (tskq ?s) ?d = Inr (tq, tm)"
        "tskq_contents (tq, tm) = queue_of ?s @ [?d]" "tskq_bound (tq, tm) = tskq_bound (tskq ?s, tmem ?s)" "tskq_wf (tq, tm)"
      using tq.enq_room [OF parts(1), of ?d] by (auto simp: tskq_enq_def)
    let ?s' = "?s\<lparr>cmem := cm, tskq := tq, tmem := tm\<rparr>"
    let ?S = "S\<lparr>core := ?s', accepted := accepted S @ [mb]\<rparr>"
    have "net_accept ?s mb t = Inr (True, ?s')" using yes(1) q(1) by (simp add: net_accept_def Let_def)
    moreover have "sys_inv n ?S" if "mb \<noteq> NULL"
    proof -
      have "slot ?S v = slot S v" for v by (rule slot_cong) simp_all
      then have "inflight n ?S = add_mset (c, mb) (inflight n S)" using q(2) by (simp add: inflight_def tok_def)
      moreover have "slot_ok ?S v" if "v \<in> {1..n}" for v by (rule slot_ok_coro [OF ok [OF that]]) simp_all
      moreover have "task_ok (coros ?s) ?d" using \<open>mb \<noteq> NULL\<close> by (simp add: task_ok_def PACKET_def)
      ultimately show ?thesis using n q yes(2) parts cap acc unfolding sys_inv_def by simp
    qed
    ultimately show ?thesis by (intro exI [of _ True] exI [of _ ?s']) simp
  next
    case no
    let ?S = "S\<lparr>core := ?s\<lparr>cmem := cm\<rparr>\<rparr>"
    have "net_accept ?s mb t = Inr (False, ?s\<lparr>cmem := cm\<rparr>)" using no(1) by (simp add: net_accept_def Let_def)
    moreover have "inflight n ?S = inflight n S"
    proof -
      have "slot ?S v = slot S v" for v by (rule slot_cong) simp_all
      then show ?thesis by (simp add: inflight_def)
    qed
    moreover have "slot_ok ?S v" if "v \<in> {1..n}" for v by (rule slot_ok_coro [OF ok [OF that]]) simp_all
    ultimately show ?thesis
      using n no(2) parts context_alloc_cap [OF no(1)] acc
      by (intro exI [of _ False] exI [of _ "?s\<lparr>cmem := cm\<rparr>"]) (simp add: sys_inv_def)
  qed
qed

text \<open>While both pools have an item, packets are accepted and queued at the tail.\<close>

lemma net_accept_room:
  assumes inv: "sys_inv n S" and c: "mp_avail (context_pool (cmem (core S))) = c # cs"
    and x: "mp_avail (stack_pool (cmem (core S))) = x # xs"
  shows "\<exists>s. net_accept (core S) mb t = Inr (True, s) \<and> queue_of s = queue_of (core S) @ [(c, mb, 1, PACKET, t)] \<and>
     worker_responses s = worker_responses (core S) \<and> dispatcher_requests s = dispatcher_requests (core S) \<and>
     mp_avail (context_pool (cmem s)) = cs \<and> mp_avail (stack_pool (cmem s)) = xs"
proof -
  let ?s = "core S"
  obtain L where L: "mset L = image_mset fst (inflight n S)" "ctx_wf (cmem ?s) L"
      "\<forall>c \<in> set L. ss_size (contexts (cmem ?s) c) = 8"
    using inv by (auto simp: sys_inv_def ctx_live_def)
  obtain cm where cm: "context_alloc (cmem ?s) = Inr (0, c, cm)" "ctx_wf cm (c # L)"
      "mp_avail (context_pool cm) = cs" "mp_avail (stack_pool cm) = xs"
      "contexts cm = (contexts (cmem ?s))(c := (contexts (cmem ?s) c)\<lparr>ss_sp := x, ss_size := 8\<rparr>)"
    using context_alloc_ok [OF L(2) c x] by blast
  have sz: "\<forall>a \<in> set (c # L). ss_size (contexts cm a) = 8" using L(3) cm(5) by simp
  have "length (queue_of ?s) \<le> size (inflight n S)" by (simp add: inflight_def)
  moreover have "Suc (size (inflight n S)) \<le> ctx_cap cm"
    using ctx_live_size [OF ctx_liveI [OF cm(2) sz refl]] L(1) by (metis length_Cons size_image_mset size_mset)
  ultimately have "length (queue_of ?s) < tskq_bound (tskq ?s, tmem ?s)"
    using context_alloc_cap [OF cm(1)] sys_inv_parts(2) [OF inv] by simp
  from tq.enq_room [OF sys_inv_parts(1) [OF inv] this, of "(c, mb, 1, 1, t)"]
  obtain tq tm where "tskq_enqueue_tail (tmem ?s) (tskq ?s) (c, mb, 1, 1, t) = Inr (tq, tm)"
      "tskq_contents (tq, tm) = queue_of ?s @ [(c, mb, 1, 1, t)]" by (auto simp: tskq_enq_def)
  then show ?thesis using cm by (simp add: net_accept_def Let_def PACKET_def)
qed

section \<open>Reachable states\<close>

inductive_cases sys_stepE: "sys_step n S S'"

lemma sys_step_inv: "sys_step n S S' \<Longrightarrow> sys_inv n S \<Longrightarrow> sys_inv n S'"
proof (induction rule: sys_step.induct)
  case (arrive S mb t s)
  with net_accept_inv [of n S mb t] show ?case by auto
next
  case (refuse S mb t s)
  with net_accept_inv [of n S mb t] show ?case by auto
next
  case (dispatch i S t s)
  with dispatch_worker_inv [of n S i t] show ?case by auto
next
  case (run w S t s)
  with worker_run_inv [of n S w t] show ?case by auto
next
  case (report w S)
  with finish_request_inv [of n S w] show ?case by auto
qed

lemma sys_reach_inv: "(sys_step n)\<^sup>*\<^sup>* S S' \<Longrightarrow> sys_inv n S \<Longrightarrow> sys_inv n S'"
  by (induction rule: rtranclp_induct) (auto dest: sys_step_inv)

section \<open>Start of the system\<close>

text \<open>
  Before the first packet: no task anywhere.  \<open>boot\<close> is the state the program starts in: zeroed
  globals, the pools of \<open>taskqueue_init\<close>, and \<open>init_worker\<close> called by each of the threads \<open>ws\<close>.
\<close>

definition sys_start :: "nat \<Rightarrow> system \<Rightarrow> bool" where
  "sys_start n S \<longleftrightarrow>
     n < MAX_WORKER_SLOTS \<and> tskq_wf (tskq (core S), tmem (core S)) \<and> queue_of (core S) = [] \<and> ctx_wf (cmem (core S)) [] \<and>
     ctx_cap (cmem (core S)) \<le> tskq_bound (tskq (core S), tmem (core S)) \<and> accepted S = [] \<and> freed (core S) = [] \<and>
     (\<forall>w \<in> {1..n}. wr_flag (worker_responses (core S) w) \<in> {RUNNING, PROCESSED} \<and>
        dr_flag (dispatcher_requests (core S) w) = WAITING \<and> \<not> busy S w)"

definition boot_sched :: "task_pools \<Rightarrow> (ptr \<Rightarrow> DB_REQ_TYPE) \<Rightarrow> (nat \<Rightarrow> ptr) \<Rightarrow> sched" where
  "boot_sched ps rt um =
     \<lparr>tskq = \<lparr>tq_head = NULL, tq_tail = NULL\<rparr>,
      tmem = \<lparr>tasks = (\<lambda>_. \<lparr>t_runnable = 0, t_mbuf = 0, t_type = 0, t_category = 0, t_timestamp = 0, t_next = 0\<rparr>),
        task_mempool = tp_task ps\<rparr>,
      cmem = \<lparr>contexts = (\<lambda>_. \<lparr>ss_sp = 0, ss_size = 0, uc_link = 0\<rparr>), context_pool = tp_context ps,
        stack_pool = tp_stack ps, stack_mem = (\<lambda>_. 0)\<rparr>,
      worker_responses = (\<lambda>_. \<lparr>wr_flag = 0, wr_rnbl = 0, wr_mbuf = 0, wr_timestamp = 0, wr_type = 0, wr_category = 0\<rparr>),
      dispatcher_requests = (\<lambda>_. \<lparr>dr_flag = 0, dr_rnbl = 0, dr_mbuf = 0, dr_type = 0, dr_category = 0, dr_timestamp = 0\<rparr>),
      timestamps = (\<lambda>_. 0), preempt_check = (\<lambda>_. False), freed = [], coros = (\<lambda>_. CNew), req_type = rt,
      bench = \<lparr>TEST_START_TIME = 0, TEST_END_TIME = 0, TEST_RCVD_SMALL_PACKETS = 0, TEST_RCVD_BIG_PACKETS = 0,
        TEST_TOTAL_PACKETS_COUNTER = 0, TEST_FINISHED = False, IS_FIRST_PACKET = False\<rparr>,
      uctx_main = um, conts = (\<lambda>_. NULL), finished = (\<lambda>_. False)\<rparr>"

definition boot :: "task_pools \<Rightarrow> (ptr \<Rightarrow> DB_REQ_TYPE) \<Rightarrow> (nat \<Rightarrow> ptr) \<Rightarrow> nat list \<Rightarrow> system" where
  "boot ps rt um ws = \<lparr>core = fold (\<lambda>w s. init_worker s w) ws (boot_sched ps rt um), busy = (\<lambda>_. False), accepted = []\<rparr>"

lemma sys_start_inv:
  assumes "sys_start n S"
  shows "sys_inv n S"
proof -
  have q: "queue_of (core S) = []" using assms by (simp add: sys_start_def)
  have st: "wr_flag (worker_responses (core S) w) = RUNNING \<or> wr_flag (worker_responses (core S) w) = PROCESSED"
      "dr_flag (dispatcher_requests (core S) w) = WAITING" "\<not> busy S w" if "w \<in> {1..n}" for w
    using assms that unfolding sys_start_def by blast+
  have sl: "slot S w = {#}" if "w \<in> {1..n}" for w
    using st [OF that] by (auto simp: slot_def Let_def)
  have "slot_ok S w" if "w \<in> {1..n}" for w
    using st [OF that] by (auto simp: slot_ok_def Let_def)
  moreover have "inflight n S = {#}" using sl q by (simp add: inflight_def)
  moreover have "ctx_live (cmem (core S)) {#}" using assms by (auto simp: sys_start_def intro: ctx_liveI)
  ultimately show ?thesis using assms q by (auto simp: sys_start_def sys_inv_def)
qed

lemma fold_init_worker:
  "fold (\<lambda>w s. init_worker s w) ws s =
     (if ws = [] then s else s\<lparr>worker_responses := (worker_responses s)(1 := (worker_responses s 1)\<lparr>wr_flag := PROCESSED\<rparr>)\<rparr>)"
  by (induction ws arbitrary: s) (auto simp: init_worker_def)

lemma boot_start:
  assumes wf: "mempool_wf (tp_task ps)"
    and ctx: "ctx_wf \<lparr>contexts = (\<lambda>_. \<lparr>ss_sp = 0, ss_size = 0, uc_link = 0\<rparr>), context_pool = tp_context ps,
        stack_pool = tp_stack ps, stack_mem = (\<lambda>_. 0)\<rparr> []"
    and len: "unat (capacity (tp_context ps)) \<le> length (mp_avail (tp_task ps))" and n: "n < MAX_WORKER_SLOTS"
  shows "sys_start n (boot ps rt um ws)"
proof -
  let ?q = "(tskq (boot_sched ps rt um), tmem (boot_sched ps rt um))"
  have rep: "tskq_rep ?q []" using wf by (simp add: boot_sched_def tskq_rep_def mempool_wf_def mp_avail_def)
  have "tskq_wf ?q" by (rule tskq_wfI [OF rep])
  moreover have "tskq_contents ?q = []" "tskq_bound ?q = length (mp_avail (tp_task ps))"
    using tskq_rep_nodes [OF rep] by (simp_all add: tskq_contents_def tskq_bound_def) (simp add: boot_sched_def)
  ultimately show ?thesis
    using ctx len n by (simp add: sys_start_def boot_def fold_init_worker boot_sched_def RUNNING_def WAITING_def)
qed

section \<open>The dispatch loop\<close>

lemma dispatch_loop_inv:
  assumes "sys_inv n S" "set is \<subseteq> {1..n}"
  shows "\<exists>s. dispatch_loop (core S) is t = Inr s \<and> sys_inv n (S\<lparr>core := s\<rparr>) \<and>
     (\<forall>v. v \<notin> set is \<longrightarrow> worker_responses s v = worker_responses (core S) v) \<and>
     (queue_of s \<noteq> [] \<longrightarrow> queue_of (core S) \<noteq> [] \<and> (\<forall>v \<in> set is. wr_flag (worker_responses s v) = RUNNING))"
  using assms
proof (induction "is" arbitrary: S)
  case Nil
  then show ?case by simp
next
  case (Cons i js)
  obtain s where s: "dispatch_worker (core S) i t = Inr s" "sys_inv n (S\<lparr>core := s\<rparr>)"
      "\<forall>v. v \<noteq> i \<longrightarrow> worker_responses s v = worker_responses (core S) v"
      "queue_of s \<noteq> [] \<longrightarrow> queue_of (core S) \<noteq> [] \<and> wr_flag (worker_responses s i) = RUNNING"
    using dispatch_worker_inv [OF Cons.prems(1), of i t] Cons.prems(2) by auto
  obtain s' where s': "dispatch_loop s js t = Inr s'" "sys_inv n (S\<lparr>core := s'\<rparr>)"
      "\<forall>v. v \<notin> set js \<longrightarrow> worker_responses s' v = worker_responses s v"
      "queue_of s' \<noteq> [] \<longrightarrow> queue_of s \<noteq> [] \<and> (\<forall>v \<in> set js. wr_flag (worker_responses s' v) = RUNNING)"
    using Cons.IH [OF s(2)] Cons.prems(2) by auto
  have "wr_flag (worker_responses s' i) = RUNNING" if "queue_of s' \<noteq> []"
    using that s(4) s'(3,4) by (cases "i \<in> set js") auto
  then show ?case using s s' by auto
qed

lemma dispatch_inv:
  assumes "sys_inv n S"
  shows "\<exists>s. dispatch (core S) n t = Inr (0, s) \<and> sys_inv n (S\<lparr>core := s\<rparr>) \<and>
     (queue_of s \<noteq> [] \<longrightarrow> (\<forall>i \<in> {1..n}. wr_flag (worker_responses s i) = RUNNING))"
proof -
  have "set [1..<n + 1] = {1..n}" by auto
  then show ?thesis
    using dispatch_loop_inv [OF assms, of "[1..<n + 1]" t] by (auto simp: dispatch_def)
qed

lemma dispatch_worker_frame:
  assumes "dispatch_worker s i t = Inr s'" "i \<noteq> w \<or> wr_flag (worker_responses s w) = RUNNING"
  shows "worker_responses s' w = worker_responses s w \<and> dispatcher_requests s' w = dispatcher_requests s w"
proof (cases "i = w")
  case True
  then show ?thesis using assms by (auto simp: dispatch_worker_def split: if_splits)
next
  case False
  have req: "worker_responses b w = worker_responses a w \<and> dispatcher_requests b w = dispatcher_requests a w"
    if "dispatch_request a i t = Inr b" for a b
    using that False by (auto simp: dispatch_request_def Let_def res_bind_eq_Inr split: option.splits prod.splits)
  have "worker_responses b w = worker_responses a w \<and> dispatcher_requests b w = dispatcher_requests a w"
    if "handle_finished a i = Inr b \<or> handle_preempted a i = Inr b" for a b
    using that False by (auto simp: handle_finished_def handle_preempted_def Let_def res_bind_eq_Inr)
  then show ?thesis using assms(1) req
    by (auto simp: dispatch_worker_def Let_def res_bind_eq_Inr split: if_splits)
qed

lemma dispatch_loop_frame:
  assumes "dispatch_loop s is t = Inr s'" "w \<notin> set is \<or> wr_flag (worker_responses s w) = RUNNING"
  shows "worker_responses s' w = worker_responses s w \<and> dispatcher_requests s' w = dispatcher_requests s w"
  using assms
proof (induction "is" arbitrary: s)
  case (Cons i js)
  obtain s1 where s1: "dispatch_worker s i t = Inr s1" "dispatch_loop s1 js t = Inr s'"
    using Cons.prems(1) by (auto simp: res_bind_eq_Inr)
  have "i \<noteq> w \<or> wr_flag (worker_responses s w) = RUNNING" using Cons.prems(2) by auto
  note dispatch_worker_frame [OF s1(1) this]
  then show ?case using Cons.IH [OF s1(2)] Cons.prems(2) by auto
qed simp

text \<open>A worker that was ready and is marked running has been assigned a request.\<close>

lemma dispatch_worker_assigns:
  assumes "dispatch_worker s i t = Inr s'" "wr_flag (worker_responses s i) \<noteq> RUNNING"
    "wr_flag (worker_responses s' i) = RUNNING"
  shows "dr_flag (dispatcher_requests s' i) = ACTIVE"
proof -
  have "wr_flag (worker_responses b i) \<noteq> RUNNING" if "handle_finished a i = Inr b \<or> handle_preempted a i = Inr b" for a b
    using that by (auto simp: handle_finished_def handle_preempted_def Let_def res_bind_eq_Inr)
  then obtain s1 where s1: "wr_flag (worker_responses s1 i) \<noteq> RUNNING" "dispatch_request s1 i t = Inr s'"
    using assms(1,2) by (auto simp: dispatch_worker_def Let_def res_bind_eq_Inr split: if_splits)
  then show ?thesis using assms(3)
    by (auto simp: dispatch_request_def Let_def res_bind_eq_Inr split: option.splits prod.splits)
qed

lemma dispatch_loop_assigns:
  assumes "dispatch_loop s is t = Inr s'" "distinct is" "v \<in> set is" "wr_flag (worker_responses s v) \<noteq> RUNNING"
    "wr_flag (worker_responses s' v) = RUNNING"
  shows "dr_flag (dispatcher_requests s' v) = ACTIVE"
  using assms
proof (induction "is" arbitrary: s)
  case (Cons i js)
  obtain s1 where s1: "dispatch_worker s i t = Inr s1" "dispatch_loop s1 js t = Inr s'"
    using Cons.prems(1) by (auto simp: res_bind_eq_Inr)
  show ?case
  proof (cases "i = v")
    case True
    then have "worker_responses s' v = worker_responses s1 v \<and> dispatcher_requests s' v = dispatcher_requests s1 v"
      using dispatch_loop_frame [OF s1(2)] Cons.prems(2) by simp
    then show ?thesis using dispatch_worker_assigns [OF s1(1)] True Cons.prems(4,5) by simp
  next
    case False
    then have "worker_responses s1 v = worker_responses s v" using dispatch_worker_frame [OF s1(1)] by simp
    then show ?thesis using Cons.IH [OF s1(2)] False Cons.prems by simp
  qed
qed simp

lemma dispatch_keeps_slot:
  assumes "dispatch (core S) n t = Inr (0, s)" "wr_flag (worker_responses (core S) i) = RUNNING"
  shows "slot (S\<lparr>core := s\<rparr>) i = slot S i"
proof -
  have "dispatch_loop (core S) [1..<n + 1] t = Inr s" using assms(1) by (auto simp: dispatch_def res_bind_eq_Inr)
  from dispatch_loop_frame [OF this, of i] assms(2) show ?thesis by (intro slot_cong) simp_all
qed

lemma dispatch_assigns:
  assumes "dispatch (core S) n t = Inr (0, s)" "i \<in> {1..n}"
    "wr_flag (worker_responses (core S) i) \<noteq> RUNNING" "wr_flag (worker_responses s i) = RUNNING"
  shows "dr_flag (dispatcher_requests s i) = ACTIVE"
proof -
  have "dispatch_loop (core S) [1..<n + 1] t = Inr s" using assms(1) by (auto simp: dispatch_def res_bind_eq_Inr)
  then show ?thesis by (rule dispatch_loop_assigns) (use assms in auto)
qed

section \<open>The rounds of one request\<close>

lemma dispatch_request_gives:
  assumes inv: "sys_inv n S" and i: "i \<in> {1..n}" and idle: "wr_flag (worker_responses (core S) i) = PROCESSED"
    and q: "queue_of (core S) = d # ds"
  shows "\<exists>s. dispatch_request (core S) i t = Inr s \<and> sys_inv n (S\<lparr>core := s\<rparr>) \<and> queue_of s = ds \<and>
     dr_flag (dispatcher_requests s i) = ACTIVE \<and> req_data (dispatcher_requests s i) = d \<and>
     freed s = freed (core S) \<and> bench s = bench (core S)"
proof -
  obtain s r where s: "dispatch_request (core S) i t = Inr s" "queue_of s = ds" "freed s = freed (core S)"
      "bench s = bench (core S)" "dispatcher_requests s = (dispatcher_requests (core S))(i := r)" "dr_flag r = ACTIVE" "req_data r = d"
    by (rule dispatch_request_Cons [OF sys_inv_parts(1) [OF inv] q, of i t])
  then show ?thesis using dispatch_request_inv [OF inv i idle, of t] by simp
qed

lemma finish_request_fields:
  "tskq (finish_request s w) = tskq s" "tmem (finish_request s w) = tmem s" "freed (finish_request s w) = freed s"
  "bench (finish_request s w) = bench s"
  "resp_data (worker_responses (finish_request s w) w) = (conts s w, dr_mbuf (dispatcher_requests s w),
     dr_type (dispatcher_requests s w), CONTEXT, dr_timestamp (dispatcher_requests s w))"
  "wr_flag (worker_responses (finish_request s w) w) = (if finished s w then FINISHED else PREEMPTED)"
  by (simp_all add: finish_request_def Let_def resp_data_def)

lemma worker_round_inv:
  assumes inv: "sys_inv n S" and w: "w \<in> {1..n}" and nb: "\<not> busy S w"
    and act: "dr_flag (dispatcher_requests (core S) w) = ACTIVE"
    and d: "req_data (dispatcher_requests (core S) w) = (c, mb, ty, cat, ts)"
  shows "\<exists>s. worker_round (core S) w t = Inr s \<and> sys_inv n (S\<lparr>core := s\<rparr>) \<and> queue_of s = queue_of (core S) \<and>
     freed s = freed (core S) \<and> resp_data (worker_responses s w) = (c, mb, ty, CONTEXT, ts) \<and>
     wr_flag (worker_responses s w) = (if cat = CONTEXT then FINISHED else PREEMPTED) \<and>
     bench s = (if cat = CONTEXT then work_end (bench (core S)) (req_type (core S) mb) t else first_packet (bench (core S)) t)"
proof -
  let ?s = "core S" and ?q = "dispatcher_requests (core S) w"
  have act': "dr_flag ?q \<noteq> WAITING" using act by simp
  obtain s where s: "worker_run ?s w t = Inr s" "sys_inv n (S\<lparr>core := s, busy := (busy S)(w := True)\<rparr>)"
    using worker_run_inv [OF inv w nb act', of t] by blast
  have "task_ok (coros ?s) (req_data ?q)" using sys_inv_slots(1) [OF inv w] act by (simp add: slot_ok_def Let_def)
  moreover obtain cm where "set_context_link (cmem ?s) (dr_rnbl ?q) (uctx_main ?s w) = Inr cm"
    using s(1) calculation by (auto simp: worker_run_def handle_fake_new_packet_def handle_context_def Let_def res_bind_eq_Inr task_ok_def
        req_data_def split: if_splits)
  ultimately have "Inr s = worker_run ?s w t" "worker_run ?s w t = Inr (?s\<lparr>dispatcher_requests :=
      (dispatcher_requests ?s)(w := ?q\<lparr>dr_flag := WAITING\<rparr>),
      bench := (if dr_category ?q = CONTEXT then work_end (bench ?s) (req_type ?s (dr_mbuf ?q)) t else first_packet (bench ?s) t),
      conts := (conts ?s)(w := dr_rnbl ?q), cmem := cm, finished := (finished ?s)(w := dr_category ?q = CONTEXT),
      coros := (coros ?s)(dr_rnbl ?q := (if dr_category ?q = CONTEXT then CDone else CYield 2 2 (dr_mbuf ?q)))\<rparr>)"
    using s(1) by (simp, intro worker_run_task)
  then have s': "tskq s = tskq ?s" "tmem s = tmem ?s" "freed s = freed ?s" "conts s w = dr_rnbl ?q"
      "finished s w = (dr_category ?q = CONTEXT)" "dispatcher_requests s w = ?q\<lparr>dr_flag := WAITING\<rparr>"
      "bench s = (if dr_category ?q = CONTEXT then work_end (bench ?s) (req_type ?s (dr_mbuf ?q)) t else first_packet (bench ?s) t)"
    by simp_all
  have "worker_round ?s w t = Inr (finish_request s w)" using s(1) by (simp add: worker_round_def)
  moreover have "sys_inv n (S\<lparr>core := finish_request s w\<rparr>)"
  proof -
    have "(busy S)(w := False) = busy S" using nb by (simp add: fun_upd_idem)
    then show ?thesis using finish_request_inv [OF s(2) w] by simp
  qed
  ultimately show ?thesis
    using d s' by (intro exI [of _ "finish_request s w"]) (simp add: finish_request_fields req_data_def)
qed

lemma work_end_counts: "TEST_TOTAL_PACKETS_COUNTER (work_end b ty t) = TEST_TOTAL_PACKETS_COUNTER b + 1"
  by (simp add: work_end_def Let_def)

lemma first_packet_counts: "TEST_TOTAL_PACKETS_COUNTER (first_packet b t) = TEST_TOTAL_PACKETS_COUNTER b"
  by (simp add: first_packet_def)

section \<open>Properties\<close>

definition ex_boot :: system where
  "ex_boot = boot ex_task_pools (\<lambda>_. DB_GET) (\<lambda>_. 77) [1]"

lemma ex_boot_start: "sys_start 2 ex_boot"
  unfolding ex_boot_def
  by (rule boot_start) (simp_all add: ex_task_pools_def ex_pool_def mempool_wf_def mp_avail_def ctx_wf_def MAX_WORKER_SLOTS_def)

lemma ex_boot_fields:
  "cmem (core ex_boot) = ex_ctx_mem" "tskq (core ex_boot) = fst ex_tskq" "tmem (core ex_boot) = snd ex_tskq"
  unfolding ex_boot_def boot_def fold_init_worker boot_sched_def ex_ctx_mem_def ex_tskq_def ex_task_pools_def by simp_all

lemma ex_arrive:
  "\<exists>s. net_accept (core ex_boot) 9 0 = Inr (True, s) \<and> queue_of s = [(4096, 9, 1, PACKET, 0)] \<and>
     worker_responses s = worker_responses (core ex_boot) \<and>
     mp_avail (context_pool (cmem s)) = [4608, 5120] \<and> mp_avail (stack_pool (cmem s)) = [4608, 5120]"
proof -
  have "mp_avail (context_pool (cmem (core ex_boot))) = [4096, 4608, 5120]"
      "mp_avail (stack_pool (cmem (core ex_boot))) = [4096, 4608, 5120]"
    by (simp_all add: ex_boot_fields ex_ctx_mem_def ex_pool_def mp_avail_def)
  moreover have "queue_of (core ex_boot) = []" by (simp add: ex_boot_fields ex_tskq_measures)
  ultimately show ?thesis
    using net_accept_room [OF sys_start_inv [OF ex_boot_start], of 4096 "[4608, 5120]" 4096 "[4608, 5120]" 9 0] by auto
qed

lemma ex_reach:
  "\<exists>S. (sys_step 2)\<^sup>*\<^sup>* ex_boot S \<and> accepted S = [9] \<and> queue_of (core S) = [(4096, 9, 1, PACKET, 0)] \<and>
     worker_responses (core S) = worker_responses (core ex_boot)"
proof -
  obtain s where s: "net_accept (core ex_boot) 9 0 = Inr (True, s)" "queue_of s = [(4096, 9, 1, PACKET, 0)]"
    "worker_responses s = worker_responses (core ex_boot)" using ex_arrive by blast
  then have "sys_step 2 ex_boot (ex_boot\<lparr>core := s, accepted := accepted ex_boot @ [9]\<rparr>)"
    by (intro sys_step.arrive) simp_all
  then show ?thesis using s by (intro exI conjI) (erule r_into_rtranclp, simp_all add: ex_boot_def boot_def)
qed

lemma ex_idle: "wr_flag (worker_responses (core ex_boot) 1) = PROCESSED"
  by (simp add: ex_boot_def boot_def init_worker_def)

text \<open>
  C1: No request is lost and none is duplicated.  In every state the dispatcher, the workers and the
  network thread can reach by any interleaving of their steps, the accepted packets are exactly the
  packets already freed together with those of the requests in flight (queued, assigned, running or
  reported), and no two requests in flight share a context.
\<close>

theorem requests_conserved:
  assumes "sys_start n S0" "(sys_step n)\<^sup>*\<^sup>* S0 S"
  shows "mset (accepted S) = mset (freed (core S)) + image_mset snd (inflight n S) \<and>
     (\<forall>c. count (image_mset fst (inflight n S)) c \<le> 1)"
proof -
  have inv: "sys_inv n S" using sys_reach_inv [OF assms(2) sys_start_inv [OF assms(1)]] .
  then obtain L where "mset L = image_mset fst (inflight n S)" "distinct L"
    by (auto simp: sys_inv_def ctx_live_def ctx_wf_def)
  then have "count (image_mset fst (inflight n S)) c \<le> 1" for c
    by (metis distinct_count_atmost_1 order.refl zero_le_one)
  then show ?thesis using inv by (simp add: sys_inv_def)
qed

theorem requests_conserved_witness:
  "\<exists>S. (sys_step 2)\<^sup>*\<^sup>* ex_boot S \<and> accepted S = [9] \<and>
     mset [9] = mset (freed (core S)) + image_mset snd (inflight 2 S)"
  using ex_reach requests_conserved [OF ex_boot_start] by metis

text \<open>
  C2: The scheduler's own steps never fault.  In every reachable state each operation that can run
  next returns: the dispatch loop (for one worker and for all of them), a worker that was given a
  request, and the acceptance of a packet.  Their accesses to the slots of the workers, to the task
  cells, to the free lists of the pools and to the return link in a context's stack item are in
  range and through pointers that are not \<open>NULL\<close>, and no context is switched to that is neither
  prepared nor suspended.  The frames that a running context has on its stack are not modelled: the
  statement does not cover what they overwrite.
\<close>

theorem scheduler_never_faults:
  assumes "sys_start n S0" "(sys_step n)\<^sup>*\<^sup>* S0 S"
  shows "(\<forall>i \<in> {1..n}. \<exists>s. dispatch_worker (core S) i t = Inr s) \<and> (\<exists>s. dispatch (core S) n t = Inr (0, s)) \<and>
     (\<forall>w \<in> {1..n}. \<not> busy S w \<and> dr_flag (dispatcher_requests (core S) w) \<noteq> WAITING \<longrightarrow>
        (\<exists>s. worker_run (core S) w t = Inr s)) \<and>
     (\<exists>b s. net_accept (core S) mb t = Inr (b, s))"
proof -
  have inv: "sys_inv n S" using sys_reach_inv [OF assms(2) sys_start_inv [OF assms(1)]] .
  from dispatch_worker_inv [OF inv] worker_run_inv [OF inv] net_accept_inv [OF inv] dispatch_inv [OF inv]
  show ?thesis by meson
qed

theorem scheduler_never_faults_witness:
  "\<exists>S s. (sys_step 2)\<^sup>*\<^sup>* ex_boot S \<and> accepted S = [9] \<and> dispatch (core S) 2 5 = Inr (0, s)"
  using ex_reach scheduler_never_faults [OF ex_boot_start] by metis

text \<open>
  C3: The dispatcher is work conserving.  After a pass of \<open>dispatch\<close> over all workers, started in a
  reachable state, either the queue is empty or every worker that was ready (it had reported its
  request as finished or preempted, or was marked as processed) has been assigned a request its
  loop will see; and every worker that had a request has one.  The only workers left without a
  request while others wait in the queue are those that carry the initial flag \<open>RUNNING\<close> and were
  never marked as ready.
\<close>

theorem dispatch_work_conserving:
  assumes "sys_start n S0" "(sys_step n)\<^sup>*\<^sup>* S0 S"
  shows "\<exists>s. dispatch (core S) n t = Inr (0, s) \<and>
     (queue_of s = [] \<or>
       (\<forall>i \<in> {1..n}.
          (wr_flag (worker_responses (core S) i) \<noteq> RUNNING \<longrightarrow>
             dr_flag (dispatcher_requests s i) = ACTIVE \<and> wr_flag (worker_responses s i) = RUNNING) \<and>
          (slot S i \<noteq> {#} \<or> wr_flag (worker_responses (core S) i) \<noteq> RUNNING \<longrightarrow> slot (S\<lparr>core := s\<rparr>) i \<noteq> {#})))"
proof -
  obtain s where s: "dispatch (core S) n t = Inr (0, s)"
      "queue_of s \<noteq> [] \<longrightarrow> (\<forall>i \<in> {1..n}. wr_flag (worker_responses s i) = RUNNING)"
    using dispatch_inv [OF sys_reach_inv [OF assms(2) sys_start_inv [OF assms(1)]], of t] by blast
  have "slot (S\<lparr>core := s\<rparr>) i \<noteq> {#}"
    if "wr_flag (worker_responses s i) = RUNNING" "dr_flag (dispatcher_requests s i) = ACTIVE" for i
    using slot_active [of "S\<lparr>core := s\<rparr>" i] that by simp
  then show ?thesis
    using s dispatch_assigns [OF s(1)] dispatch_keeps_slot [OF s(1)] by metis
qed

lemma ex_reach_two:
  "\<exists>S. (sys_step 2)\<^sup>*\<^sup>* ex_boot S \<and> accepted S = [9, 10] \<and> length (queue_of (core S)) = 2 \<and>
     wr_flag (worker_responses (core S) 1) = PROCESSED"
proof -
  obtain s where s: "net_accept (core ex_boot) 9 0 = Inr (True, s)" "queue_of s = [(4096, 9, 1, PACKET, 0)]"
      "worker_responses s = worker_responses (core ex_boot)"
      "mp_avail (context_pool (cmem s)) = [4608, 5120]" "mp_avail (stack_pool (cmem s)) = [4608, 5120]"
    using ex_arrive by blast
  let ?S = "ex_boot\<lparr>core := s, accepted := accepted ex_boot @ [9]\<rparr>"
  have one: "sys_step 2 ex_boot ?S" using s(1) by (intro sys_step.arrive) simp_all
  then have "sys_inv 2 ?S" using sys_reach_inv [OF r_into_rtranclp sys_start_inv [OF ex_boot_start]] by blast
  then obtain s' where s': "net_accept (core ?S) 10 0 = Inr (True, s')" "length (queue_of s') = 2"
      "worker_responses s' = worker_responses s"
    using net_accept_room [of 2 ?S 4608 "[5120]" 4608 "[5120]" 10 0] s by auto
  let ?S' = "?S\<lparr>core := s', accepted := accepted ?S @ [10]\<rparr>"
  have "sys_step 2 ?S ?S'" using s'(1) by (intro sys_step.arrive) simp_all
  with one have "(sys_step 2)\<^sup>*\<^sup>* ex_boot ?S'" by (meson r_into_rtranclp rtranclp.rtrancl_into_rtrancl)
  then show ?thesis using s s' ex_idle by (intro exI [of _ ?S']) (simp add: ex_boot_def boot_def)
qed

theorem dispatch_work_conserving_witness:
  "\<exists>S s. (sys_step 2)\<^sup>*\<^sup>* ex_boot S \<and> accepted S = [9, 10] \<and> wr_flag (worker_responses (core S) 1) = PROCESSED \<and>
     length (queue_of (core S)) = 2 \<and> dispatch (core S) 2 5 = Inr (0, s) \<and>
     (queue_of s = [] \<or> dr_flag (dispatcher_requests s 1) = ACTIVE \<and> slot (S\<lparr>core := s\<rparr>) 1 \<noteq> {#})"
proof -
  obtain S where S: "(sys_step 2)\<^sup>*\<^sup>* ex_boot S" "accepted S = [9, 10]" "length (queue_of (core S)) = 2"
      "wr_flag (worker_responses (core S) 1) = PROCESSED" using ex_reach_two by blast
  moreover have "(1::nat) \<in> {1..2}" "PROCESSED \<noteq> RUNNING" by simp_all
  ultimately show ?thesis using dispatch_work_conserving [OF ex_boot_start S(1), of 5] by metis
qed

text \<open>
  C4: A request takes two quanta and is then complete.  In a reachable state whose queue holds one new
  packet and where worker \<open>w\<close> is idle: the dispatcher assigns it, the worker runs it until it
  switches away and reports it preempted, the dispatcher queues and assigns it again, the worker
  resumes it to its end and reports it finished, and the dispatcher frees the packet.  The queue is
  empty again, the worker idle, and the packet is counted once.
\<close>

theorem request_two_quanta:
  assumes "sys_start n S0" "(sys_step n)\<^sup>*\<^sup>* S0 S" and w: "w \<in> {1..n}"
    and idle: "wr_flag (worker_responses (core S) w) = PROCESSED"
    and q: "queue_of (core S) = [(c, mb, ty, PACKET, ts)]"
  shows "\<exists>s1 s2 s3 s4 s5. dispatch_worker (core S) w t1 = Inr s1 \<and> worker_round s1 w t2 = Inr s2 \<and>
     wr_flag (worker_responses s2 w) = PREEMPTED \<and>
     dispatch_worker s2 w t3 = Inr s3 \<and> worker_round s3 w t4 = Inr s4 \<and>
     wr_flag (worker_responses s4 w) = FINISHED \<and> dispatch_worker s4 w t5 = Inr s5 \<and>
     wr_flag (worker_responses s5 w) = PROCESSED \<and> queue_of s5 = [] \<and> freed s5 = freed (core S) @ [mb] \<and>
     TEST_TOTAL_PACKETS_COUNTER (bench s5) = TEST_TOTAL_PACKETS_COUNTER (bench (core S)) + 1"
proof -
  have inv: "sys_inv n S" using sys_reach_inv [OF assms(2) sys_start_inv [OF assms(1)]] .
  have bd: "w < MAX_WORKER_SLOTS" using sys_inv_slots(2) [OF inv w] .
  have nb: "\<not> busy S w" using sys_inv_slots(1) [OF inv w] idle by (auto simp: slot_ok_def Let_def)
  obtain s1 where s1: "dispatch_request (core S) w t1 = Inr s1" "sys_inv n (S\<lparr>core := s1\<rparr>)" "queue_of s1 = []"
      "dr_flag (dispatcher_requests s1 w) = ACTIVE" "req_data (dispatcher_requests s1 w) = (c, mb, ty, PACKET, ts)"
      "freed s1 = freed (core S)" "bench s1 = bench (core S)"
    using dispatch_request_gives [OF inv w idle q, of t1] by blast
  obtain s2 where s2: "worker_round s1 w t2 = Inr s2" "sys_inv n (S\<lparr>core := s2\<rparr>)" "queue_of s2 = []" "freed s2 = freed (core S)"
      "resp_data (worker_responses s2 w) = (c, mb, ty, CONTEXT, ts)" "wr_flag (worker_responses s2 w) = PREEMPTED"
      "bench s2 = first_packet (bench (core S)) t2"
    using worker_round_inv [OF s1(2) w _ _ _, of c mb ty PACKET ts t2] nb s1(3-7) by auto
  obtain s2' where s2': "handle_preempted s2 w = Inr s2'" "sys_inv n (S\<lparr>core := s2'\<rparr>)" "queue_of s2' = [(c, mb, ty, CONTEXT, ts)]"
      "wr_flag (worker_responses s2' w) = PROCESSED" "freed s2' = freed (core S)" "bench s2' = bench s2"
    using handle_preempted_inv [OF s2(2) w] s2(3-6) by auto
  obtain s3 where s3: "dispatch_request s2' w t3 = Inr s3" "sys_inv n (S\<lparr>core := s3\<rparr>)" "queue_of s3 = []"
      "dr_flag (dispatcher_requests s3 w) = ACTIVE" "req_data (dispatcher_requests s3 w) = (c, mb, ty, CONTEXT, ts)"
      "freed s3 = freed (core S)" "bench s3 = bench s2"
    using dispatch_request_gives [OF s2'(2) w, of _ _ t3] s2'(3-6) by auto
  obtain s4 where s4: "worker_round s3 w t4 = Inr s4" "sys_inv n (S\<lparr>core := s4\<rparr>)" "queue_of s4 = []" "freed s4 = freed (core S)"
      "resp_data (worker_responses s4 w) = (c, mb, ty, CONTEXT, ts)" "wr_flag (worker_responses s4 w) = FINISHED"
      "bench s4 = work_end (bench s2) (req_type s3 mb) t4"
    using worker_round_inv [OF s3(2) w _ _ _, of c mb ty CONTEXT ts t4] nb s3(3-7) by auto
  obtain s5 where s5: "handle_finished s4 w = Inr s5" "sys_inv n (S\<lparr>core := s5\<rparr>)" "queue_of s5 = []"
      "wr_flag (worker_responses s5 w) = PROCESSED" "freed s5 = freed (core S) @ [mb]" "bench s5 = bench s4"
    using handle_finished_inv [OF s4(2) w] s4(3-6) by (auto simp: resp_data_def)
  have "dispatch_request s5 w t5 = Inr s5"
    using dispatch_request_Nil [of s5 w t5] sys_inv_parts(1) [OF s5(2)] s5(3) by simp
  then have "dispatch_worker s4 w t5 = Inr s5" "dispatch_worker s2 w t3 = Inr s3" "dispatch_worker (core S) w t1 = Inr s1"
    using bd s4(6) s5(1) s2(6) s2'(1) s3(1) s1(1) idle by (simp_all add: dispatch_worker_def)
  then show ?thesis
    using s1 s2 s4 s5 by (auto simp: work_end_counts first_packet_counts)
qed

theorem request_two_quanta_witness:
  "\<exists>S s1 s2 s3 s4 s5. (sys_step 2)\<^sup>*\<^sup>* ex_boot S \<and> dispatch_worker (core S) 1 0 = Inr s1 \<and> worker_round s1 1 0 = Inr s2 \<and>
     dispatch_worker s2 1 0 = Inr s3 \<and> worker_round s3 1 0 = Inr s4 \<and> dispatch_worker s4 1 0 = Inr s5 \<and>
     freed s5 = freed (core S) @ [9]"
proof -
  obtain S where S: "(sys_step 2)\<^sup>*\<^sup>* ex_boot S" "queue_of (core S) = [(4096, 9, 1, PACKET, 0)]"
      "wr_flag (worker_responses (core S) 1) = PROCESSED"
    using ex_reach ex_idle by metis
  have "(1::nat) \<in> {1..2}" by simp
  from request_two_quanta [OF ex_boot_start S(1) this S(3,2), of 0 0 0 0 0] S(1) show ?thesis by blast
qed

text \<open>
  C14: After a successful \<open>taskqueue_init\<close> the program starts in a state with no request anywhere and
  room in the task queue for every context, whichever threads have called \<open>init_worker\<close>.
\<close>

theorem boot_establishes_start:
  assumes "taskqueue_init uc ps0 m1 m2 m3 m4 = Inr (0, ps)" "0 < uc" "uc \<le> 2730"
    and "malloc_ok (786432 * 40) m1" "malloc_ok (786432 * 16) m2"
    and "malloc_ok (786432 * uc) m3" "malloc_ok (786432 * 2048) m4" "n < MAX_WORKER_SLOTS"
  shows "sys_start n (boot ps rt um ws)"
proof -
  have ps: "mempool_wf (tp_task ps)" "length (mp_avail (tp_task ps)) = 786432"
      "ctx_wf \<lparr>contexts = (\<lambda>_. \<lparr>ss_sp = 0, ss_size = 0, uc_link = 0\<rparr>), context_pool = tp_context ps,
         stack_pool = tp_stack ps, stack_mem = (\<lambda>_. 0)\<rparr> []" "unat (capacity (tp_context ps)) = 786432"
    using taskqueue_init_pools(1) [OF assms(2-7), of ps0] assms(1) by auto
  show ?thesis by (rule boot_start) (simp_all add: ps assms(8))
qed

theorem boot_establishes_start_witness:
  "\<exists>ps. taskqueue_init 968 ex_task_pools (65536, 16) (2147483648, 16) (4294967296, 16) (8589934592, 16) = Inr (0, ps) \<and>
     sys_start 14 (boot ps (\<lambda>_. DB_GET) (\<lambda>_. 77) [1, 2])"
proof -
  have m: "malloc_ok (786432 * 40) (65536, 16)" "malloc_ok (786432 * 16) (2147483648, 16)"
    "malloc_ok (786432 * 968) (4294967296, 16)" "malloc_ok (786432 * 2048) (8589934592, 16)"
    by (simp_all add: malloc_ok_def)
  then obtain ps where ps: "taskqueue_init 968 ex_task_pools (65536, 16) (2147483648, 16) (4294967296, 16) (8589934592, 16) = Inr (0, ps)"
    using taskqueue_init_pools(1) [of 968 "(65536, 16)" "(2147483648, 16)" "(4294967296, 16)" "(8589934592, 16)" ex_task_pools] by auto
  from boot_establishes_start [OF ps _ _ m, of 14] ps show ?thesis by (auto simp: MAX_WORKER_SLOTS_def)
qed

lemma simple_generic_work_frame:
  "worker_responses (simple_generic_work s w i k p t) = worker_responses s"
  "dispatcher_requests (simple_generic_work s w i k p t) = dispatcher_requests s"
  by (simp_all add: simple_generic_work_def split: option.splits prod.splits)

lemma swapcontext_frame:
  assumes "swapcontext s w t = Inr s'"
  shows "worker_responses s' = worker_responses s \<and> dispatcher_requests s' = dispatcher_requests s"
  using assms by (auto simp: swapcontext_def simple_generic_work_frame split: coro.splits)

lemma worker_run_frame:
  assumes "worker_run s v t = Inr s'"
  shows "worker_responses s' = worker_responses s \<and> (w \<noteq> v \<longrightarrow> dispatcher_requests s' w = dispatcher_requests s w)"
  using assms
  by (auto simp: worker_run_def handle_fake_new_packet_def handle_context_def makecontext_def Let_def res_bind_eq_Inr
      dest!: swapcontext_frame split: if_splits)

text \<open>
  C15: \<open>init_worker\<close> marks worker 1 only, whoever calls it.  A worker with another number stays marked
  as running from the start: in no reachable state has it been given a request.
\<close>

theorem boot_starves_workers:
  assumes "(sys_step n)\<^sup>*\<^sup>* (boot ps rt um ws) S" "w \<noteq> 1"
  shows "wr_flag (worker_responses (core S) w) = RUNNING \<and> dr_flag (dispatcher_requests (core S) w) = WAITING \<and> \<not> busy S w"
  using assms(1)
proof (induction rule: rtranclp_induct)
  case base
  then show ?case using assms(2) by (simp add: boot_def fold_init_worker boot_sched_def RUNNING_def WAITING_def)
next
  case (step S S')
  from step.hyps(2) step.IH show ?case
  proof (induction rule: sys_step.induct)
    case (dispatch i S t s)
    then show ?case using dispatch_worker_frame [of "core S" i t s w] by simp
  next
    case (run v S t s)
    then show ?case using worker_run_frame [of "core S" v t s w] by auto
  next
    case (report v S)
    then show ?case by (auto simp: finish_request_def Let_def)
  qed (auto simp: net_accept_def Let_def res_bind_eq_Inr split: if_splits)
qed

theorem boot_starves_workers_witness:
  "\<exists>S. (sys_step 2)\<^sup>*\<^sup>* ex_boot S \<and> accepted S = [9] \<and> wr_flag (worker_responses (core S) 2) = RUNNING \<and> \<not> busy S 2"
proof -
  obtain S where S: "(sys_step 2)\<^sup>*\<^sup>* ex_boot S" "accepted S = [9]" using ex_reach by blast
  then show ?thesis using boot_starves_workers [of 2 ex_task_pools "\<lambda>_. DB_GET" "\<lambda>_. 77" "[1]" S 2] by (auto simp: ex_boot_def)
qed

text \<open>
  A late call of \<open>init_worker\<close> loses a request.  When worker 1 has a request and some thread runs
  \<open>init_worker\<close>, the next pass of the dispatcher overwrites the slot of worker 1 with the head of
  the queue: exactly the request worker 1 held is no longer in flight, and it is not freed.
\<close>

theorem init_worker_loses_request:
  assumes "sys_start n S0" "(sys_step n)\<^sup>*\<^sup>* S0 S" "1 \<le> n"
    and run: "wr_flag (worker_responses (core S) 1) = RUNNING" "dr_flag (dispatcher_requests (core S) 1) = ACTIVE"
    and q: "queue_of (core S) = d # ds"
  shows "\<exists>s. dispatch_worker (init_worker (core S) v) 1 t = Inr s \<and> freed s = freed (core S) \<and>
     inflight n S = add_mset (tok (req_data (dispatcher_requests (core S) 1))) (inflight n (S\<lparr>core := s\<rparr>))"
proof -
  let ?i = "init_worker (core S) v"
  have inv: "sys_inv n S" using sys_reach_inv [OF assms(2) sys_start_inv [OF assms(1)]] .
  have i: "1 \<in> {1..n}" using assms(3) by simp
  have eq: "tskq ?i = tskq (core S)" "tmem ?i = tmem (core S)" "dispatcher_requests ?i = dispatcher_requests (core S)" "freed ?i = freed (core S)"
      "worker_responses ?i = (worker_responses (core S))(1 := (worker_responses (core S) 1)\<lparr>wr_flag := PROCESSED\<rparr>)"
    by (simp_all add: init_worker_def)
  have "tskq_wf (tskq ?i, tmem ?i)" "queue_of ?i = d # ds" using sys_inv_parts(1) [OF inv] q eq by simp_all
  then obtain s r where s: "dispatch_request ?i 1 t = Inr s" "queue_of s = ds" "freed s = freed ?i"
      "worker_responses s = (worker_responses ?i)(1 := (worker_responses ?i 1)\<lparr>wr_flag := RUNNING\<rparr>)"
      "dispatcher_requests s = (dispatcher_requests ?i)(1 := r)" "dr_flag r = ACTIVE" "req_data r = d"
    by (rule dispatch_request_Cons [of ?i d ds 1 t])
  let ?S = "S\<lparr>core := s\<rparr>"
  have "slot ?S w = slot S w" if "w \<noteq> 1" for w using that s eq by (intro slot_cong) simp_all
  then have oth: "others n S 1 = add_mset (tok d) (others n ?S 1)" using q s(2) by (simp add: others_def)
  have "slot ?S 1 = {#tok d#}" using s eq slot_active [of ?S 1] by simp
  moreover have "slot S 1 = {#tok (req_data (dispatcher_requests (core S) 1))#}" using slot_active [OF run] .
  moreover have "dispatch_worker ?i 1 t = Inr s"
    using s(1) eq by (simp add: dispatch_worker_def MAX_WORKER_SLOTS_def)
  ultimately show ?thesis
    using s(3) eq(4) oth inflight_split [OF i, of S] inflight_split [OF i, of ?S] by (intro exI [of _ s]) simp
qed

lemma ex_running:
  "\<exists>S d ds. (sys_step 2)\<^sup>*\<^sup>* ex_boot S \<and> wr_flag (worker_responses (core S) 1) = RUNNING \<and>
     dr_flag (dispatcher_requests (core S) 1) = ACTIVE \<and> tok (req_data (dispatcher_requests (core S) 1)) = (4096, 9) \<and>
     queue_of (core S) = d # ds"
proof -
  obtain s1 where s1: "net_accept (core ex_boot) 9 0 = Inr (True, s1)" "queue_of s1 = [(4096, 9, 1, PACKET, 0)]"
      "worker_responses s1 = worker_responses (core ex_boot)" "mp_avail (context_pool (cmem s1)) = [4608, 5120]"
      "mp_avail (stack_pool (cmem s1)) = [4608, 5120]" using ex_arrive by blast
  let ?S1 = "ex_boot\<lparr>core := s1, accepted := accepted ex_boot @ [9]\<rparr>"
  have st1: "(sys_step 2)\<^sup>*\<^sup>* ex_boot ?S1" using s1(1) by (intro r_into_rtranclp sys_step.arrive) simp_all
  have inv1: "sys_inv 2 ?S1" using sys_reach_inv [OF st1 sys_start_inv [OF ex_boot_start]] .
  have two: "(1::nat) \<in> {1..2}" by simp
  have "wr_flag (worker_responses s1 1) = PROCESSED" using s1(3) ex_idle by simp
  then have d: "dispatch_worker s1 1 0 = dispatch_request s1 1 0" by (simp add: dispatch_worker_def MAX_WORKER_SLOTS_def)
  have wf1: "tskq_wf (tskq s1, tmem s1)" using sys_inv_parts(1) [OF inv1] by simp
  obtain s2 r where s2: "dispatch_request s1 1 0 = Inr s2" "cmem s2 = cmem s1" "dispatcher_requests s2 = (dispatcher_requests s1)(1 := r)"
      "worker_responses s2 = (worker_responses s1)(1 := (worker_responses s1 1)\<lparr>wr_flag := RUNNING\<rparr>)"
      "dr_flag r = ACTIVE" "req_data r = (4096, 9, 1, PACKET, 0)"
    by (rule dispatch_request_Cons [OF wf1 s1(2), of 1 0])
  have "sys_step 2 ?S1 (?S1\<lparr>core := s2\<rparr>)" using s2(1) d by (intro sys_step.dispatch [of 1]) simp_all
  then have st2: "(sys_step 2)\<^sup>*\<^sup>* ex_boot (?S1\<lparr>core := s2\<rparr>)" using st1 by (rule rtranclp.rtrancl_into_rtrancl [rotated])
  have inv2: "sys_inv 2 (?S1\<lparr>core := s2\<rparr>)" using sys_reach_inv [OF st2 sys_start_inv [OF ex_boot_start]] .
  obtain s3 where s3: "net_accept s2 8 0 = Inr (True, s3)" "queue_of s3 = queue_of s2 @ [(4608, 8, 1, PACKET, 0)]"
      "worker_responses s3 = worker_responses s2" "dispatcher_requests s3 = dispatcher_requests s2"
    using net_accept_room [OF inv2, of 4608 "[5120]" 4608 "[5120]" 8 0] s1(4,5) s2(2) by auto
  have "sys_step 2 (?S1\<lparr>core := s2\<rparr>) (?S1\<lparr>core := s3, accepted := accepted ?S1 @ [8]\<rparr>)"
    using sys_step.arrive [of "?S1\<lparr>core := s2\<rparr>" 8 0 s3 2] s3(1) by simp
  then have "(sys_step 2)\<^sup>*\<^sup>* ex_boot (?S1\<lparr>core := s3, accepted := accepted ?S1 @ [8]\<rparr>)"
    using st2 by (rule rtranclp.rtrancl_into_rtrancl [rotated])
  moreover have "\<exists>d ds. queue_of s3 = d # ds" using s3(2) by (cases "queue_of s2") auto
  ultimately show ?thesis using s2 s3(3,4) by (intro exI [of _ "?S1\<lparr>core := s3, accepted := accepted ?S1 @ [8]\<rparr>"]) (simp add: tok_def)
qed

theorem init_worker_loses_request_witness:
  "\<exists>S s. (sys_step 2)\<^sup>*\<^sup>* ex_boot S \<and> dispatch_worker (init_worker (core S) 2) 1 3 = Inr s \<and>
     inflight 2 S = add_mset (4096, 9) (inflight 2 (S\<lparr>core := s\<rparr>))"
proof -
  obtain S d ds where S: "(sys_step 2)\<^sup>*\<^sup>* ex_boot S" "wr_flag (worker_responses (core S) 1) = RUNNING"
      "dr_flag (dispatcher_requests (core S) 1) = ACTIVE" "tok (req_data (dispatcher_requests (core S) 1)) = (4096, 9)"
      "queue_of (core S) = d # ds" using ex_running by blast
  from init_worker_loses_request [OF ex_boot_start S(1) _ S(2,3,5), of 2 3] S(1,4) show ?thesis by auto
qed

end
