(* ===== verification/Net_Worker.thy ===== *)
theory Net_Worker
  imports Sched_System Udp_Context
begin

text \<open>
  The network thread, \<^verbatim>\<open>src/c++/libos/su/net_su.cc\<close>, and the packet generator of the application's
  \<open>main\<close> (\<^verbatim>\<open>src/c++/apps/app/psp_app.cc\<close>).  A round of \<open>NetWorker::work\<close> runs the dispatcher and moves
  a batch of packets from the inbound ring to the task queue.  The loops that need not end have a
  fuel argument: \<open>OutOfFuel\<close> for every fuel is a loop that never ends.
\<close>

section \<open>State and operations\<close>

record networker =
  nw_udp :: UdpContext
  nw_sched :: sched
  nw_n_peers :: nat
  nw_n_batchs_rcvd :: u64
  nw_n_rcvd :: u32

definition BENCHMARK_DURATION_US :: u64 where "BENCHMARK_DURATION_US = 60000000"
definition BENCHMARK_CREATE_NO_PACKET :: nat where "BENCHMARK_CREATE_NO_PACKET = 100"

text \<open>\<open>has_ctx\<close> tells whether the worker has a UDP context.\<close>

definition net_setup :: "bool \<Rightarrow> int result" where
  "net_setup has_ctx = psp_true EPERM has_ctx (Inr 0)"

definition net_dequeue :: int where "net_dequeue = ENOTSUP"
definition net_process_request :: "u64 \<Rightarrow> int" where "net_process_request payload = ENOTSUP"

text \<open>The packet loop of \<open>work\<close>.  Without a context it goes on with the same packet.\<close>

fun net_loop :: "nat \<Rightarrow> UdpContext \<Rightarrow> sched \<Rightarrow> nat \<Rightarrow> u64 \<Rightarrow> (nat \<times> UdpContext \<times> sched) result" where
  "net_loop 0 u s batch_dequeued cur_tsc = Inl OutOfFuel"
| "net_loop (Suc fuel) u s batch_dequeued cur_tsc =
     (if pop_tail u < pop_head u \<and> batch_dequeued < MAX_RX_BURST then
        let req = inbound_queue u (unat (pop_tail u AND (INBOUND_Q_LEN - 1))) in
        res_bind (net_accept s req cur_tsc) (\<lambda>(ok, s).
          if \<not> ok then net_loop fuel u s batch_dequeued cur_tsc
          else net_loop fuel (u\<lparr>pop_tail := pop_tail u + 1\<rparr>) s (batch_dequeued + 1) cur_tsc)
      else Inr (batch_dequeued, u, s))"

text \<open>\<open>now\<close> is what \<open>get_us\<close> returns; \<open>t1\<close> and \<open>t2\<close> are the two readings of the time stamp counter.\<close>

definition bench_over :: "bench \<Rightarrow> u64 \<Rightarrow> bool" where
  "bench_over b now \<longleftrightarrow> IS_FIRST_PACKET b \<and> (TEST_FINISHED b \<or> BENCHMARK_DURATION_US < now - TEST_START_TIME b)"

definition net_work :: "nat \<Rightarrow> networker \<Rightarrow> u64 \<Rightarrow> u64 \<Rightarrow> u64 \<Rightarrow> (int \<times> networker) result" where
  "net_work fuel nw now t1 t2 =
     (if bench_over (bench (nw_sched nw)) now then Inr (1, nw)
      else
        res_bind (dispatch (nw_sched nw) (nw_n_peers nw) t1) (\<lambda>(r, s). psp_ok r (
          res_bind (net_loop fuel (nw_udp nw) s 0 t2) (\<lambda>(batch_dequeued, u, s).
            Inr (0, nw\<lparr>nw_udp := u, nw_sched := s, nw_n_batchs_rcvd := nw_n_batchs_rcvd nw + 1,
                   nw_n_rcvd := nw_n_rcvd nw + of_nat batch_dequeued\<rparr>)))))"

text \<open>
  The loop of \<open>Worker::main_loop\<close> for the network thread: \<open>dequeue\<close> never returns \<open>EAGAIN\<close>, so
  every round calls \<open>work\<close>.  \<open>env\<close> lists the clock readings of the rounds before \<open>terminate\<close> is set; the
  result tells whether the thread reached the end of \<open>main_loop\<close>.
\<close>

fun net_main_loop :: "nat \<Rightarrow> networker \<Rightarrow> (u64 \<times> u64 \<times> u64) list \<Rightarrow> (bool \<times> networker) result" where
  "net_main_loop fuel nw [] = Inr (True, nw)"
| "net_main_loop fuel nw ((now, t1, t2) # env) =
     (if net_dequeue = EAGAIN then net_main_loop fuel nw env
      else res_bind (net_work fuel nw now t1 t2) (\<lambda>(r, nw).
        if r \<noteq> 0 then Inr (False, nw) else net_main_loop fuel nw env))"

text \<open>\<open>m\<close> is what \<open>rte_pktmbuf_alloc\<close> returns and \<open>rnd\<close> what \<open>rand\<close> returns.  The request is written
  before the result of the allocation is tested.\<close>

definition sent_fake_packet :: "networker \<Rightarrow> ptr \<Rightarrow> nat \<Rightarrow> (int \<times> networker) result" where
  "sent_fake_packet nw m rnd =
     (if m = NULL then Inl NullDeref
      else
        let s = (nw_sched nw)\<lparr>req_type := (req_type (nw_sched nw))
                  (m := if rnd mod 2 \<noteq> 0 then DB_GET else DB_ITERATOR)\<rparr>;
            u = nw_udp nw in
        if m = NULL then Inr (ENOMEM, nw\<lparr>nw_sched := s\<rparr>)
        else Inr (0, nw\<lparr>nw_sched := s,
          nw_udp := u\<lparr>inbound_queue := (inbound_queue u)(unat (pop_head u AND (INBOUND_Q_LEN - 1)) := m),
                      pop_head := pop_head u + 1\<rparr>\<rparr>))"

text \<open>The generator loop of \<open>main\<close>: one allocation and one random number per packet.\<close>

fun fake_packets :: "networker \<Rightarrow> (ptr \<times> nat) list \<Rightarrow> networker result" where
  "fake_packets nw [] = Inr nw"
| "fake_packets nw ((m, rnd) # ps) = res_bind (sent_fake_packet nw m rnd) (\<lambda>(r, nw). fake_packets nw ps)"

section \<open>The packet loop\<close>

lemma inbound_pop:
  assumes "pop_tail u < pop_head u"
  shows "inbound u = inbound_queue u (unat (pop_tail u AND (INBOUND_Q_LEN - 1))) # inbound (u\<lparr>pop_tail := pop_tail u + 1\<rparr>)"
proof -
  have "unat (pop_tail u AND 127) = ring_idx 7 (pop_tail u)"
    using unat_and_mask_ring_idx [of "pop_tail u" 7] by simp
  then show ?thesis
    using ring_list_pop [of "pop_head u" "pop_tail u" 7 "inbound_queue u"] assms by (simp add: INBOUND_Q_LEN_def)
qed

abbreviation ctxs_of :: "sched \<Rightarrow> ptr list" where
  "ctxs_of s \<equiv> mp_avail (context_pool (cmem s))"

abbreviation stks_of :: "sched \<Rightarrow> ptr list" where
  "stks_of s \<equiv> mp_avail (stack_pool (cmem s))"

text \<open>The tasks of packets \<open>ms\<close> that get the contexts \<open>cs\<close>.\<close>

definition new_tasks :: "u64 \<Rightarrow> ptr list \<Rightarrow> ptr list \<Rightarrow> task_data list" where
  "new_tasks t cs ms = map (\<lambda>(c, m). (c, m, 1, PACKET, t)) (zip cs ms)"

lemma net_loop_steps:
  assumes "sys_inv n S" "core S = s" "pop_tail u \<le> pop_head u" "NULL \<notin> set (inbound u)"
    and "k = min (8 - batch) (length (inbound u))" "k \<le> length (ctxs_of s)" "k \<le> length (stks_of s)" "k < fuel"
  shows "\<exists>u' s'. net_loop fuel u s batch t = Inr (batch + k, u', s') \<and> inbound u' = drop k (inbound u) \<and>
     pop_tail u' \<le> pop_head u' \<and> outbound u' = outbound u \<and>
     queue_of s' = queue_of s @ new_tasks t (take k (ctxs_of s)) (take k (inbound u)) \<and>
     (sys_step n)\<^sup>*\<^sup>* S (S\<lparr>core := s', accepted := accepted S @ take k (inbound u)\<rparr>)"
  using assms
proof (induction fuel arbitrary: u s S batch k)
  case 0
  then show ?case by simp
next
  case (Suc fuel)
  show ?case
  proof (cases "pop_tail u < pop_head u \<and> batch < 8")
    case False
    then have "k = 0" using Suc.prems(3,5) by (auto simp: not_less)
    then show ?thesis using False Suc.prems(2,3) by (auto simp: MAX_RX_BURST_def new_tasks_def)
  next
    case True
    let ?m = "inbound_queue u (unat (pop_tail u AND (INBOUND_Q_LEN - 1)))" and ?u = "u\<lparr>pop_tail := pop_tail u + 1\<rparr>"
    have in_u: "inbound u = ?m # inbound ?u" using inbound_pop True by blast
    have "pop_tail ?u \<le> pop_head ?u" using inc_le [of "pop_tail u" "pop_head u"] True by simp
    moreover have "?m \<noteq> NULL" "NULL \<notin> set (inbound ?u)" using Suc.prems(4) unfolding in_u by auto
    moreover have "8 - batch = Suc (8 - Suc batch)" using True by arith
    then obtain j where j: "k = Suc j" "j = min (8 - Suc batch) (length (inbound ?u))"
      using Suc.prems(5) unfolding in_u by (simp only: list.size add_Suc_right add_0_right min_Suc_Suc)
    moreover obtain c cs x xs where c: "ctxs_of s = c # cs" "stks_of s = x # xs"
      using Suc.prems(6,7) j(1) by (cases "ctxs_of s"; cases "stks_of s") auto
    moreover obtain s1 where s1: "net_accept s ?m t = Inr (True, s1)" "queue_of s1 = queue_of s @ [(c, ?m, 1, PACKET, t)]"
        "ctxs_of s1 = cs" "stks_of s1 = xs"
      using net_accept_room [OF Suc.prems(1), of c cs x xs ?m t] c Suc.prems(2) by auto
    let ?S = "S\<lparr>core := s1, accepted := accepted S @ [?m]\<rparr>"
    have st: "sys_step n S ?S" using s1(1) Suc.prems(2) \<open>?m \<noteq> NULL\<close> by (intro sys_step.arrive) simp_all
    have "\<exists>u' s'. net_loop fuel ?u s1 (Suc batch) t = Inr (Suc batch + j, u', s') \<and> inbound u' = drop j (inbound ?u) \<and>
        pop_tail u' \<le> pop_head u' \<and> outbound u' = outbound ?u \<and>
        queue_of s' = queue_of s1 @ new_tasks t (take j (ctxs_of s1)) (take j (inbound ?u)) \<and>
        (sys_step n)\<^sup>*\<^sup>* ?S (?S\<lparr>core := s', accepted := accepted ?S @ take j (inbound ?u)\<rparr>)"
      using Suc.prems(6-8) c s1(3,4) j calculation
      by (intro Suc.IH sys_step_inv [OF st Suc.prems(1)]) simp_all
    then obtain u' s' where r: "net_loop fuel ?u s1 (Suc batch) t = Inr (Suc batch + j, u', s')" "inbound u' = drop j (inbound ?u)"
        "pop_tail u' \<le> pop_head u'" "outbound u' = outbound ?u"
        "queue_of s' = queue_of s1 @ new_tasks t (take j (ctxs_of s1)) (take j (inbound ?u))"
        "(sys_step n)\<^sup>*\<^sup>* ?S (?S\<lparr>core := s', accepted := accepted ?S @ take j (inbound ?u)\<rparr>)" by blast
    have "net_loop (Suc fuel) u s batch t = Inr (batch + k, u', s')"
      using True s1(1) r(1) j(1) by (simp add: MAX_RX_BURST_def Let_def)
    moreover have "(sys_step n)\<^sup>*\<^sup>* S (S\<lparr>core := s', accepted := accepted S @ take k (inbound u)\<rparr>)"
      using converse_rtranclp_into_rtranclp [of "sys_step n", OF st r(6)] unfolding in_u j(1) by simp
    moreover have "queue_of s' = queue_of s @ new_tasks t (take k (ctxs_of s)) (take k (inbound u))"
      using r(5) s1(2,3) c(1) unfolding in_u j(1) by (simp add: new_tasks_def)
    ultimately show ?thesis using r(2-4) unfolding in_u j(1) by (intro exI [of _ u'] exI [of _ s']) simp
  qed
qed

lemma dispatch_loop_steps:
  assumes "dispatch_loop (core S) is t = Inr s" "set is \<subseteq> {1..n}"
  shows "(sys_step n)\<^sup>*\<^sup>* S (S\<lparr>core := s\<rparr>)"
  using assms
proof (induction "is" arbitrary: S)
  case Nil
  then show ?case by (cases S) simp
next
  case (Cons i js)
  then obtain s1 where s1: "dispatch_worker (core S) i t = Inr s1" "dispatch_loop s1 js t = Inr s"
    by (auto simp: res_bind_eq_Inr)
  have "sys_step n S (S\<lparr>core := s1\<rparr>)" using s1(1) Cons.prems(2) by (intro sys_step.dispatch) auto
  moreover have "(sys_step n)\<^sup>*\<^sup>* (S\<lparr>core := s1\<rparr>) (S\<lparr>core := s\<rparr>)" using Cons.IH [of "S\<lparr>core := s1\<rparr>"] s1(2) Cons.prems(2) by simp
  ultimately show ?case by (rule converse_rtranclp_into_rtranclp)
qed

lemma dispatch_steps:
  assumes "dispatch (core S) n t = Inr (r, s)"
  shows "(sys_step n)\<^sup>*\<^sup>* S (S\<lparr>core := s\<rparr>)"
proof -
  have "set [1..<n + 1] \<subseteq> {1..n}" by auto
  moreover have "dispatch_loop (core S) [1..<n + 1] t = Inr s" using assms by (simp add: dispatch_def res_bind_eq_Inr)
  ultimately show ?thesis using dispatch_loop_steps by blast
qed

section \<open>Properties\<close>

text \<open>
  C19: A round of the network thread refines the system.  While the benchmark runs, in a reachable
  state and with enough free contexts for the batch, \<open>NetWorker::work\<close> returns 0 after at most eight
  packets: it takes the oldest pending packets (no more than eight) from the inbound ring, queues
  them in order, each with a context of its own, counts them, and the whole round is a sequence of
  steps of the system of dispatcher and workers.
\<close>

theorem net_work_refines_system:
  assumes "sys_start n S0" "(sys_step n)\<^sup>*\<^sup>* S0 S" and nw: "nw_sched nw = core S" "nw_n_peers nw = n"
    and run: "\<not> bench_over (bench (core S)) now" and ring: "pop_tail (nw_udp nw) \<le> pop_head (nw_udp nw)" "NULL \<notin> set (inbound (nw_udp nw))"
    and d: "dispatch (core S) n t1 = Inr (0, s1)" and k: "k = min 8 (length (inbound (nw_udp nw)))"
    and room: "k \<le> length (ctxs_of s1)" "k \<le> length (stks_of s1)"
  shows "\<exists>nw'. net_work 9 nw now t1 t2 = Inr (0, nw') \<and> inbound (nw_udp nw') = drop k (inbound (nw_udp nw)) \<and>
     queue_of (nw_sched nw') = queue_of s1 @ new_tasks t2 (take k (ctxs_of s1)) (take k (inbound (nw_udp nw))) \<and>
     nw_n_rcvd nw' = nw_n_rcvd nw + of_nat k \<and>
     (sys_step n)\<^sup>*\<^sup>* S (S\<lparr>core := nw_sched nw', accepted := accepted S @ take k (inbound (nw_udp nw))\<rparr>)"
proof -
  let ?S = "S\<lparr>core := s1\<rparr>"
  have st: "(sys_step n)\<^sup>*\<^sup>* S ?S" using dispatch_steps [OF d] .
  have inv: "sys_inv n ?S" using sys_reach_inv [OF rtranclp_trans [OF assms(2) st] sys_start_inv [OF assms(1)]] .
  have "k < 9" "k = min (8 - 0) (length (inbound (nw_udp nw)))" using k by simp_all
  then obtain u' s' where r: "net_loop 9 (nw_udp nw) s1 0 t2 = Inr (k, u', s')" "inbound u' = drop k (inbound (nw_udp nw))"
      "queue_of s' = queue_of s1 @ new_tasks t2 (take k (ctxs_of s1)) (take k (inbound (nw_udp nw)))"
      "(sys_step n)\<^sup>*\<^sup>* ?S (?S\<lparr>core := s', accepted := accepted ?S @ take k (inbound (nw_udp nw))\<rparr>)"
    using net_loop_steps [OF inv _ ring, of s1 k 0 9 t2] room by auto
  have "(sys_step n)\<^sup>*\<^sup>* S (S\<lparr>core := s', accepted := accepted S @ take k (inbound (nw_udp nw))\<rparr>)"
    using rtranclp_trans [OF st r(4)] by simp
  then show ?thesis using r d nw run by (simp add: net_work_def)
qed

definition ex_nw :: "sched \<Rightarrow> networker" where
  "ex_nw s = \<lparr>nw_udp = ex_udp\<lparr>inbound_queue := (\<lambda>_. 9), pop_tail := 5, pop_head := 7\<rparr>, nw_sched = s, nw_n_peers = 0,
     nw_n_batchs_rcvd = 0, nw_n_rcvd = 0\<rparr>"

lemma ex_inbound: "inbound (nw_udp (ex_nw s)) = [9, 9]"
  by (simp add: ex_nw_def ring_list_def upt_rec)

lemma ex_boot0_start: "sys_start 0 ex_boot"
  using ex_boot_start by (simp add: sys_start_def)

theorem net_work_refines_system_witness:
  "\<exists>nw'. net_work 9 (ex_nw (core ex_boot)) 0 0 3 = Inr (0, nw') \<and> inbound (nw_udp nw') = [] \<and>
     queue_of (nw_sched nw') = [(4096, 9, 1, PACKET, 3), (4608, 9, 1, PACKET, 3)] \<and> nw_n_rcvd nw' = 2"
proof -
  let ?nw = "ex_nw (core ex_boot)"
  have nw: "nw_sched ?nw = core ex_boot" "nw_n_peers ?nw = 0" "nw_n_rcvd ?nw = 0" "pop_tail (nw_udp ?nw) \<le> pop_head (nw_udp ?nw)"
    by (simp_all add: ex_nw_def)
  have run: "\<not> bench_over (bench (core ex_boot)) 0"
    by (simp add: bench_over_def ex_boot_def boot_def boot_sched_def init_worker_def)
  have nn: "NULL \<notin> set (inbound (nw_udp ?nw))" by (simp add: ex_inbound)
  have d: "dispatch (core ex_boot) 0 0 = Inr (0, core ex_boot)" by (simp add: dispatch_def)
  have k: "2 = min 8 (length (inbound (nw_udp ?nw)))" by (simp add: ex_inbound del: length_ring_list)
  have av: "ctxs_of (core ex_boot) = [4096, 4608, 5120]" "stks_of (core ex_boot) = [4096, 4608, 5120]"
    by (simp_all add: ex_boot_fields ex_ctx_mem_def ex_pool_def mp_avail_def)
  then have room: "2 \<le> length (ctxs_of (core ex_boot))" "2 \<le> length (stks_of (core ex_boot))" by simp_all
  have "queue_of (core ex_boot) = []" by (simp add: ex_boot_fields ex_tskq_measures)
  moreover obtain nw' where "net_work 9 ?nw 0 0 3 = Inr (0, nw')" "inbound (nw_udp nw') = drop 2 (inbound (nw_udp ?nw))"
      "queue_of (nw_sched nw') = queue_of (core ex_boot) @ new_tasks 3 (take 2 (ctxs_of (core ex_boot))) (take 2 (inbound (nw_udp ?nw)))"
      "nw_n_rcvd nw' = nw_n_rcvd ?nw + of_nat 2"
    using net_work_refines_system [OF ex_boot0_start rtranclp.rtrancl_refl nw(1,2) run nw(4) nn d k room, of 3] by blast
  ultimately show ?thesis
    by (intro exI [of _ nw']) (simp add: ex_inbound av nw(3) new_tasks_def del: ring_list_eq_Nil)
qed

text \<open>
  C20: Without a free context the network thread is stuck.  The loop of \<open>NetWorker::work\<close> retries the same
  packet for ever, and as the dispatcher runs in this thread no context is ever freed: for no number
  of iterations does the round end.
\<close>

theorem net_work_stuck_without_context:
  assumes "\<not> bench_over (bench (nw_sched nw)) now" "dispatch (nw_sched nw) (nw_n_peers nw) t1 = Inr (0, s1)"
    and "capacity (context_pool (cmem s1)) \<le> allocated (context_pool (cmem s1))"
    and "pop_tail (nw_udp nw) < pop_head (nw_udp nw)"
  shows "\<forall>fuel. net_work fuel nw now t1 t2 = Inl OutOfFuel"
proof
  fix fuel
  have "context_alloc (cmem s1) = Inr (-1, NULL, cmem s1)"
    using assms(3) by (simp add: context_alloc_def mempool_alloc_def)
  then have "net_accept s1 m t2 = Inr (False, s1)" for m by (simp add: net_accept_def Let_def)
  then have "net_loop fuel (nw_udp nw) s1 0 t2 = Inl OutOfFuel"
    using assms(4) by (induction fuel) (simp_all add: MAX_RX_BURST_def Let_def)
  then show "net_work fuel nw now t1 t2 = Inl OutOfFuel" using assms(1,2) by (simp add: net_work_def)
qed

theorem net_work_stuck_without_context_witness:
  "\<forall>fuel. net_work fuel (ex_nw ((core ex_boot)\<lparr>cmem := ex_ctx_mem\<lparr>context_pool := ex_pool\<lparr>allocated := 3\<rparr>\<rparr>\<rparr>)) 0 0 0 = Inl OutOfFuel"
proof -
  let ?s = "(core ex_boot)\<lparr>cmem := ex_ctx_mem\<lparr>context_pool := ex_pool\<lparr>allocated := 3\<rparr>\<rparr>\<rparr>"
  have "\<not> bench_over (bench (core ex_boot)) 0"
    by (simp add: bench_over_def ex_boot_def boot_def boot_sched_def init_worker_def)
  then have "\<not> bench_over (bench (nw_sched (ex_nw ?s))) 0" by (simp add: ex_nw_def)
  moreover have "dispatch (nw_sched (ex_nw ?s)) (nw_n_peers (ex_nw ?s)) 0 = Inr (0, ?s)" by (simp add: ex_nw_def dispatch_def)
  moreover have "capacity (context_pool (cmem ?s)) \<le> allocated (context_pool (cmem ?s))" by (simp add: ex_pool_def)
  moreover have "pop_tail (nw_udp (ex_nw ?s)) < pop_head (nw_udp (ex_nw ?s))" by (simp add: ex_nw_def)
  ultimately show ?thesis by (rule net_work_stuck_without_context)
qed

lemma sent_fake_packet_pushes:
  assumes "m \<noteq> NULL"
  obtains nw' where "sent_fake_packet nw m rnd = Inr (0, nw')" "nw_udp nw' = snd (parse_packet (nw_udp nw) m)"
  using assms by (simp add: sent_fake_packet_def Let_def parse_packet_def)

lemma parse_packets_snd: "parse_packets u (p # ps) = parse_packets (snd (parse_packet u p)) ps"
  by (simp add: parse_packet_def)

lemma fake_packets_parse:
  assumes "NULL \<notin> fst ` set ps" "parse_packets (nw_udp nw) (map fst ps) = Inr u"
  shows "\<exists>nw'. fake_packets nw ps = Inr nw' \<and> nw_udp nw' = u"
  using assms
proof (induction ps arbitrary: nw)
  case Nil
  then show ?case by simp
next
  case (Cons p ps)
  obtain m rnd where p: "p = (m, rnd)" by (cases p)
  then have "m \<noteq> NULL" using Cons.prems(1) by auto
  then obtain nw1 where "sent_fake_packet nw m rnd = Inr (0, nw1)" "nw_udp nw1 = snd (parse_packet (nw_udp nw) m)"
    by (rule sent_fake_packet_pushes)
  then show ?case using Cons.IH [of nw1] Cons.prems p by (simp add: parse_packets_snd del: parse_packets.simps)
qed

lemma sent_fake_packet_overrun:
  assumes "m \<noteq> NULL" "length (inbound (nw_udp nw)) = 128"
  shows "\<exists>nw'. sent_fake_packet nw m rnd = Inr (0, nw') \<and> hd (inbound (nw_udp nw')) = m"
proof -
  let ?u = "nw_udp nw"
  obtain nw' where nw': "sent_fake_packet nw m rnd = Inr (0, nw')" "nw_udp nw' = snd (parse_packet ?u m)"
    using assms(1) by (rule sent_fake_packet_pushes)
  have "pop_head ?u - pop_tail ?u = 128" using assms(2) by (simp add: word_unat_eq_iff)
  then have h: "pop_head ?u = pop_tail ?u + 128" by (simp add: diff_eq_eq add.commute)
  have i: "unat (pop_head ?u AND 127) = ring_idx 7 (pop_head ?u)"
    using unat_and_mask_ring_idx [of "pop_head ?u" 7] by simp
  have "ring_idx 7 (pop_tail ?u) = ring_idx 7 (pop_head ?u)"
    using ring_idx_add [of 7 "pop_tail ?u" 128] by (simp add: h ring_idx_def)
  moreover have "pop_head ?u + 1 \<noteq> pop_tail ?u" by (simp add: h add.assoc)
  ultimately have "hd (inbound (nw_udp nw')) = m"
    using ring_list_pop [of "pop_head ?u + 1" "pop_tail ?u" 7 "(inbound_queue ?u)(ring_idx 7 (pop_head ?u) := m)"]
    by (simp add: nw'(2) parse_packet_def INBOUND_Q_LEN_def i)
  then show ?thesis using nw'(1) by blast
qed

text \<open>
  The packets the generator of \<open>main\<close> creates reach the ring in order as long as they fit: up to 128
  pending packets, so the 100 of \<open>BENCHMARK_CREATE_NO_PACKET\<close>, none of them is lost.  The generator does
  not test for a full ring: the packet after the 128th takes the slot of the oldest pending one.
\<close>

theorem fake_packets_in_order:
  assumes "NULL \<notin> fst ` set ps" "m \<noteq> NULL"
  shows "(length (inbound (nw_udp nw)) + length ps \<le> 128 \<longrightarrow>
       (\<exists>nw'. fake_packets nw ps = Inr nw' \<and> inbound (nw_udp nw') = inbound (nw_udp nw) @ map fst ps)) \<and>
     (length (inbound (nw_udp nw)) = 128 \<longrightarrow>
       (\<exists>nw'. sent_fake_packet nw m rnd = Inr (0, nw') \<and> hd (inbound (nw_udp nw')) = m))"
  using parse_packets_spec [of "nw_udp nw" "map fst ps"] fake_packets_parse [OF assms(1)]
    sent_fake_packet_overrun [OF assms(2)] by fastforce

theorem fake_packets_in_order_witness:
  "\<exists>nw'. fake_packets (ex_nw (core ex_boot)) (map (\<lambda>i. (of_nat i + 64, i)) [0..<BENCHMARK_CREATE_NO_PACKET]) = Inr nw' \<and>
     inbound (nw_udp nw') = [9, 9] @ map (\<lambda>i. of_nat i + 64) [0..<100]"
proof -
  let ?ps = "map (\<lambda>i. (of_nat i + 64, i)) [0..<100] :: (ptr \<times> nat) list"
  have "of_nat i + (64 :: ptr) \<noteq> 0" if "i < 100" for i
  proof -
    have "unat (of_nat i + (64 :: ptr)) = i + 64" using that by (simp add: unat_word_ariths unat_of_nat)
    then show ?thesis using unat_eq_zero by fastforce
  qed
  then have "NULL \<notin> fst ` set ?ps" by (force simp: image_image)
  from fake_packets_in_order [OF this, of 1 "ex_nw (core ex_boot)"] show ?thesis
    by (auto simp: ex_inbound BENCHMARK_CREATE_NO_PACKET_def comp_def simp del: upt_Suc length_ring_list)
qed

end
