(* ===== verification/App_Worker.thy ===== *)
theory App_Worker
  imports Dispatcher Udp_Context
begin

text \<open>
  Application workers: \<open>class Worker\<close> (\<^verbatim>\<open>include/psp/libos/persephone.hh\<close>,
  \<^verbatim>\<open>src/c++/libos/common/Worker.cc\<close>) with its registration, start, stop and request path, and the two
  request handlers \<open>MbWorker\<close> (\<^verbatim>\<open>src/c++/libos/su/mb_su.cc\<close>) and \<open>RdbWorker\<close>
  (\<^verbatim>\<open>src/c++/libos/su/rocksdb_su.cc\<close>).  RocksDB is a list of keys to iterate over; the DPDK and
  thread calls are arguments that carry their results.
\<close>

section \<open>Workers\<close>

datatype WorkerType = WT_UNKNOWN | WT_HTTP | WT_STORE | WT_NET | WT_DISPATCH | WT_CLIENT | WT_SILO | WT_MBK | WT_RDB

definition wt_str :: "string list" where
  "wt_str = [''UNKNOWN'', ''HTTP'', ''STORE'', ''NET'', ''DISPATCH'', ''CLIENT'', ''SILO'', ''MBK'', ''ROCKSDB'']"

record Worker =
  w_started :: bool
  w_exited :: bool
  w_joinable :: bool
  w_terminate :: bool
  w_dpt_id :: int
  w_udp_ctx :: "UdpContext option"
  w_lrpc_ctx :: LrpcContext
  w_n_peers :: nat
  w_peer_ids :: "int list"
  w_notify :: bool
  w_cpu_id :: u32
  w_id :: int
  w_type :: WorkerType
  w_eal_thread :: bool

text \<open>The constructors; the second takes the next number.  \<open>pids\<close> is the uninitialised array.\<close>

definition Worker_with_id :: "int list \<Rightarrow> WorkerType \<Rightarrow> int \<Rightarrow> Worker" where
  "Worker_with_id pids ty wid =
     \<lparr>w_started = False, w_exited = False, w_joinable = False, w_terminate = False, w_dpt_id = -1, w_udp_ctx = None,
      w_lrpc_ctx = lrpc_context_new, w_n_peers = 0, w_peer_ids = pids, w_notify = True, w_cpu_id = 0, w_id = wid,
      w_type = ty, w_eal_thread = False\<rparr>"

definition Worker_new :: "int list \<Rightarrow> WorkerType \<Rightarrow> u32 \<Rightarrow> Worker \<times> u32" where
  "Worker_new pids ty total_workers = (Worker_with_id pids ty (uint total_workers), total_workers + 1)"

definition Worker_delete :: "Worker \<Rightarrow> Worker" where
  "Worker_delete w = (case w_udp_ctx w of Some _ \<Rightarrow> w\<lparr>w_udp_ctx := None\<rparr> | None \<Rightarrow> w)"

definition has_exited :: "Worker \<Rightarrow> bool" where "has_exited w = w_exited w"
definition stop :: "Worker \<Rightarrow> Worker" where "stop w = w\<lparr>w_terminate := True\<rparr>"
definition meter_peer_queue :: "int \<Rightarrow> int" where "meter_peer_queue peer_id = ENOTSUP"

text \<open>The two loops over the table \<open>workers\<close>, of which the first \<open>total_workers\<close> entries are used.\<close>

definition get_workers :: "Worker list \<Rightarrow> WorkerType \<Rightarrow> nat \<times> Worker list" where
  "get_workers ws ty = (let r = filter (\<lambda>w. w_type w = ty) ws in (length r, r))"

definition stop_all :: "Worker list \<Rightarrow> Worker list" where "stop_all ws = map stop ws"

section \<open>Start and end of a worker thread\<close>

text \<open>\<open>wait\<close> is what \<open>rte_eal_wait_lcore\<close> returns.\<close>

definition join_worker :: "Worker \<Rightarrow> int \<Rightarrow> int \<times> Worker" where
  "join_worker w wait =
     (if w_eal_thread w then (wait, w)
      else if w_joinable w then (0, w\<lparr>w_joinable := False\<rparr>)
      else (-1, w))"

text \<open>The waiting loop of \<open>launch\<close>: \<open>obs\<close> lists what it reads of the flags \<open>started\<close> and \<open>exited\<close>, one
  reading per iteration.\<close>

fun wait_start :: "(bool \<times> bool) list \<Rightarrow> (bool \<times> bool) result" where
  "wait_start [] = Inl OutOfFuel"
| "wait_start ((st, ex) # obs) = (if \<not> st \<and> \<not> ex then wait_start obs else Inr (st, ex))"

definition launch :: "Worker \<Rightarrow> int \<Rightarrow> int \<Rightarrow> (bool \<times> bool) list \<Rightarrow> (int \<times> Worker) result" where
  "launch w wait remote obs =
     (if w_joinable w then Inr (-1, w)
      else
        res_bind (if w_eal_thread w then psp_ok wait (psp_ok remote (Inr w))
                  else Inr (w\<lparr>w_joinable := True\<rparr>)) (\<lambda>w.
          res_bind (wait_start obs) (\<lambda>(st, ex).
            let w = w\<lparr>w_started := st, w_exited := ex\<rparr> in
            if ex \<and> \<not> st then Inr (-1, w) else Inr (0, w))))"

section \<open>Registration with the dispatcher\<close>

text \<open>Store in an array element, with the bound of the array.\<close>

definition set_at :: "'a list \<Rightarrow> int \<Rightarrow> 'a \<Rightarrow> 'a list result" where
  "set_at xs i x = (if 0 \<le> i \<and> i < int (length xs) then Inr (xs[nat i := x]) else Inl OutOfBounds)"

definition get_at :: "'a list \<Rightarrow> int \<Rightarrow> 'a result" where
  "get_at xs i = (if 0 \<le> i \<and> i < int (length xs) then Inr (xs ! nat i) else Inl OutOfBounds)"

text \<open>Initialisation of an ingress or egress channel in place.\<close>

definition init_ingress :: "LrpcContext \<Rightarrow> int \<Rightarrow> ptr \<times> ptr \<Rightarrow> LrpcContext result" where
  "init_ingress ctx i mem =
     res_bind (get_at (ingress ctx) i) (\<lambda>ch.
       res_bind (set_at (ingress ctx) i (snd (lrpc_init_in ch (fst mem) LRPC_Q_LEN (snd mem)))) (\<lambda>chs.
         Inr (ctx\<lparr>ingress := chs\<rparr>)))"

definition init_egress :: "LrpcContext \<Rightarrow> int \<Rightarrow> ptr \<times> ptr \<Rightarrow> LrpcContext result" where
  "init_egress ctx i mem =
     res_bind (get_at (egress ctx) i) (\<lambda>ch.
       res_bind (set_at (egress ctx) i (snd (lrpc_init_out ch (fst mem) LRPC_Q_LEN (snd mem)))) (\<lambda>chs.
         Inr (ctx\<lparr>egress := chs\<rparr>)))"

definition add_peer :: "Worker \<Rightarrow> int \<Rightarrow> Worker result" where
  "add_peer w p = res_bind (set_at (w_peer_ids w) (int (w_n_peers w)) p) (\<lambda>ps.
     Inr (w\<lparr>w_peer_ids := ps, w_n_peers := w_n_peers w + 1\<rparr>))"

text \<open>\<open>am\<close> and \<open>bm\<close> are the buffers the allocator returns for the two channels.\<close>

definition register_dpt ::
  "lrpc_store \<Rightarrow> Worker \<Rightarrow> Worker \<Rightarrow> ptr \<times> ptr \<Rightarrow> ptr \<times> ptr \<Rightarrow> (int \<times> Worker \<times> Worker \<times> lrpc_store) result" where
  "register_dpt st a b am bm =
     (let a = a\<lparr>w_dpt_id := w_id b\<rparr> in
      res_bind (generate_lrpc_buffer st (fst am) (snd am)) (\<lambda>(a_buf, st).
      res_bind (generate_lrpc_buffer st (fst bm) (snd bm)) (\<lambda>(b_buf, st).
      res_bind (init_ingress (w_lrpc_ctx a) 0 a_buf) (\<lambda>ac.
      res_bind (init_egress ac 0 b_buf) (\<lambda>ac.
      let a = a\<lparr>w_lrpc_ctx := ac\<rparr> in
      res_bind (init_ingress (w_lrpc_ctx b) (w_id a - 1) b_buf) (\<lambda>bc.
      res_bind (init_egress bc (w_id a - 1) a_buf) (\<lambda>bc.
      let b = b\<lparr>w_lrpc_ctx := bc\<rparr> in
      res_bind (add_peer a (w_id b)) (\<lambda>a.
      res_bind (add_peer b (w_id a - 1)) (\<lambda>b.
      Inr (0, a, b, st))))))))))"

section \<open>Requests\<close>

text \<open>
  The request path.  \<open>proc\<close> is the worker's \<open>process_request\<close> on the packets, \<open>tsc\<close> the time stamp
  counter.  The type is the byte after the request id, read as a signed \<open>char\<close>.
\<close>

definition work_notif :: "u8 \<Rightarrow> u64 \<Rightarrow> u64" where
  "work_notif ty tsc = push_bit 60 (scast ty) XOR tsc"

definition app_work ::
  "(mbuf_store \<Rightarrow> u64 \<Rightarrow> (int \<times> mbuf_store) result) \<Rightarrow> lrpc_store \<Rightarrow> Worker \<Rightarrow> mbuf_store \<Rightarrow> u64 \<Rightarrow> u64 \<Rightarrow>
   (int \<times> lrpc_store \<times> Worker \<times> mbuf_store) result" where
  "app_work proc st w ms pay tsc =
     res_bind (proc ms pay) (\<lambda>(r, ms). psp_ok r (
      case w_udp_ctx w of None \<Rightarrow> Inl NullDeref
      | Some u \<Rightarrow>
          let u = u\<lparr>outbound_queue := (outbound_queue u)(unat (push_head u AND (OUTBOUND_Q_LEN - 1)) := pay),
                    push_head := push_head u + 1\<rparr>;
              w = w\<lparr>w_udp_ctx := Some u\<rparr> in
          if w_notify w then
            if pay = NULL then Inl NullDeref
            else res_bind (push st (w_lrpc_ctx w) (work_notif (pkt_data (ms pay) (NET_HDR_SIZE + 4)) tsc) 0)
                   (\<lambda>(r, ctx, st). Inr (0, st, w\<lparr>w_lrpc_ctx := ctx\<rparr>, ms))
          else Inr (0, st, w, ms)))"

definition app_dequeue ::
  "lrpc_store \<Rightarrow> Worker \<Rightarrow> mbuf_store \<Rightarrow> (ptr list \<Rightarrow> nat) \<Rightarrow>
   (int \<times> u64 option \<times> ptr list \<times> lrpc_store \<times> Worker \<times> mbuf_store) result" where
  "app_dequeue st w ms tx =
     (case w_udp_ctx w of None \<Rightarrow> Inl NullDeref
      | Some u \<Rightarrow>
          res_bind (if push_head u - push_tail u < OUTBOUND_Q_LEN then
                      res_bind (pop st (w_lrpc_ctx w) 0) (\<lambda>(r, v, ctx, st).
                        Inr (if r = 0 then 0 else EAGAIN, v, w\<lparr>w_lrpc_ctx := ctx\<rparr>, st))
                    else Inr (EAGAIN, None, w, st)) (\<lambda>(status, v, w, st).
            if push_tail u < push_head u then
              res_bind (send_packets u ms tx) (\<lambda>(r, sent, u, ms). psp_ok r (
                Inr (status, v, sent, st, w\<lparr>w_udp_ctx := Some u\<rparr>, ms)))
            else Inr (status, v, [], st, w, ms)))"

section \<open>Request handlers\<close>

record MbWorker =
  mb_requests :: u32
  mb_shorts :: u32
  mb_longs :: u32

definition mb_setup :: int where "mb_setup = 0"

text \<open>Offsets of the request id, its type and its body.  \<open>fake_work\<close> only spins.\<close>

definition ID_OFF :: nat where "ID_OFF = NET_HDR_SIZE"
definition TYPE_OFF :: nat where "TYPE_OFF = ID_OFF + 4"
definition REQ_OFF :: nat where "REQ_OFF = TYPE_OFF + 8"

definition mb_process_request :: "MbWorker \<Rightarrow> mbuf_store \<Rightarrow> u64 \<Rightarrow> (int \<times> MbWorker \<times> mbuf_store) result" where
  "mb_process_request mb ms pay =
     (if pay = NULL then Inl NullDeref else
      let m = ms pay; ty = get32 (pkt_data m) TYPE_OFF;
          mb = (if unat ty = ReqType_code RT_SHORT then mb\<lparr>mb_shorts := mb_shorts mb + 1\<rparr>
                else if unat ty = ReqType_code RT_LONG then mb\<lparr>mb_longs := mb_longs mb + 1\<rparr> else mb);
          mb = mb\<lparr>mb_requests := mb_requests mb + 1\<rparr> in
      Inr (0, mb, ms(pay := m\<lparr>pkt_data := put32 REQ_OFF 0 (pkt_data m), l4_len := 12\<rparr>)))"

record RdbWorker =
  rdb_requests :: u32
  rdb_gets :: u32
  rdb_scans :: u32

definition rdb_setup :: int where "rdb_setup = 0"

text \<open>The iterator loop: the keys it reads, one for a GET, all of them otherwise.\<close>

fun rdb_scan :: "u32 \<Rightarrow> 'k list \<Rightarrow> 'k list" where
  "rdb_scan ty [] = []"
| "rdb_scan ty (k # ks) = (if ty = 10 then [k] else k # rdb_scan ty ks)"

definition rdb_process_request ::
  "'k list \<Rightarrow> RdbWorker \<Rightarrow> mbuf_store \<Rightarrow> u64 \<Rightarrow> (int \<times> 'k list \<times> RdbWorker \<times> mbuf_store) result" where
  "rdb_process_request db rw ms pay =
     (if pay = NULL then Inl NullDeref else
      let m = ms pay; ty = get32 (pkt_data m) TYPE_OFF;
          visited = rdb_scan ty db;
          rw = (if unat ty = ReqType_code RT_GET then rw\<lparr>rdb_gets := rdb_gets rw + 1\<rparr>
                else if unat ty = ReqType_code RT_SCAN then rw\<lparr>rdb_scans := rdb_scans rw + 1\<rparr> else rw);
          rw = rw\<lparr>rdb_requests := rdb_requests rw + 1\<rparr> in
      Inr (0, visited, rw, ms(pay := m\<lparr>pkt_data := put32 REQ_OFF 0 (pkt_data m)\<rparr>)))"

section \<open>Channels between a worker and the dispatcher\<close>

definition worker_link :: "Worker \<Rightarrow> Worker \<Rightarrow> lrpc_store \<Rightarrow> lrpc_link" where
  "worker_link a b st = \<lparr>lk_src = w_lrpc_ctx a, lk_out = 0, lk_dst = w_lrpc_ctx b, lk_in = of_nat (nat (w_id a - 1)),
     lk_st = st, lk_bits = 12\<rparr>"

definition dpt_link :: "Worker \<Rightarrow> Worker \<Rightarrow> lrpc_store \<Rightarrow> lrpc_link" where
  "dpt_link a b st = \<lparr>lk_src = w_lrpc_ctx b, lk_out = of_nat (nat (w_id a - 1)), lk_dst = w_lrpc_ctx a, lk_in = 0,
     lk_st = st, lk_bits = 12\<rparr>"

definition lrpc_shape :: "LrpcContext \<Rightarrow> bool" where
  "lrpc_shape ctx \<longleftrightarrow> length (ingress ctx) = MAX_PEERS \<and> length (egress ctx) = MAX_PEERS"

definition fresh_in :: "ptr \<times> ptr \<Rightarrow> lrpc_chan_in" where
  "fresh_in mem = \<lparr>in_tbl = fst mem, in_wb = snd mem, recv_head = 0, in_size = LRPC_Q_LEN\<rparr>"

definition fresh_out :: "ptr \<times> ptr \<Rightarrow> lrpc_chan_out" where
  "fresh_out mem = \<lparr>out_tbl = fst mem, out_wb = snd mem, send_head = 0, send_tail = 0, out_size = LRPC_Q_LEN\<rparr>"

lemma lrpc_init_Q_LEN:
  "snd (lrpc_init_in ci t LRPC_Q_LEN wb) = fresh_in (t, wb)" "snd (lrpc_init_out co t LRPC_Q_LEN wb) = fresh_out (t, wb)"
  by (simp_all add: lrpc_init_in_def lrpc_init_out_def is_power_of_two_def LRPC_Q_LEN_def fresh_in_def fresh_out_def)

lemma fresh_channel:
  assumes "\<And>i. m_cmd (tbls st (fst mem) i) = 0" "wbs st (snd mem) = 0"
  shows "lrpc_wf 12 (fresh_out mem) (fresh_in mem) st" "lrpc_msgs 12 (fresh_out mem) (fresh_in mem) st = []"
  using assms lrpc_ok_init [of 12 "tbls st (fst mem)"]
  by (simp_all add: lrpc_wf_def lrpc_msgs_def lrpc_pending_def fresh_in_def fresh_out_def LRPC_Q_LEN_def)

lemma peer_index:
  assumes "1 \<le> i" "i \<le> 32"
  shows "unat (of_nat (nat (i - 1)) :: u32) = nat (i - 1)"
  by (subst unat_of_nat) (use assms in simp)

lemma set_get_at: "0 \<le> i \<Longrightarrow> i < int (length xs) \<Longrightarrow> set_at xs i x = Inr (xs[nat i := x])"
  "0 \<le> i \<Longrightarrow> i < int (length xs) \<Longrightarrow> get_at xs i = Inr (xs ! nat i)"
  by (simp_all add: set_at_def get_at_def)

definition registered_ctx :: "LrpcContext \<Rightarrow> nat \<Rightarrow> ptr \<times> ptr \<Rightarrow> ptr \<times> ptr \<Rightarrow> LrpcContext" where
  "registered_ctx ctx j im om = ctx\<lparr>ingress := (ingress ctx)[j := fresh_in im], egress := (egress ctx)[j := fresh_out om]\<rparr>"

definition registered_store :: "lrpc_store \<Rightarrow> ptr \<times> ptr \<Rightarrow> ptr \<times> ptr \<Rightarrow> lrpc_store" where
  "registered_store st am bm =
     st\<lparr>tbls := (tbls st)(fst am := (\<lambda>_. \<lparr>m_cmd = 0, m_payload = 0\<rparr>), fst bm := (\<lambda>_. \<lparr>m_cmd = 0, m_payload = 0\<rparr>)),
        wbs := (wbs st)(snd am := 0, snd bm := 0)\<rparr>"

lemma init_channels:
  assumes "lrpc_shape ctx" "0 \<le> i" "i < 32"
  shows "res_bind (init_ingress ctx i im) (\<lambda>c. res_bind (init_egress c i om) f) = f (registered_ctx ctx (nat i) im om)"
  using assms by (simp add: init_ingress_def init_egress_def lrpc_shape_def MAX_PEERS_def set_get_at lrpc_init_Q_LEN registered_ctx_def)

text \<open>The worker, the dispatcher and the store after a registration.\<close>

definition registered_worker :: "Worker \<Rightarrow> Worker \<Rightarrow> ptr \<times> ptr \<Rightarrow> ptr \<times> ptr \<Rightarrow> Worker" where
  "registered_worker a b am bm = a\<lparr>w_dpt_id := w_id b, w_lrpc_ctx := registered_ctx (w_lrpc_ctx a) 0 am bm,
     w_peer_ids := (w_peer_ids a)[w_n_peers a := w_id b], w_n_peers := w_n_peers a + 1\<rparr>"

definition registered_dpt :: "Worker \<Rightarrow> Worker \<Rightarrow> ptr \<times> ptr \<Rightarrow> ptr \<times> ptr \<Rightarrow> Worker" where
  "registered_dpt a b am bm = b\<lparr>w_lrpc_ctx := registered_ctx (w_lrpc_ctx b) (nat (w_id a - 1)) bm am,
     w_peer_ids := (w_peer_ids b)[w_n_peers b := w_id a - 1], w_n_peers := w_n_peers b + 1\<rparr>"

lemma register_dpt_ok:
  assumes sh: "lrpc_shape (w_lrpc_ctx a)" "lrpc_shape (w_lrpc_ctx b)" and i: "1 \<le> w_id a" "w_id a \<le> 32"
    and np: "w_n_peers a < length (w_peer_ids a)" "w_n_peers b < length (w_peer_ids b)"
    and mem: "fst am \<noteq> NULL" "snd am \<noteq> NULL" "fst bm \<noteq> NULL" "snd bm \<noteq> NULL"
  shows "register_dpt st a b am bm =
     Inr (0, registered_worker a b am bm, registered_dpt a b am bm, registered_store st am bm)"
  using assms
  by (simp add: register_dpt_def generate_lrpc_buffer_def init_channels add_peer_def set_get_at Let_def registered_store_def
      registered_worker_def registered_dpt_def)

lemma registered_links:
  fixes st :: lrpc_store
  assumes sh: "lrpc_shape (w_lrpc_ctx a)" "lrpc_shape (w_lrpc_ctx b)" and i: "1 \<le> w_id a" "w_id a \<le> 32"
    and ne: "fst am \<noteq> fst bm" "snd am \<noteq> snd bm"
  defines "a' \<equiv> registered_worker a b am bm" and "b' \<equiv> registered_dpt a b am bm" and "st' \<equiv> registered_store st am bm"
  shows "lk_wf (worker_link a' b' st')" "lk_contents (worker_link a' b' st') = []"
      "lk_wf (dpt_link a' b' st')" "lk_contents (dpt_link a' b' st') = []"
proof -
  have len: "length (ingress (w_lrpc_ctx a)) = 32" "length (egress (w_lrpc_ctx a)) = 32"
      "length (ingress (w_lrpc_ctx b)) = 32" "length (egress (w_lrpc_ctx b)) = 32"
    using sh by (simp_all add: lrpc_shape_def MAX_PEERS_def)
  have idx: "unat (of_nat (nat (w_id a - 1)) :: u32) = nat (w_id a - 1)" "nat (w_id a - 1) < 32"
    using peer_index [OF i] i by simp_all
  have fresh: "lrpc_wf 12 (fresh_out bm) (fresh_in bm) st'" "lrpc_msgs 12 (fresh_out bm) (fresh_in bm) st' = []"
      "lrpc_wf 12 (fresh_out am) (fresh_in am) st'" "lrpc_msgs 12 (fresh_out am) (fresh_in am) st' = []"
    using ne by (auto intro!: fresh_channel simp: registered_store_def st'_def)
  note defs = lk_wf_def lk_contents_def lk_msgs_def worker_link_def dpt_link_def a'_def b'_def registered_worker_def registered_dpt_def
  show "lk_wf (worker_link a' b' st')" "lk_contents (worker_link a' b' st') = []"
      "lk_wf (dpt_link a' b' st')" "lk_contents (dpt_link a' b' st') = []"
    using fresh len idx(2) unfolding defs by (simp_all add: registered_ctx_def idx(1) del: of_nat_nat)
qed

section \<open>Notifications\<close>

lemma work_notif_fields:
  assumes "tsc < 2 ^ 60"
  shows "drop_bit 60 (work_notif ty tsc) = ucast ty AND 15" "work_notif ty tsc AND 0xfffffffffffffff = tsc"
proof -
  have hi: "\<not> bit tsc n" if "60 \<le> n" for n
    using assms that by (metis less_mask_eq bit_take_bit_iff take_bit_eq_mask not_le mask_eq_exp_minus_1)
  have m: "(0xfffffffffffffff :: u64) = mask 60" by (simp add: mask_eq_exp_minus_1)
  have "bit (15 :: u64) n \<longleftrightarrow> n < 4" if "n < 64" for n
    using bit_mask_iff [of 4 n, where ?'a = "64 word"] that by (simp add: mask_eq_exp_minus_1)
  then show "drop_bit 60 (work_notif ty tsc) = ucast ty AND 15"
    by (intro bit_word_eqI) (auto simp: work_notif_def bit_simps hi)
  show "work_notif ty tsc AND 0xfffffffffffffff = tsc"
  proof (unfold m, rule bit_word_eqI)
    fix n assume "n < LENGTH(64)"
    then show "bit (work_notif ty tsc AND mask 60) n = bit tsc n"
      using hi [of n] by (cases "n < 60") (auto simp: work_notif_def bit_simps)
  qed
qed

section \<open>Properties\<close>

text \<open>
  C21: Registering a worker with the dispatcher connects them in both directions: the worker's egress 0 and
  the dispatcher's ingress of that worker are the two ends of one empty well-formed channel, and so
  are the dispatcher's egress and the worker's ingress 0.  The channels of the dispatcher with other
  workers, whose buffers are elsewhere, keep their state.
\<close>

theorem register_dpt_links:
  assumes "lrpc_shape (w_lrpc_ctx a)" "lrpc_shape (w_lrpc_ctx b)" and i: "1 \<le> w_id a" "w_id a \<le> 32"
    and "w_n_peers a < length (w_peer_ids a)" "w_n_peers b < length (w_peer_ids b)"
    and "fst am \<noteq> NULL" "snd am \<noteq> NULL" "fst bm \<noteq> NULL" "snd bm \<noteq> NULL"
    and ne: "fst am \<noteq> fst bm" "snd am \<noteq> snd bm"
  shows "\<exists>a' b' st'. register_dpt st a b am bm = Inr (0, a', b', st') \<and>
     lk_wf (worker_link a' b' st') \<and> lk_contents (worker_link a' b' st') = [] \<and>
     lk_wf (dpt_link a' b' st') \<and> lk_contents (dpt_link a' b' st') = [] \<and>
     w_dpt_id a' = w_id b \<and> w_peer_ids b' ! w_n_peers b = w_id a - 1 \<and>
     (\<forall>j. j \<noteq> nat (w_id a - 1) \<longrightarrow> ingress (w_lrpc_ctx b') ! j = ingress (w_lrpc_ctx b) ! j \<and>
        egress (w_lrpc_ctx b') ! j = egress (w_lrpc_ctx b) ! j) \<and>
     (\<forall>n co ci. lrpc_wf n co ci st \<and> in_tbl ci \<notin> {fst am, fst bm} \<and> in_wb ci \<notin> {snd am, snd bm} \<longrightarrow>
        lrpc_wf n co ci st' \<and> lrpc_msgs n co ci st' = lrpc_msgs n co ci st)"
proof -
  let ?st = "registered_store st am bm"
  have "lrpc_wf n co ci ?st \<and> lrpc_msgs n co ci ?st = lrpc_msgs n co ci st"
    if "lrpc_wf n co ci st" "in_tbl ci \<notin> {fst am, fst bm}" "in_wb ci \<notin> {snd am, snd bm}" for n co ci
    using that by (simp add: lrpc_wf_def lrpc_msgs_def registered_store_def)
  moreover have "w_dpt_id (registered_worker a b am bm) = w_id b" "w_peer_ids (registered_dpt a b am bm) ! w_n_peers b = w_id a - 1"
    using assms(6) by (simp_all add: registered_worker_def registered_dpt_def)
  moreover have "ingress (w_lrpc_ctx (registered_dpt a b am bm)) ! j = ingress (w_lrpc_ctx b) ! j \<and>
      egress (w_lrpc_ctx (registered_dpt a b am bm)) ! j = egress (w_lrpc_ctx b) ! j" if "j \<noteq> nat (w_id a - 1)" for j
    using that by (simp add: registered_dpt_def registered_ctx_def)
  ultimately show ?thesis
    using register_dpt_ok [OF assms(1-10)] registered_links [OF assms(1,2) i ne] by blast
qed

definition ex_worker :: "int \<Rightarrow> Worker" where
  "ex_worker i = (Worker_with_id (replicate 32 0) WT_MBK i)\<lparr>w_udp_ctx := Some ex_udp\<rparr>"

lemma ex_worker_fields:
  "w_id (ex_worker i) = i" "lrpc_shape (w_lrpc_ctx (ex_worker i))" "w_n_peers (ex_worker i) < length (w_peer_ids (ex_worker i))"
  by (simp_all add: ex_worker_def Worker_with_id_def lrpc_shape_def lrpc_context_new_def)

theorem register_dpt_links_witness:
  "\<exists>a' b' st'. register_dpt (lk_st ex_link) (ex_worker 3) (ex_worker 0) (4096, 64) (8192, 72) = Inr (0, a', b', st') \<and>
     lk_wf (worker_link a' b' st') \<and> lk_contents (dpt_link a' b' st') = [] \<and> w_peer_ids b' ! 0 = 2"
proof -
  have "w_n_peers (ex_worker 0) = 0" "w_peer_ids (ex_worker 0) \<noteq> []" by (simp_all add: ex_worker_def Worker_with_id_def)
  with register_dpt_links [of "ex_worker 3" "ex_worker 0" "(4096, 64)" "(8192, 72)" "lk_st ex_link"] ex_worker_fields
  show ?thesis by auto
qed

lemma pop_value: "pop st ctx i = Inr (r, Some v, ctx', st') \<Longrightarrow> r = 0"
  by (auto simp: pop_def split: if_splits prod.splits option.splits)

lemma outbound_push:
  assumes "length (outbound u) < 128"
  shows "outbound (u\<lparr>outbound_queue := (outbound_queue u)(unat (push_head u AND (OUTBOUND_Q_LEN - 1)) := p),
      push_head := push_head u + 1\<rparr>) = outbound u @ [p]"
proof -
  have room: "unat (push_head u - push_tail u) < 2 ^ 7" using assms by simp
  have "unat (push_head u AND 127) = ring_idx 7 (push_head u)"
    using unat_and_mask_ring_idx [of "push_head u" 7] by simp
  then show ?thesis
    using ring_list_push [OF _ room, of "outbound_queue u" p] by (simp add: OUTBOUND_Q_LEN_def)
qed

text \<open>
  C22: A completed request is reported to the dispatcher.  When a worker's link to the dispatcher is
  well formed and empty and its transmit ring has room, \<open>app_work\<close> on a handled request queues the
  response and sends one notification: the dispatcher's next \<open>pop\<close> for that worker returns it, and the
  fields \<open>signal_free_worker\<close> reads from it are the low four bits of the request type and the
  completion time, as long as the time stamp counter stays below \<open>2 ^ 60\<close>.
\<close>

theorem completion_reaches_dispatcher:
  assumes wf: "lk_wf (worker_link w b st)" "lk_contents (worker_link w b st) = []"
    and udp: "w_udp_ctx w = Some u" "length (outbound u) < 128"
    and req: "w_notify w" "pay \<noteq> NULL" "proc ms pay = Inr (0, ms')" "tsc < 2 ^ 60"
  shows "\<exists>st' w' u' v ctx st''. app_work proc st w ms pay tsc = Inr (0, st', w', ms') \<and>
     w_udp_ctx w' = Some u' \<and> outbound u' = outbound u @ [pay] \<and>
     pop st' (w_lrpc_ctx b) (of_nat (nat (w_id w - 1))) = Inr (0, Some v, ctx, st'') \<and>
     drop_bit 60 v = ucast (pkt_data (ms' pay) 46) AND 15 \<and> v AND 0xfffffffffffffff = tsc"
proof -
  let ?k = "worker_link w b st" and ?v = "work_notif (pkt_data (ms' pay) 46) tsc"
  have "length (lk_contents ?k) < 2 ^ lk_bits ?k" using wf(2) by simp
  from lk.enq_room [OF wf(1) this, of ?v] obtain k' where k': "lk_push ?k ?v = Inr k'" "lk_contents k' = [?v]" "lk_wf k'"
    using wf(2) by auto
  then obtain r ctx1 st1 where p: "push st (w_lrpc_ctx w) ?v 0 = Inr (r, ctx1, st1)" "k' = ?k\<lparr>lk_src := ctx1, lk_st := st1\<rparr>"
    by (auto simp: lk_push_def worker_link_def res_bind_eq_Inr)
  from lk.deq_some [OF k'(3), of ?v "[]"] k'(2) obtain k'' where "lk_pop k' = Inr (Some ?v, k'')" by auto
  then obtain r ctx st'' where "pop st1 (w_lrpc_ctx b) (of_nat (nat (w_id w - 1))) = Inr (r, Some ?v, ctx, st'')"
    unfolding p(2) by (auto simp: lk_pop_def worker_link_def res_bind_eq_Inr)
  then have q: "pop st1 (w_lrpc_ctx b) (of_nat (nat (w_id w - 1))) = Inr (0, Some ?v, ctx, st'')"
    using pop_value by metis
  let ?u = "u\<lparr>outbound_queue := (outbound_queue u)(unat (push_head u AND (OUTBOUND_Q_LEN - 1)) := pay), push_head := push_head u + 1\<rparr>"
  let ?w = "w\<lparr>w_udp_ctx := Some ?u, w_lrpc_ctx := ctx1\<rparr>"
  have "app_work proc st w ms pay tsc = Inr (0, st1, ?w, ms')"
    using udp(1) req p(1) by (simp add: app_work_def Let_def NET_HDR_SIZE_def)
  moreover have "w_udp_ctx ?w = Some ?u" by simp
  ultimately show ?thesis using outbound_push [OF udp(2), of pay] q work_notif_fields [OF req(4)] by blast
qed

theorem completion_reaches_dispatcher_witness:
  "\<exists>w (b :: Worker) st st' w' v ctx st''. app_work (\<lambda>ms p. Inr (0, ms)) st w (\<lambda>_. ex_mbuf) 4096 77 = Inr (0, st', w', \<lambda>_. ex_mbuf) \<and>
     pop st' (w_lrpc_ctx b) 2 = Inr (0, Some v, ctx, st'') \<and> drop_bit 60 v = 1 \<and> v AND 0xfffffffffffffff = 77"
proof -
  let ?w = "registered_worker (ex_worker 3) (ex_worker 0) (4096, 64) (8192, 72)"
  let ?b = "registered_dpt (ex_worker 3) (ex_worker 0) (4096, 64) (8192, 72)"
  let ?st = "registered_store (lk_st ex_link) (4096, 64) (8192, 72)"
  have "lk_wf (worker_link ?w ?b ?st)" "lk_contents (worker_link ?w ?b ?st) = []"
    by (rule registered_links; simp add: ex_worker_fields)+
  moreover have "w_udp_ctx ?w = Some ex_udp" "w_notify ?w" "w_id ?w = 3"
    by (simp_all add: registered_worker_def ex_worker_def Worker_with_id_def)
  moreover have "length (outbound ex_udp) < 128" by (simp add: ex_udp_def)
  moreover have "pkt_data ex_mbuf 46 = 1" by (simp add: ex_mbuf_def)
  ultimately show ?thesis
    using completion_reaches_dispatcher [of ?w ?b ?st ex_udp 4096 "\<lambda>ms p. Inr (0, ms)" "\<lambda>_. ex_mbuf" "\<lambda>_. ex_mbuf" 77]
    by simp blast
qed

text \<open>
  The response of a microbenchmark worker has the right length: after \<open>MbWorker::process_request\<close> the
  packet leaves with 54 bytes (the headers, the request id, its type and a size of zero), the id and
  the type are those of the request, and the request was counted once under its type.
\<close>

theorem mb_response_length:
  assumes "pay \<noteq> NULL"
  shows "\<exists>mb' ms' ms''. mb_process_request mb ms pay = Inr (0, mb', ms') \<and>
     prepare_outbound_packet u ms' pay = Inr (0, pay, ms'') \<and> pkt_len (ms'' pay) = 54 \<and> data_len (ms'' pay) = 54 \<and>
     (\<forall>i. 42 \<le> i \<and> i < 54 \<longrightarrow> pkt_data (ms'' pay) i = pkt_data (ms pay) i) \<and>
     mb_requests mb' = mb_requests mb + 1 \<and>
     mb_shorts mb' = (if get32 (pkt_data (ms pay)) 46 = 1 then mb_shorts mb + 1 else mb_shorts mb) \<and>
     mb_longs mb' = (if get32 (pkt_data (ms pay)) 46 = 2 then mb_longs mb + 1 else mb_longs mb)"
proof -
  have ty: "unat t = 1 \<longleftrightarrow> t = 1" "unat t = 2 \<longleftrightarrow> t = 2" for t :: u32
    by (simp_all add: word_unat_eq_iff)
  show ?thesis
    using assms ty by (auto simp: mb_process_request_def prepare_outbound_packet_def Let_def TYPE_OFF_def ID_OFF_def REQ_OFF_def
        NET_HDR_SIZE_def out_bytes_fields)
qed

theorem mb_response_length_witness:
  "\<exists>mb' ms'. mb_process_request \<lparr>mb_requests = 4, mb_shorts = 1, mb_longs = 2\<rparr> (\<lambda>_. ex_mbuf) 4096 = Inr (0, mb', ms') \<and>
     mb_shorts mb' = 2 \<and> mb_requests mb' = 5"
  using mb_response_length [of 4096 "\<lparr>mb_requests = 4, mb_shorts = 1, mb_longs = 2\<rparr>" "\<lambda>_. ex_mbuf" ex_udp]
  by (auto simp: ex_mbuf_def get32_def)

text \<open>
  C23: A RocksDB worker sets the response size but not the offset the transmit path reads it from: a packet
  received with \<open>l4_len = 0\<close> leaves with the request id taken for the length of the response.
\<close>

theorem rdb_response_length_is_id:
  assumes "pay \<noteq> NULL" "l4_len (ms pay) = 0"
  shows "\<exists>rw' ms' ms''. rdb_process_request db rw ms pay =
       Inr (0, if get32 (pkt_data (ms pay)) 46 = 10 then take 1 db else db, rw', ms') \<and>
     prepare_outbound_packet u ms' pay = Inr (0, pay, ms'') \<and>
     pkt_len (ms'' pay) = 42 + get32 (pkt_data (ms pay)) 42"
proof -
  have "rdb_scan ty db = (if ty = 10 then take 1 db else db)" for ty by (induction db) auto
  then show ?thesis
    using assms by (auto simp: rdb_process_request_def prepare_outbound_packet_def Let_def TYPE_OFF_def ID_OFF_def REQ_OFF_def
        NET_HDR_SIZE_def)
qed

theorem rdb_response_length_is_id_witness:
  "\<exists>rw' ms' ms''. rdb_process_request [''k''] \<lparr>rdb_requests = 0, rdb_gets = 0, rdb_scans = 0\<rparr>
       (\<lambda>_. ex_mbuf\<lparr>l4_len := 0, pkt_data := (\<lambda>i. if i = 43 then 1 else 0)\<rparr>) 4096 = Inr (0, [''k''], rw', ms') \<and>
     prepare_outbound_packet ex_udp ms' 4096 = Inr (0, 4096, ms'') \<and> pkt_len (ms'' 4096) = 298"
  using rdb_response_length_is_id [of 4096 "\<lambda>_. ex_mbuf\<lparr>l4_len := 0, pkt_data := (\<lambda>i. if i = 43 then 1 else 0)\<rparr>"
      "[''k'']" "\<lparr>rdb_requests = 0, rdb_gets = 0, rdb_scans = 0\<rparr>" ex_udp]
  by (auto simp: get32_def)

end
