(* ===== verification/Base_List.thy ===== *)
theory Base_List
  imports Psp_Prelude
begin

text \<open>
  The intrusive lists of \<^verbatim>\<open>include/base/list.h\<close>: the doubly linked list with a head node, the singly
  linked \<open>slist\<close> and the \<open>hlist\<close> with one head pointer.  Nodes are addresses; the links are fields of a
  heap.  The operations are the stores of the source, in its order, so that the head may be its own
  neighbour.  The model is of the build without \<^verbatim>\<open>CCAN_LIST_DEBUG\<close>.
\<close>

section \<open>Doubly linked lists\<close>

record lheap =
  nx :: "ptr \<Rightarrow> ptr"
  pv :: "ptr \<Rightarrow> ptr"

abbreviation set_nx :: "ptr \<Rightarrow> ptr \<Rightarrow> lheap \<Rightarrow> lheap" where
  "set_nx p v H \<equiv> H\<lparr>nx := (nx H)(p := v)\<rparr>"

abbreviation set_pv :: "ptr \<Rightarrow> ptr \<Rightarrow> lheap \<Rightarrow> lheap" where
  "set_pv p v H \<equiv> H\<lparr>pv := (pv H)(p := v)\<rparr>"

definition list_head_init :: "ptr \<Rightarrow> lheap \<Rightarrow> lheap" where
  "list_head_init h H = set_nx h h (set_pv h h H)"

definition list_add :: "ptr \<Rightarrow> ptr \<Rightarrow> lheap \<Rightarrow> lheap" where
  "list_add h n H =
     (let H = set_nx n (nx H h) H;
          H = set_pv n h H;
          H = set_pv (nx H h) n H in
      set_nx h n H)"

definition list_add_tail :: "ptr \<Rightarrow> ptr \<Rightarrow> lheap \<Rightarrow> lheap" where
  "list_add_tail h n H =
     (let H = set_nx n h H;
          H = set_pv n (pv H h) H;
          H = set_nx (pv H h) n H in
      set_pv h n H)"

definition list_add_between :: "ptr \<Rightarrow> ptr \<Rightarrow> ptr \<Rightarrow> lheap \<Rightarrow> lheap" where
  "list_add_between prv n nxt H =
     (let H = set_nx prv n H;
          H = set_pv n prv H;
          H = set_nx n nxt H in
      set_pv nxt n H)"

definition list_add_after :: "ptr \<Rightarrow> ptr \<Rightarrow> lheap \<Rightarrow> lheap" where
  "list_add_after prv n H = list_add_between prv n (nx H prv) H"

definition list_add_before :: "ptr \<Rightarrow> ptr \<Rightarrow> lheap \<Rightarrow> lheap" where
  "list_add_before nxt n H = list_add_between (pv H nxt) n nxt H"

definition list_empty :: "ptr \<Rightarrow> lheap \<Rightarrow> bool" where
  "list_empty h H \<longleftrightarrow> nx H h = h"

definition list_del :: "ptr \<Rightarrow> lheap \<Rightarrow> lheap" where
  "list_del n H =
     (let H = set_pv (nx H n) (pv H n) H in
      set_nx (pv H n) (nx H n) H)"

definition list_del_from :: "ptr \<Rightarrow> ptr \<Rightarrow> lheap \<Rightarrow> lheap" where
  "list_del_from h n H = list_del n H"

definition list_node_to_off :: "ptr \<Rightarrow> u64 \<Rightarrow> ptr" where "list_node_to_off node off = node - off"
definition list_node_from_off :: "ptr \<Rightarrow> u64 \<Rightarrow> ptr" where "list_node_from_off p off = p + off"

definition list_top :: "ptr \<Rightarrow> u64 \<Rightarrow> lheap \<Rightarrow> ptr" where
  "list_top h off H = (if list_empty h H then NULL else nx H h - off)"

definition list_pop :: "ptr \<Rightarrow> u64 \<Rightarrow> lheap \<Rightarrow> ptr \<times> lheap" where
  "list_pop h off H =
     (if list_empty h H then (NULL, H)
      else let n = nx H h; H = list_del n H in (n - off, H))"

definition list_tail :: "ptr \<Rightarrow> u64 \<Rightarrow> lheap \<Rightarrow> ptr" where
  "list_tail h off H = (if list_empty h H then NULL else pv H h - off)"

definition list_entry_or_null :: "ptr \<Rightarrow> ptr \<Rightarrow> u64 \<Rightarrow> ptr" where
  "list_entry_or_null h n off = (if n = h then NULL else n - off)"

definition list_next :: "ptr \<Rightarrow> ptr \<Rightarrow> u64 \<Rightarrow> lheap \<Rightarrow> ptr" where
  "list_next h i off H = list_entry_or_null h (nx H (i + off)) off"

definition list_prev :: "ptr \<Rightarrow> ptr \<Rightarrow> u64 \<Rightarrow> lheap \<Rightarrow> ptr" where
  "list_prev h i off H = list_entry_or_null h (pv H (i + off)) off"

definition list_append_list :: "ptr \<Rightarrow> ptr \<Rightarrow> lheap \<Rightarrow> lheap" where
  "list_append_list to from H =
     (let from_tail = pv H from; to_tail = pv H to;
          H = set_pv to from_tail H;
          H = set_nx from_tail to H;
          H = set_nx to_tail from H;
          H = set_pv from to_tail H;
          H = list_del from H in
      list_head_init from H)"

definition list_prepend_list :: "ptr \<Rightarrow> ptr \<Rightarrow> lheap \<Rightarrow> lheap" where
  "list_prepend_list to from H =
     (let from_tail = pv H from; to_head = nx H to;
          H = set_nx to from H;
          H = set_pv from to H;
          H = set_pv to_head from_tail H;
          H = set_nx from_tail to_head H;
          H = list_del from H in
      list_head_init from H)"

text \<open>
  The iteration macros, as the entries the body sees: forwards, backwards, and forwards with a body
  \<open>f\<close> that may delete the current entry.  The loops end when they are back at the head; the fuel
  bounds the number of entries.
\<close>

fun list_each :: "nat \<Rightarrow> ptr \<Rightarrow> u64 \<Rightarrow> lheap \<Rightarrow> ptr \<Rightarrow> ptr list option" where
  "list_each 0 h off H i = None"
| "list_each (Suc k) h off H i =
     (if list_node_from_off i off = h then Some []
      else map_option ((#) i) (list_each k h off H (list_node_to_off (nx H (list_node_from_off i off)) off)))"

definition list_for_each_off :: "nat \<Rightarrow> ptr \<Rightarrow> u64 \<Rightarrow> lheap \<Rightarrow> ptr list option" where
  "list_for_each_off fuel h off H = list_each fuel h off H (list_node_to_off (nx H h) off)"

fun list_each_rev :: "nat \<Rightarrow> ptr \<Rightarrow> u64 \<Rightarrow> lheap \<Rightarrow> ptr \<Rightarrow> ptr list option" where
  "list_each_rev 0 h off H i = None"
| "list_each_rev (Suc k) h off H i =
     (if i + off = h then Some []
      else map_option ((#) i) (list_each_rev k h off H (pv H (i + off) - off)))"

definition list_for_each_rev :: "nat \<Rightarrow> ptr \<Rightarrow> u64 \<Rightarrow> lheap \<Rightarrow> ptr list option" where
  "list_for_each_rev fuel h off H = list_each_rev fuel h off H (pv H h - off)"

fun list_each_safe :: "nat \<Rightarrow> ptr \<Rightarrow> u64 \<Rightarrow> (ptr \<Rightarrow> lheap \<Rightarrow> lheap) \<Rightarrow> lheap \<Rightarrow> ptr \<Rightarrow> ptr \<Rightarrow> (ptr list \<times> lheap) option" where
  "list_each_safe 0 h off f H i nxt = None"
| "list_each_safe (Suc k) h off f H i nxt =
     (if list_node_from_off i off = h then Some ([], H)
      else
        let H = f i H in
        map_option (\<lambda>(es, H). (i # es, H))
          (list_each_safe k h off f H nxt (list_node_to_off (nx H (list_node_from_off nxt off)) off)))"

definition list_for_each_safe_off :: "nat \<Rightarrow> ptr \<Rightarrow> u64 \<Rightarrow> (ptr \<Rightarrow> lheap \<Rightarrow> lheap) \<Rightarrow> lheap \<Rightarrow> (ptr list \<times> lheap) option" where
  "list_for_each_safe_off fuel h off f H =
     (let i = list_node_to_off (nx H h) off in
      list_each_safe fuel h off f H i (list_node_to_off (nx H (list_node_from_off i off)) off))"

section \<open>Singly linked lists\<close>

type_synonym sheap = "ptr \<Rightarrow> ptr"

definition slist_init_head :: "ptr \<Rightarrow> sheap \<Rightarrow> sheap" where "slist_init_head h s = s(h := NULL)"

definition slist_add_head :: "ptr \<Rightarrow> ptr \<Rightarrow> sheap \<Rightarrow> sheap" where
  "slist_add_head h n s = (let s = s(n := s h) in s(h := n))"

definition slist_del_head :: "ptr \<Rightarrow> sheap \<Rightarrow> sheap" where "slist_del_head h s = s(h := s (s h))"
definition slist_del :: "ptr \<Rightarrow> ptr \<Rightarrow> sheap \<Rightarrow> sheap" where "slist_del prv n s = s(prv := s n)"
definition slist_empty :: "ptr \<Rightarrow> sheap \<Rightarrow> bool" where "slist_empty h s \<longleftrightarrow> s h = NULL"

definition slist_pop :: "ptr \<Rightarrow> u64 \<Rightarrow> sheap \<Rightarrow> ptr \<times> sheap" where
  "slist_pop h off s =
     (if slist_empty h s then (NULL, s)
      else let n = s h; s = slist_del h n s in (n - off, s))"

fun slist_each :: "nat \<Rightarrow> sheap \<Rightarrow> ptr \<Rightarrow> ptr list option" where
  "slist_each 0 s pos = None"
| "slist_each (Suc k) s pos = (if pos = NULL then Some [] else map_option ((#) pos) (slist_each k s (s pos)))"

definition slist_for_each :: "nat \<Rightarrow> ptr \<Rightarrow> sheap \<Rightarrow> ptr list option" where
  "slist_for_each fuel h s = slist_each fuel s (s h)"

section \<open>Lists with a head pointer\<close>

text \<open>The cell of a node's \<open>next\<close> field has the address of the node, that of the \<open>head\<close> field the address
  of the head; \<open>pprev\<close> is the address of the cell that points to the node.\<close>

record hheap =
  hn :: "ptr \<Rightarrow> ptr"
  pprev :: "ptr \<Rightarrow> ptr"

definition hlist_init_head :: "ptr \<Rightarrow> hheap \<Rightarrow> hheap" where "hlist_init_head h H = H\<lparr>hn := (hn H)(h := NULL)\<rparr>"

definition hlist_add_head :: "ptr \<Rightarrow> ptr \<Rightarrow> hheap \<Rightarrow> hheap" where
  "hlist_add_head h n H =
     (let head = hn H h;
          H = H\<lparr>hn := (hn H)(n := head)\<rparr>;
          H = H\<lparr>pprev := (pprev H)(n := h)\<rparr>;
          H = H\<lparr>hn := (hn H)(h := n)\<rparr> in
      if head \<noteq> NULL then H\<lparr>pprev := (pprev H)(head := n)\<rparr> else H)"

definition hlist_del :: "ptr \<Rightarrow> hheap \<Rightarrow> hheap" where
  "hlist_del n H =
     (let H = H\<lparr>hn := (hn H)(pprev H n := hn H n)\<rparr> in
      if hn H n \<noteq> NULL then H\<lparr>pprev := (pprev H)(hn H n := pprev H n)\<rparr> else H)"

definition hlist_del_head :: "ptr \<Rightarrow> hheap \<Rightarrow> hheap" where
  "hlist_del_head h H = (if hn H h \<noteq> NULL then hlist_del (hn H h) H else H)"

definition hlist_empty :: "ptr \<Rightarrow> hheap \<Rightarrow> bool" where "hlist_empty h H \<longleftrightarrow> hn H h = NULL"

fun hlist_each :: "nat \<Rightarrow> hheap \<Rightarrow> ptr \<Rightarrow> ptr list option" where
  "hlist_each 0 H pos = None"
| "hlist_each (Suc k) H pos = (if pos = NULL then Some [] else map_option ((#) pos) (hlist_each k H (hn H pos)))"

definition hlist_for_each :: "nat \<Rightarrow> ptr \<Rightarrow> hheap \<Rightarrow> ptr list option" where
  "hlist_for_each fuel h H = hlist_each fuel H (hn H h)"

section \<open>The doubly linked list represents a list\<close>

text \<open>Two nodes are linked; a list with head \<open>h\<close> is a cycle of links through its nodes.\<close>

definition linked :: "lheap \<Rightarrow> ptr \<Rightarrow> ptr \<Rightarrow> bool" where
  "linked H p q \<longleftrightarrow> nx H p = q \<and> pv H q = p"

definition dll :: "ptr \<Rightarrow> ptr list \<Rightarrow> lheap \<Rightarrow> bool" where
  "dll h xs H \<longleftrightarrow> distinct (h # xs) \<and> successively (linked H) (h # xs @ [h])"

lemma successively_frame:
  assumes "successively P xs" "\<And>x y. x \<in> set (butlast xs) \<Longrightarrow> y \<in> set (tl xs) \<Longrightarrow> P x y \<Longrightarrow> Q x y"
  shows "successively Q xs"
  using assms
proof (induction xs rule: induct_list012)
  case (3 x y zs)
  have "successively Q (y # zs)"
    using "3.prems" by (intro "3.IH"(2)) auto
  then show ?case using "3.prems" by simp
qed simp_all

lemma dll_parts:
  "dll h (xs @ ys) H \<longleftrightarrow> distinct (h # xs @ ys) \<and> successively (linked H) (h # xs) \<and> successively (linked H) (ys @ [h]) \<and>
     linked H (last (h # xs)) (hd (ys @ [h]))"
  using successively_append_iff [of "linked H" "h # xs" "ys @ [h]"] by (auto simp: dll_def)

text \<open>The links of a part of the list survive stores elsewhere.\<close>

lemma chain_frame:
  assumes "successively (linked H) xs"
    and "\<And>p. p \<in> set (butlast xs) \<Longrightarrow> nx H' p = nx H p" "\<And>p. p \<in> set (tl xs) \<Longrightarrow> pv H' p = pv H p"
  shows "successively (linked H') xs"
  using assms(1) by (rule successively_frame) (simp add: linked_def assms(2,3))

lemma set_tl_subset: "set (tl xs) \<subseteq> set xs"
  by (cases xs) auto

lemma last_butlast_distinct: "distinct xs \<Longrightarrow> x \<in> set (butlast xs) \<Longrightarrow> x \<noteq> last xs"
  by (cases xs rule: rev_cases) auto

lemma hd_tl_distinct: "distinct xs \<Longrightarrow> x \<in> set (tl xs) \<Longrightarrow> x \<noteq> hd xs"
  by (cases xs) auto

lemma splice:
  assumes d: "dll t (xs @ ys) H" and z: "successively (linked H) zs" "distinct zs" "zs \<noteq> []" "set zs \<inter> set (t # xs @ ys) = {}"
    and nx': "nx H' = (nx H)(last (t # xs) := hd zs, last zs := hd (ys @ [t]))"
    and pv': "pv H' = (pv H)(hd zs := last (t # xs), hd (ys @ [t]) := last zs)"
  shows "dll t (xs @ zs @ ys) H'"
proof -
  let ?A = "t # xs" and ?B = "ys @ [t]"
  have dist: "distinct ?A" "distinct ?B" "set zs \<inter> set ?A = {}" "set zs \<inter> set ?B = {}" "set xs \<inter> set ?B = {}" "set ys \<inter> set ?A = {}"
    using d z(4) by (auto simp: dll_def)
  have ends: "last ?A \<in> set ?A" "hd ?B \<in> set ?B" "hd zs \<in> set zs" "last zs \<in> set zs"
    using z(3) by (simp_all add: hd_append)
  have bl: "set (butlast ?A) \<subseteq> set ?A" "set (butlast ?B) = set ys" "set (butlast zs) \<subseteq> set zs"
      "set (tl ?A) = set xs" "set (tl ?B) \<subseteq> set ?B" "set (tl zs) \<subseteq> set zs"
    using set_tl_subset [of ?B] set_tl_subset [of zs] by (auto dest: in_set_butlastD)
  have "successively (linked H') ?A"
  proof (rule chain_frame)
    show "successively (linked H) ?A" using d by (simp add: dll_parts)
    show "nx H' p = nx H p" if "p \<in> set (butlast ?A)" for p
      using last_butlast_distinct [OF dist(1) that] that bl(1) dist(3) ends(4) unfolding nx' by auto
    show "pv H' p = pv H p" if "p \<in> set (tl ?A)" for p
      using that bl(4) dist(3,5) ends(2,3) unfolding pv' by auto
  qed
  moreover have "successively (linked H') ?B"
  proof (rule chain_frame)
    show "successively (linked H) ?B" using d by (simp add: dll_parts)
    show "nx H' p = nx H p" if "p \<in> set (butlast ?B)" for p
      using that bl(2) dist(4,6) ends(1,4) unfolding nx' by auto
    show "pv H' p = pv H p" if "p \<in> set (tl ?B)" for p
      using hd_tl_distinct [OF dist(2) that] that bl(5) dist(4) ends(3) unfolding pv' by auto
  qed
  moreover have "successively (linked H') zs"
  proof (rule chain_frame [OF z(1)])
    show "nx H' p = nx H p" if "p \<in> set (butlast zs)" for p
      using last_butlast_distinct [OF z(2) that] that bl(3) dist(3) ends(1) unfolding nx' by auto
    show "pv H' p = pv H p" if "p \<in> set (tl zs)" for p
      using hd_tl_distinct [OF z(2) that] that bl(6) dist(4) ends(2) unfolding pv' by auto
  qed
  moreover have "linked H' (last ?A) (hd zs)" "linked H' (last zs) (hd ?B)"
    using ends dist(3,4) unfolding linked_def nx' pv' by auto
  moreover have "distinct (t # xs @ zs @ ys)" using d z(2,4) by (auto simp: dll_def)
  ultimately show ?thesis
    using z(3) successively_append_iff [of "linked H'" zs ?B]
    by (simp add: dll_parts hd_append)
qed

lemma dll_ends:
  assumes "dll h (xs @ n # ys) H"
  shows "nx H (last (h # xs)) = n" "pv H n = last (h # xs)" "nx H n = hd (ys @ [h])" "pv H (hd (ys @ [h])) = n"
  using assms successively_append_iff [of "linked H" "h # xs" "n # ys @ [h]"]
  by (cases ys; simp add: dll_def linked_def)+

lemma dll_head:
  assumes "dll h xs H"
  shows "nx H h = hd (xs @ [h])" "pv H h = last (h # xs)" "h \<notin> set xs" "distinct xs"
    "pv H (hd (xs @ [h])) = h" "nx H (last (h # xs)) = h"
proof -
  have 1: "successively (linked H) (h # (xs @ [h]))" "successively (linked H) ((h # xs) @ [h])"
    using assms by (simp_all add: dll_def)
  then show "nx H h = hd (xs @ [h])" "pv H (hd (xs @ [h])) = h"
    by (cases xs; simp add: linked_def)+
  show "pv H h = last (h # xs)" "nx H (last (h # xs)) = h"
    using 1(2) unfolding successively_append_iff by (auto simp: linked_def)
  show "h \<notin> set xs" "distinct xs" using assms by (auto simp: dll_def)
qed

lemma dll_frame:
  assumes "dll h xs H" and "\<And>p. p \<in> set (h # xs) \<Longrightarrow> nx H' p = nx H p \<and> pv H' p = pv H p"
  shows "dll h xs H'"
  using assms set_tl_subset [of "h # xs @ [h]"]
  by (auto simp: dll_def dest!: in_set_butlastD intro!: chain_frame [of H])

lemma dll_init: "dll h [] (list_head_init h H)"
  by (simp add: dll_def list_head_init_def linked_def)

lemma dll_del:
  assumes d: "dll h (xs @ n # ys) H"
  shows "dll h (xs @ ys) (list_del n H)"
proof -
  let ?A = "h # xs" and ?B = "ys @ [h]"
  have dist: "distinct ?A" "distinct ?B" "set xs \<inter> set ?B = {}" "set ys \<inter> set ?A = {}" "n \<notin> set ?A" "n \<notin> set ?B"
    using d by (auto simp: dll_def)
  have ends: "last ?A \<in> set ?A" "hd ?B \<in> set ?B" by (simp_all add: hd_append)
  have ne: "last ?A \<noteq> n" "hd ?B \<noteq> n" using ends dist(5,6) by auto
  have nx': "nx (list_del n H) = (nx H)(last ?A := hd ?B)" and pv': "pv (list_del n H) = (pv H)(hd ?B := last ?A)"
    using dll_ends [OF d] ne by (auto simp: list_del_def Let_def)
  have ch: "successively (linked H) ?A" "successively (linked H) ?B"
    using d successively_append_iff [of "linked H" ?A "n # ?B"] by (auto simp: dll_def successively_Cons)
  have "successively (linked (list_del n H)) ?A"
    using last_butlast_distinct [OF dist(1)] dist(3) ends(2) unfolding nx' pv'
    by (intro chain_frame [OF ch(1)]) (auto simp: nx' pv')
  moreover have "successively (linked (list_del n H)) ?B"
    using hd_tl_distinct [OF dist(2)] dist(4) ends(1)
    by (intro chain_frame [OF ch(2)]) (auto simp: nx' pv')
  moreover have "linked (list_del n H) (last ?A) (hd ?B)"
    by (simp add: linked_def nx' pv')
  moreover have "distinct (h # xs @ ys)" using d by (auto simp: dll_def)
  ultimately show ?thesis by (simp add: dll_parts)
qed

lemma dll_add_between:
  assumes d: "dll h (xs @ ys) H" and n: "n \<notin> set (h # xs @ ys)"
  shows "dll h (xs @ n # ys) (list_add_between (last (h # xs)) n (hd (ys @ [h])) H)"
proof -
  have "dll h (xs @ [n] @ ys) (list_add_between (last (h # xs)) n (hd (ys @ [h])) H)"
  proof (rule splice [OF d])
    have "last (h # xs) \<in> set (h # xs)" "hd (ys @ [h]) \<in> set (ys @ [h])" by (simp_all add: hd_append)
    then have "last (h # xs) \<noteq> n" "hd (ys @ [h]) \<noteq> n" using n by auto
    then show "nx (list_add_between (last (h # xs)) n (hd (ys @ [h])) H)
        = (nx H)(last (h # xs) := hd [n], last [n] := hd (ys @ [h]))"
      "pv (list_add_between (last (h # xs)) n (hd (ys @ [h])) H)
        = (pv H)(hd [n] := last (h # xs), hd (ys @ [h]) := last [n])"
      by (auto simp: list_add_between_def Let_def)
  qed (use n in auto)
  then show ?thesis by simp
qed

lemma list_add_is_between: "n \<noteq> h \<Longrightarrow> list_add h n H = list_add_between h n (nx H h) H"
  by (auto simp: list_add_def list_add_between_def Let_def fun_upd_twist)

lemma list_add_tail_is_between: "n \<noteq> pv H h \<Longrightarrow> n \<noteq> h \<Longrightarrow> list_add_tail h n H = list_add_between (pv H h) n h H"
  by (auto simp: list_add_tail_def list_add_between_def Let_def fun_upd_twist)

lemma dll_add: "dll h xs H \<Longrightarrow> n \<notin> set (h # xs) \<Longrightarrow> dll h (n # xs) (list_add h n H)"
  using dll_add_between [of h "[]" xs H n] by (simp add: list_add_is_between dll_head)

lemma dll_add_tail:
  assumes "dll h xs H" "n \<notin> set (h # xs)"
  shows "dll h (xs @ [n]) (list_add_tail h n H)"
proof -
  have "last (h # xs) \<in> set (h # xs)" by simp
  then have "n \<noteq> pv H h" using assms by (auto simp: dll_head(2))
  then show ?thesis
    using dll_add_between [of h xs "[]" H n] assms by (simp add: list_add_tail_is_between dll_head(2))
qed

lemma dll_add_after:
  assumes "dll h (xs @ p # ys) H" "n \<notin> set (h # xs @ p # ys)"
  shows "dll h (xs @ p # n # ys) (list_add_after p n H)"
  using dll_add_between [of h "xs @ [p]" ys H n] dll_ends(3) [OF assms(1)] assms by (simp add: list_add_after_def)

lemma dll_add_before:
  assumes "dll h (xs @ p # ys) H" "n \<notin> set (h # xs @ p # ys)"
  shows "dll h (xs @ n # p # ys) (list_add_before p n H)"
  using dll_add_between [of h xs "p # ys" H n] dll_ends(2) [OF assms(1)] assms by (simp add: list_add_before_def)

lemma dll_empty: "dll h xs H \<Longrightarrow> list_empty h H \<longleftrightarrow> xs = []"
  by (cases xs) (auto simp: list_empty_def dll_head(1) dest: dll_head(3))

lemma dll_pop: "dll h (x # xs) H \<Longrightarrow> list_pop h off H = (x - off, list_del x H) \<and> dll h xs (list_del x H)"
  using dll_del [of h "[]" x xs H] by (auto simp: list_pop_def dll_empty dll_head(1) Let_def)

lemma dll_chain: "dll h xs H \<Longrightarrow> successively (linked H) (h # xs)"
  using dll_parts [of h xs "[]" H] by simp

lemma dll_init_other: "dll h xs H \<Longrightarrow> g \<notin> set (h # xs) \<Longrightarrow> dll h xs (list_head_init g H)"
  by (erule dll_frame) (auto simp: list_head_init_def)

lemma dll_append_list:
  assumes d: "dll t xs H" "dll f ys H" and dj: "set (t # xs) \<inter> set (f # ys) = {}"
  shows "dll t (xs @ ys) (list_append_list t f H)" "dll f [] (list_append_list t f H)"
proof -
  define tl where "tl = last (t # xs)"
  define fl where "fl = last (f # ys)"
  let ?S = "set_pv f tl (set_nx tl f (set_nx fl t (set_pv t fl H)))"
  have mem: "tl \<in> set (t # xs)" "fl \<in> set (f # ys)" unfolding tl_def fl_def by simp_all
  have ne: "tl \<noteq> fl" "t \<noteq> f" using mem dj by auto
  have "dll t (xs @ (f # ys) @ []) ?S"
    using d(1) dll_chain [OF d(2)] d(2) dj ne
    by (intro splice [of t xs "[]" H "f # ys"]) (auto simp: dll_def tl_def fl_def fun_upd_twist)
  then have "dll t (xs @ ys) (list_del f ?S)" using dll_del [of t xs f ys ?S] by simp
  then have "dll t (xs @ ys) (list_head_init f (list_del f ?S))"
    using dj dll_head(3) [OF d(2)] by (intro dll_init_other) auto
  moreover have "list_append_list t f H = list_head_init f (list_del f ?S)"
    using dll_head(2) [OF d(1)] dll_head(2) [OF d(2)] by (simp add: list_append_list_def Let_def tl_def fl_def)
  ultimately show "dll t (xs @ ys) (list_append_list t f H)" "dll f [] (list_append_list t f H)"
    by (simp_all add: dll_init)
qed

lemma dll_prepend_list:
  assumes d: "dll t xs H" "dll f ys H" and dj: "set (t # xs) \<inter> set (f # ys) = {}"
  shows "dll t (ys @ xs) (list_prepend_list t f H)" "dll f [] (list_prepend_list t f H)"
proof -
  define th where "th = hd (xs @ [t])"
  define fl where "fl = last (f # ys)"
  let ?S = "set_nx fl th (set_pv th fl (set_pv f t (set_nx t f H)))"
  have mem: "th \<in> set (t # xs)" "fl \<in> set (f # ys)" unfolding th_def fl_def by (auto simp: hd_append)
  have ne: "th \<noteq> f" "t \<noteq> fl" using mem dj by auto
  have "dll t ([] @ (f # ys) @ xs) ?S"
    using d(1) dll_chain [OF d(2)] d(2) dj ne
    by (intro splice [of t "[]" xs H "f # ys"]) (auto simp: dll_def th_def fl_def fun_upd_twist)
  then have "dll t (ys @ xs) (list_del f ?S)" using dll_del [of t "[]" f "ys @ xs" ?S] by simp
  then have "dll t (ys @ xs) (list_head_init f (list_del f ?S))"
    using dj dll_head(3) [OF d(2)] by (intro dll_init_other) auto
  moreover have "list_prepend_list t f H = list_head_init f (list_del f ?S)"
    using dll_head(1) [OF d(1)] dll_head(2) [OF d(2)] by (simp add: list_prepend_list_def Let_def th_def fl_def)
  ultimately show "dll t (ys @ xs) (list_prepend_list t f H)" "dll f [] (list_prepend_list t f H)"
    by (simp_all add: dll_init)
qed

subsection \<open>Traversals\<close>

lemma list_each_entries:
  assumes "dll h (xs @ ys) H" "length ys < k"
  shows "list_each k h off H (hd (ys @ [h]) - off) = Some (map (\<lambda>p. p - off) ys)"
  using assms
proof (induction ys arbitrary: xs k)
  case Nil
  then show ?case by (cases k) (simp_all add: list_node_from_off_def)
next
  case (Cons y ys)
  then obtain j where k: "k = Suc j" "length ys < j" by (cases k) auto
  have "y \<noteq> h" using Cons.prems(1) by (auto simp: dll_def)
  moreover have "nx H y = hd (ys @ [h])" using dll_ends(3) [OF Cons.prems(1)] .
  moreover have "list_each j h off H (hd (ys @ [h]) - off) = Some (map (\<lambda>p. p - off) ys)"
    using Cons.IH [of "xs @ [y]"] Cons.prems k by simp
  ultimately show ?case by (simp add: k list_node_from_off_def list_node_to_off_def)
qed

lemma list_each_rev_entries:
  assumes "dll h (xs @ ys) H" "length xs < k"
  shows "list_each_rev k h off H (last (h # xs) - off) = Some (map (\<lambda>p. p - off) (rev xs))"
  using assms
proof (induction xs arbitrary: ys k rule: rev_induct)
  case Nil
  then show ?case by (cases k) simp_all
next
  case (snoc x xs)
  then obtain j where k: "k = Suc j" "length xs < j" by (cases k) auto
  have d: "dll h (xs @ x # ys) H" using snoc.prems(1) by simp
  have "x \<noteq> h" using d by (auto simp: dll_def)
  moreover have "pv H x = last (h # xs)" using dll_ends(2) [OF d] .
  moreover have "list_each_rev j h off H (last (h # xs) - off) = Some (map (\<lambda>p. p - off) (rev xs))"
    using snoc.IH [OF d] k by simp
  ultimately show ?case by (simp add: k)
qed

text \<open>A body that deletes the current entry when it satisfies \<open>P\<close>.\<close>

definition del_if :: "(ptr \<Rightarrow> bool) \<Rightarrow> u64 \<Rightarrow> ptr \<Rightarrow> lheap \<Rightarrow> lheap" where
  "del_if P off i H = (if P i then list_del (list_node_from_off i off) H else H)"

lemma list_each_safe_entries:
  assumes "dll h (zs @ ys) H" "length ys < k"
  shows "\<exists>H'. list_each_safe k h off (del_if P off) H (hd (ys @ [h]) - off) (nx H (hd (ys @ [h])) - off)
           = Some (map (\<lambda>p. p - off) ys, H') \<and> dll h (zs @ filter (\<lambda>p. \<not> P (p - off)) ys) H'"
  using assms
proof (induction ys arbitrary: zs k H)
  case Nil
  then show ?case by (cases k) (simp_all add: list_node_from_off_def)
next
  case (Cons y ys)
  then obtain j where k: "k = Suc j" "length ys < j" by (cases k) auto
  have y: "y \<noteq> h" using Cons.prems(1) by (auto simp: dll_def)
  have n: "nx H y = hd (ys @ [h])" using dll_ends(3) [OF Cons.prems(1)] .
  define zs' where "zs' = (if P (y - off) then zs else zs @ [y])"
  have "dll h (zs' @ ys) (del_if P off (y - off) H)"
    using Cons.prems(1) dll_del [OF Cons.prems(1)] by (simp add: del_if_def zs'_def list_node_from_off_def)
  from Cons.IH [OF this k(2)] show ?case
    using y n by (auto simp: k list_node_from_off_def list_node_to_off_def Let_def zs'_def split: if_splits)
qed

section \<open>Singly linked lists and lists with a head pointer\<close>

definition sll :: "ptr \<Rightarrow> ptr list \<Rightarrow> sheap \<Rightarrow> bool" where
  "sll h xs s \<longleftrightarrow> distinct (h # xs) \<and> NULL \<notin> set (h # xs) \<and> successively (\<lambda>p q. s p = q) (h # xs @ [NULL])"

definition hlinked :: "hheap \<Rightarrow> ptr \<Rightarrow> ptr \<Rightarrow> bool" where
  "hlinked H p q \<longleftrightarrow> hn H p = q \<and> (q \<noteq> NULL \<longrightarrow> pprev H q = p)"

definition hll :: "ptr \<Rightarrow> ptr list \<Rightarrow> hheap \<Rightarrow> bool" where
  "hll h xs H \<longleftrightarrow> distinct (h # xs) \<and> NULL \<notin> set (h # xs) \<and> successively (hlinked H) (h # xs @ [NULL])"

lemma sll_add:
  assumes "sll h xs s" "n \<notin> set (h # xs)" "n \<noteq> NULL"
  shows "sll h (n # xs) (slist_add_head h n s)"
proof -
  have "successively (\<lambda>p q. s p = q) (xs @ [NULL])" "s h = hd (xs @ [NULL])"
    using assms(1) by (cases xs; simp add: sll_def)+
  moreover from this(1) have "successively (\<lambda>p q. (s(n := s h, h := n)) p = q) (xs @ [NULL])"
    by (rule successively_frame) (use assms in \<open>auto simp: sll_def\<close>)
  ultimately show ?thesis
    using assms by (cases xs) (auto simp: sll_def slist_add_head_def Let_def)
qed

lemma sll_del:
  assumes "sll h (xs @ n # ys) s"
  shows "s (last (h # xs)) = n" "sll h (xs @ ys) (slist_del (last (h # xs)) n s)"
proof -
  let ?A = "h # xs" and ?B = "ys @ [NULL]"
  have ch: "successively (\<lambda>p q. s p = q) ?A" "successively (\<lambda>p q. s p = q) ?B" "s (last ?A) = n" "s n = hd ?B"
    using assms successively_append_iff [of "\<lambda>p q. s p = q" ?A "n # ?B"] by (auto simp: sll_def successively_Cons)
  then show "s (last ?A) = n" by simp
  have dist: "distinct ?A" "last ?A \<in> set ?A" "set ?A \<inter> set ys = {}" using assms by (auto simp: sll_def)
  have "successively (\<lambda>p q. (s(last ?A := s n)) p = q) ?A"
    by (rule successively_frame [OF ch(1)]) (use last_butlast_distinct [OF dist(1)] in auto)
  moreover have "successively (\<lambda>p q. (s(last ?A := s n)) p = q) ?B"
    by (rule successively_frame [OF ch(2)]) (use dist(2,3) in \<open>auto simp del: last.simps\<close>)
  ultimately have "successively (\<lambda>p q. (s(last ?A := s n)) p = q) (?A @ ?B)"
    unfolding successively_append_iff using ch(4) by simp
  then show "sll h (xs @ ys) (slist_del (last ?A) n s)"
    using assms by (auto simp: sll_def slist_del_def)
qed

lemma hll_add:
  assumes "hll h xs H" "n \<notin> set (h # xs)" "n \<noteq> NULL"
  shows "hll h (n # xs) (hlist_add_head h n H)"
proof -
  let ?H = "hlist_add_head h n H"
  have 1: "successively (hlinked H) (xs @ [NULL])" "hn H h = hd (xs @ [NULL])" "distinct (h # xs)" "NULL \<notin> set (h # xs)"
    using assms(1) by (cases xs; simp add: hll_def hlinked_def)+
  have hn': "hn ?H = (hn H)(n := hn H h, h := n)"
    by (simp add: hlist_add_head_def Let_def)
  have pp': "pprev ?H = (if hn H h = NULL then (pprev H)(n := h) else (pprev H)(n := h, hn H h := n))"
    by (simp add: hlist_add_head_def Let_def)
  have "successively (hlinked ?H) (xs @ [NULL])"
  proof (rule successively_frame [OF 1(1)])
    fix p q assume "p \<in> set (butlast (xs @ [NULL]))" "q \<in> set (tl (xs @ [NULL]))" "hlinked H p q"
    moreover have "q \<noteq> NULL \<Longrightarrow> q \<noteq> hn H h \<and> q \<noteq> n" if "q \<in> set (tl (xs @ [NULL]))"
      using that 1 assms(2) by (cases xs) auto
    ultimately show "hlinked ?H p q"
      using assms(2) 1(3) unfolding hlinked_def hn' pp' by auto
  qed
  moreover have "hlinked ?H n (hd (xs @ [NULL]))" "hlinked ?H h n"
    using assms 1 by (auto simp: hlinked_def hn' pp' hd_append)
  ultimately show ?thesis
    using assms 1 by (cases xs) (auto simp: hll_def)
qed

lemma hll_del:
  assumes "hll h (xs @ n # ys) H"
  shows "hn H (last (h # xs)) = n" "hll h (xs @ ys) (hlist_del n H)"
proof -
  let ?A = "h # xs" and ?B = "ys @ [NULL]" and ?H = "hlist_del n H"
  have ch: "successively (hlinked H) ?A" "successively (hlinked H) ?B" "hlinked H (last ?A) n" "hlinked H n (hd ?B)"
    using assms successively_append_iff [of "hlinked H" ?A "n # ?B"] by (auto simp: hll_def successively_Cons)
  then show "hn H (last ?A) = n" by (simp add: hlinked_def)
  have dist: "distinct ?A" "last ?A \<in> set ?A" "set ?A \<inter> set ys = {}" "NULL \<notin> set ?A" "n \<notin> set ?A" "n \<notin> set ?B" "distinct ?B"
      "hd ?B \<in> set ?B" "n \<noteq> NULL"
    using assms by (auto simp: hll_def hd_append)
  have f: "pprev H n = last ?A" "hn H n = hd ?B" "last ?A \<noteq> n" using ch(3,4) dist by (auto simp: hlinked_def)
  have hn': "hn ?H = (hn H)(last ?A := hd ?B)" and
    pp': "pprev ?H = (if hd ?B = NULL then pprev H else (pprev H)(hd ?B := last ?A))"
    using f by (auto simp: hlist_del_def Let_def)
  have "successively (hlinked ?H) ?A"
    by (rule successively_frame [OF ch(1)])
       (use last_butlast_distinct [OF dist(1)] dist(3,4,8) in \<open>auto simp: hlinked_def hn' pp' simp del: last.simps\<close>)
  moreover have "successively (hlinked ?H) ?B"
  proof (rule successively_frame [OF ch(2)])
    fix p q assume "p \<in> set (butlast ?B)" "q \<in> set (tl ?B)" "hlinked H p q"
    then show "hlinked ?H p q"
      using hd_tl_distinct [OF dist(7), of q] dist(2,3) unfolding hlinked_def hn' pp' by auto
  qed
  moreover have "hlinked ?H (last ?A) (hd ?B)" by (simp add: hlinked_def hn' pp')
  ultimately have "successively (hlinked ?H) (?A @ ?B)"
    unfolding successively_append_iff by simp
  then show "hll h (xs @ ys) ?H"
    using assms by (auto simp: hll_def)
qed

section \<open>The stack all three lists are\<close>

text \<open>A client that adds nodes at the head and takes the first one out until the list is empty.\<close>

definition add_all :: "(ptr \<Rightarrow> ptr \<Rightarrow> 'h \<Rightarrow> 'h) \<Rightarrow> ptr \<Rightarrow> ptr list \<Rightarrow> 'h \<Rightarrow> 'h" where
  "add_all add h ns H = fold (add h) ns H"

fun take_all :: "(ptr \<Rightarrow> 'h \<Rightarrow> bool) \<Rightarrow> (ptr \<Rightarrow> 'h \<Rightarrow> ptr) \<Rightarrow> (ptr \<Rightarrow> 'h \<Rightarrow> 'h) \<Rightarrow> nat \<Rightarrow> ptr \<Rightarrow> 'h \<Rightarrow> (ptr list \<times> 'h) option" where
  "take_all emp first del 0 h H = None"
| "take_all emp first del (Suc k) h H =
     (if emp h H then Some ([], H)
      else map_option (\<lambda>(xs, H'). (first h H # xs, H')) (take_all emp first del k h (del h H)))"

locale intrusive_stack =
  fixes init :: "ptr \<Rightarrow> 'h \<Rightarrow> 'h" and add :: "ptr \<Rightarrow> ptr \<Rightarrow> 'h \<Rightarrow> 'h" and emp :: "ptr \<Rightarrow> 'h \<Rightarrow> bool"
    and first :: "ptr \<Rightarrow> 'h \<Rightarrow> ptr" and del :: "ptr \<Rightarrow> 'h \<Rightarrow> 'h" and rep :: "ptr \<Rightarrow> ptr list \<Rightarrow> 'h \<Rightarrow> bool"
  assumes init_law: "h \<noteq> NULL \<Longrightarrow> rep h [] (init h H)"
    and add_law: "rep h xs H \<Longrightarrow> n \<notin> set (h # xs) \<Longrightarrow> n \<noteq> NULL \<Longrightarrow> rep h (n # xs) (add h n H)"
    and emp_law: "rep h xs H \<Longrightarrow> emp h H \<longleftrightarrow> xs = []"
    and first_law: "rep h (x # xs) H \<Longrightarrow> first h H = x"
    and del_law: "rep h (x # xs) H \<Longrightarrow> rep h xs (del h H)"
begin

lemma add_all_rep:
  "rep h xs H \<Longrightarrow> distinct (h # ns @ xs) \<Longrightarrow> NULL \<notin> set ns \<Longrightarrow> rep h (rev ns @ xs) (add_all add h ns H)"
proof (induction ns arbitrary: xs H)
  case (Cons n ns)
  have "rep h (n # xs) (add h n H)" using Cons.prems by (intro add_law) auto
  then have "rep h (rev ns @ n # xs) (add_all add h ns (add h n H))" using Cons.prems by (intro Cons.IH) auto
  then show ?case by (simp add: add_all_def)
qed (simp add: add_all_def)

lemma take_all_rep:
  "rep h xs H \<Longrightarrow> length xs < k \<Longrightarrow> \<exists>H'. take_all emp first del k h H = Some (xs, H') \<and> rep h [] H'"
proof (induction xs arbitrary: k H)
  case Nil
  then show ?case by (cases k) (auto simp: emp_law)
next
  case (Cons x xs)
  then obtain j where "k = Suc j" "length xs < j" by (cases k) auto
  with Cons.IH [OF del_law [OF Cons.prems(1)], of j] Cons.prems(1) show ?case
    by (auto simp: emp_law first_law)
qed

lemma stack_order:
  assumes "h \<noteq> NULL" "distinct (h # ns)" "NULL \<notin> set ns" "length ns < k"
  shows "\<exists>H'. take_all emp first del k h (add_all add h ns (init h H)) = Some (rev ns, H') \<and> emp h H'"
proof -
  have "rep h (rev ns) (add_all add h ns (init h H))"
    using add_all_rep [OF init_law [OF assms(1)], of ns H] assms by simp
  from take_all_rep [OF this, of k] assms(4) show ?thesis by (auto simp: emp_law)
qed

end

definition list_first :: "ptr \<Rightarrow> lheap \<Rightarrow> ptr" where "list_first h H = list_top h 0 H"
definition list_take :: "ptr \<Rightarrow> lheap \<Rightarrow> lheap" where "list_take h H = snd (list_pop h 0 H)"

interpretation dls: intrusive_stack list_head_init list_add list_empty list_first list_take dll
proof
  fix h x xs H assume d: "dll h (x # xs) H"
  show "list_first h H = x" using d dll_empty [OF d] by (simp add: list_first_def list_top_def dll_head(1))
  show "dll h xs (list_take h H)" using dll_pop [OF d, of 0] by (simp add: list_take_def)
qed (simp_all add: dll_init dll_add dll_empty)

interpretation sls: intrusive_stack slist_init_head slist_add_head slist_empty "\<lambda>h s. s h" slist_del_head sll
proof
  fix h x xs s assume d: "sll h (x # xs) s"
  show x: "s h = x" using d by (simp add: sll_def)
  show "sll h xs (slist_del_head h s)"
    using sll_del(2) [of h "[]" x xs s] d x by (simp add: slist_del_head_def slist_del_def)
next
  fix h xs s assume "sll h xs s"
  then show "slist_empty h s \<longleftrightarrow> xs = []" by (cases xs) (auto simp: sll_def slist_empty_def)
qed (simp_all add: sll_add, simp add: sll_def slist_init_head_def)

interpretation hls: intrusive_stack hlist_init_head hlist_add_head hlist_empty "\<lambda>h H. hn H h" hlist_del_head hll
proof
  fix h x xs H assume d: "hll h (x # xs) H"
  show x: "hn H h = x" using d by (simp add: hll_def hlinked_def)
  show "hll h xs (hlist_del_head h H)"
    using hll_del(2) [of h "[]" x xs H] d x by (auto simp: hlist_del_head_def hll_def)
next
  fix h xs H assume "hll h xs H"
  then show "hlist_empty h H \<longleftrightarrow> xs = []" by (cases xs) (auto simp: hll_def hlinked_def hlist_empty_def)
qed (simp_all add: hll_add, simp add: hll_def hlinked_def hlist_init_head_def)

section \<open>Scripts of list operations\<close>

datatype list_op = Op_add ptr | Op_add_tail ptr | Op_add_after ptr ptr | Op_add_before ptr ptr | Op_del ptr

fun list_op_run :: "ptr \<Rightarrow> list_op \<Rightarrow> lheap \<Rightarrow> lheap" where
  "list_op_run h (Op_add n) H = list_add h n H"
| "list_op_run h (Op_add_tail n) H = list_add_tail h n H"
| "list_op_run h (Op_add_after p n) H = list_add_after p n H"
| "list_op_run h (Op_add_before p n) H = list_add_before p n H"
| "list_op_run h (Op_del n) H = list_del_from h n H"

fun list_op_spec :: "list_op \<Rightarrow> ptr list \<Rightarrow> ptr list" where
  "list_op_spec (Op_add n) xs = n # xs"
| "list_op_spec (Op_add_tail n) xs = xs @ [n]"
| "list_op_spec (Op_add_after p n) xs = concat (map (\<lambda>x. if x = p then [x, n] else [x]) xs)"
| "list_op_spec (Op_add_before p n) xs = concat (map (\<lambda>x. if x = p then [n, x] else [x]) xs)"
| "list_op_spec (Op_del n) xs = filter (\<lambda>x. x \<noteq> n) xs"

text \<open>What the callers guarantee: a node that is added is in no list, a node named as a position or for
  deletion is in the list.\<close>

fun list_op_ok :: "ptr \<Rightarrow> ptr list \<Rightarrow> list_op \<Rightarrow> bool" where
  "list_op_ok h xs (Op_add n) = (n \<notin> set (h # xs))"
| "list_op_ok h xs (Op_add_tail n) = (n \<notin> set (h # xs))"
| "list_op_ok h xs (Op_add_after p n) = (p \<in> set xs \<and> n \<notin> set (h # xs))"
| "list_op_ok h xs (Op_add_before p n) = (p \<in> set xs \<and> n \<notin> set (h # xs))"
| "list_op_ok h xs (Op_del n) = (n \<in> set xs)"

fun list_script_ok :: "ptr \<Rightarrow> ptr list \<Rightarrow> list_op list \<Rightarrow> bool" where
  "list_script_ok h xs [] = True"
| "list_script_ok h xs (oper # ops) = (list_op_ok h xs oper \<and> list_script_ok h (list_op_spec oper xs) ops)"

lemma concat_map_other:
  assumes "p \<notin> set ys"
  shows "concat (map (\<lambda>x. if x = p then f x else [x]) ys) = ys"
  using assms by (induction ys) auto

lemma list_op_refines:
  assumes d: "dll h xs H" and ok: "list_op_ok h xs oper"
  shows "dll h (list_op_spec oper xs) (list_op_run h oper H)"
proof -
  have split: "\<exists>ys zs. xs = ys @ p # zs \<and> p \<notin> set ys \<and> p \<notin> set zs" if "p \<in> set xs" for p
    using split_list [OF that] d by (fastforce simp: dll_def)
  show ?thesis
  proof (cases oper)
    case (Op_add_after p n)
    with split [of p] ok d show ?thesis by (auto simp: concat_map_other dll_add_after)
  next
    case (Op_add_before p n)
    with split [of p] ok d show ?thesis by (auto simp: concat_map_other dll_add_before)
  next
    case (Op_del n)
    then obtain ys zs where x: "xs = ys @ n # zs" "n \<notin> set ys" "n \<notin> set zs" using split [of n] ok by auto
    then have "filter (\<lambda>x. x \<noteq> n) ys = ys" "filter (\<lambda>x. x \<noteq> n) zs = zs" by (auto simp: filter_id_conv)
    with x have "filter (\<lambda>x. x \<noteq> n) xs = ys @ zs" by simp
    then show ?thesis using dll_del [of h ys n zs H] d x Op_del by (simp add: list_del_from_def)
  qed (use ok d in \<open>auto simp: dll_add dll_add_tail\<close>)
qed

lemma list_script_refines:
  "dll h xs H \<Longrightarrow> list_script_ok h xs ops \<Longrightarrow> dll h (fold list_op_spec ops xs) (fold (list_op_run h) ops H)"
  by (induction ops arbitrary: xs H) (simp_all add: list_op_refines)

lemma script_dll:
  "list_script_ok h [] ops \<Longrightarrow> dll h (fold list_op_spec ops []) (fold (list_op_run h) ops (list_head_init h H))"
  by (rule list_script_refines [OF dll_init])

text \<open>
  C24: A doubly linked list that any script of additions (at the head, at the tail, after and before a
  node) and deletions built from \<open>list_head_init\<close> holds what the script does to a sequence: the
  forward loop visits exactly its entries in order and ends, the backward loop visits them in reverse,
  and the list is reported empty exactly when the sequence is.
\<close>

theorem list_script_traversals:
  assumes "list_script_ok h [] ops" and "length (fold list_op_spec ops []) < k"
  shows "list_for_each_off k h off (fold (list_op_run h) ops (list_head_init h H))
           = Some (map (\<lambda>n. n - off) (fold list_op_spec ops []))
       \<and> list_for_each_rev k h off (fold (list_op_run h) ops (list_head_init h H))
           = Some (map (\<lambda>n. n - off) (rev (fold list_op_spec ops [])))
       \<and> (list_empty h (fold (list_op_run h) ops (list_head_init h H)) \<longleftrightarrow> fold list_op_spec ops [] = [])"
proof (intro conjI)
  note d = script_dll [OF assms(1), of H]
  show "list_for_each_off k h off (fold (list_op_run h) ops (list_head_init h H))
           = Some (map (\<lambda>n. n - off) (fold list_op_spec ops []))"
    using list_each_entries [of h "[]" _ _ k off] d assms(2)
    by (simp add: list_for_each_off_def list_node_to_off_def dll_head(1) [OF d])
  show "list_for_each_rev k h off (fold (list_op_run h) ops (list_head_init h H))
           = Some (map (\<lambda>n. n - off) (rev (fold list_op_spec ops [])))"
    using list_each_rev_entries [of h _ "[]" _ k off] d assms(2)
    by (simp add: list_for_each_rev_def dll_head(2) [OF d])
  show "list_empty h (fold (list_op_run h) ops (list_head_init h H)) \<longleftrightarrow> fold list_op_spec ops [] = []"
    by (rule dll_empty [OF d])
qed

theorem list_script_traversals_witness:
  "list_for_each_off 5 1 8 (fold (list_op_run 1)
      [Op_add 32, Op_add_tail 64, Op_add_after 32 48, Op_add_before 32 16, Op_del 32]
      (list_head_init 1 \<lparr>nx = \<lambda>_. 0, pv = \<lambda>_. 0\<rparr>)) = Some [8, 40, 56]"
  using list_script_traversals [of 1 "[Op_add 32, Op_add_tail 64, Op_add_after 32 48, Op_add_before 32 16, Op_del 32]" 5 8]
  by simp

text \<open>
  The loop that is safe against deletion, with a body that deletes the entries satisfying \<open>P\<close>,
  visits every entry of the list, ends, and leaves exactly the entries that do not satisfy \<open>P\<close>, in their
  order.
\<close>

theorem list_safe_loop_deletes:
  assumes "list_script_ok h [] ops" and "length (fold list_op_spec ops []) < k"
  shows "\<exists>H'. list_for_each_safe_off k h off (del_if P off) (fold (list_op_run h) ops (list_head_init h H))
             = Some (map (\<lambda>n. n - off) (fold list_op_spec ops []), H')
           \<and> list_for_each_off k h off H' = Some (filter (\<lambda>e. \<not> P e) (map (\<lambda>n. n - off) (fold list_op_spec ops [])))"
proof -
  let ?xs = "fold list_op_spec ops []" and ?H = "fold (list_op_run h) ops (list_head_init h H)"
  note d = script_dll [OF assms(1), of H]
  from list_each_safe_entries [of h "[]" ?xs ?H k off P] d assms(2)
  obtain H' where 1: "list_each_safe k h off (del_if P off) ?H (hd (?xs @ [h]) - off) (nx ?H (hd (?xs @ [h])) - off)
      = Some (map (\<lambda>p. p - off) ?xs, H')" and 2: "dll h (filter (\<lambda>p. \<not> P (p - off)) ?xs) H'"
    by auto
  have len: "length (filter (\<lambda>p. \<not> P (p - off)) ?xs) < k" using assms(2) by (meson le_less_trans length_filter_le)
  have "list_for_each_safe_off k h off (del_if P off) ?H = Some (map (\<lambda>n. n - off) ?xs, H')"
    using 1 by (simp add: list_for_each_safe_off_def Let_def list_node_to_off_def list_node_from_off_def dll_head(1) [OF d])
  moreover have "list_for_each_off k h off H' = Some (filter (\<lambda>e. \<not> P e) (map (\<lambda>n. n - off) ?xs))"
    using list_each_entries [of h "[]" _ H' k off] 2 len
    by (simp add: list_for_each_off_def list_node_to_off_def dll_head(1) [OF 2] filter_map o_def)
  ultimately show ?thesis by blast
qed

theorem list_safe_loop_deletes_witness:
  "\<exists>H'. list_for_each_safe_off 5 1 8 (del_if (\<lambda>e. e = 24) 8) (fold (list_op_run 1) [Op_add 32, Op_add_tail 64]
      (list_head_init 1 \<lparr>nx = \<lambda>_. 0, pv = \<lambda>_. 0\<rparr>)) = Some ([24, 56], H') \<and> list_for_each_off 5 1 8 H' = Some [56]"
  using list_safe_loop_deletes [of 1 "[Op_add 32, Op_add_tail 64]" 5 8 "\<lambda>e. e = 24"] by simp

text \<open>
  C25: The three kinds of list are stacks: nodes added at the head of a fresh list come out, first node
  first, in the reverse order until the list reports that it is empty, whatever the links held before.
\<close>

theorem intrusive_lists_lifo:
  assumes "h \<noteq> NULL" "distinct (h # ns)" "NULL \<notin> set ns" "length ns < k"
  shows "(\<exists>H'. take_all list_empty list_first list_take k h (add_all list_add h ns (list_head_init h H)) = Some (rev ns, H')
           \<and> list_empty h H')
       \<and> (\<exists>s'. take_all slist_empty (\<lambda>h s. s h) slist_del_head k h (add_all slist_add_head h ns (slist_init_head h s)) = Some (rev ns, s')
           \<and> slist_empty h s')
       \<and> (\<exists>G'. take_all hlist_empty (\<lambda>h G. hn G h) hlist_del_head k h (add_all hlist_add_head h ns (hlist_init_head h G)) = Some (rev ns, G')
           \<and> hlist_empty h G')"
  using dls.stack_order [OF assms] sls.stack_order [OF assms] hls.stack_order [OF assms] by blast

theorem intrusive_lists_lifo_witness:
  "\<exists>s'. take_all slist_empty (\<lambda>h s. s h) slist_del_head 4 8 (add_all slist_add_head 8 [16, 24, 32] (slist_init_head 8 (\<lambda>_. 99)))
     = Some ([32, 24, 16], s') \<and> slist_empty 8 s'"
  using intrusive_lists_lifo [of 8 "[16, 24, 32]" 4 _ "\<lambda>_. 99"] by simp

end
