(* ===== verification/Psp_Float.thy ===== *)
theory Psp_Float
  imports Psp_Prelude "HOL-Library.Log_Nat"
begin

text \<open>
  Binary floating point as the load generator uses it.  A number is the rational it stands for; every
  conversion and operation rounds its exact result to the nearest number with a significand of \<open>p\<close> bits,
  ties to the even one: 24 bits for \<open>float\<close>, 53 for \<open>double\<close>.  The range of exponents is not bounded: the
  numbers of the client are zero or far inside the normal range of either format.
\<close>

section \<open>Rounding\<close>

definition round_even :: "rat \<Rightarrow> int" where
  "round_even x =
     (let n = \<lfloor>x\<rfloor>; d = x - of_int n in
      if d < 1 / 2 then n else if 1 / 2 < d then n + 1 else if even n then n else n + 1)"

text \<open>The exponent of a positive number: \<open>2 powi bexp x \<le> x < 2 powi (bexp x + 1)\<close>.\<close>

definition bexp :: "rat \<Rightarrow> int" where
  "bexp x =
     (let (a, b) = quotient_of x; e = bitlen a - bitlen b in
      if power_int 2 e \<le> x then e else e - 1)"

definition fl :: "nat \<Rightarrow> rat \<Rightarrow> rat" where
  "fl p x =
     (if x = 0 then 0
      else let s = power_int 2 (bexp \<bar>x\<bar> - int p + 1) in of_int (round_even (x / s)) * s)"

definition f32 :: "rat \<Rightarrow> rat" where "f32 x = fl 24 x"
definition f64 :: "rat \<Rightarrow> rat" where "f64 x = fl 53 x"

text \<open>The conversion of a floating-point number to an integer drops the fraction.\<close>

definition trunc :: "rat \<Rightarrow> int" where
  "trunc x = (if x < 0 then - \<lfloor>- x\<rfloor> else \<lfloor>x\<rfloor>)"

text \<open>A quotient of a \<open>uint64_t\<close> and a \<open>float\<close>: the integer is converted first.\<close>

definition u64_div_float :: "u64 \<Rightarrow> rat \<Rightarrow> rat" where
  "u64_div_float c d = f32 (f32 (of_int (uint c)) / d)"

section \<open>The exponent\<close>

lemma bitlen_bounds_rat:
  assumes "0 < a"
  shows "power_int 2 (bitlen a - 1) \<le> (of_int a :: rat) \<and> (of_int a :: rat) < power_int 2 (bitlen a)"
proof -
  have l: "1 \<le> bitlen a" using assms by (simp add: bitlen_def floorlog_def)
  have b: "2 ^ nat (bitlen a - 1) \<le> a" "a < 2 ^ nat (bitlen a)" using bitlen_bounds [OF assms] by auto
  have "(2 :: rat) ^ nat (bitlen a - 1) \<le> of_int a"
    using b(1) by (metis of_int_le_iff of_int_numeral of_int_power)
  moreover have "of_int a < (2 :: rat) ^ nat (bitlen a)"
    using b(2) by (metis of_int_less_iff of_int_numeral of_int_power)
  ultimately show ?thesis using l by (simp add: power_int_def)
qed

lemma bexp_bounds:
  assumes "0 < x"
  shows "power_int 2 (bexp x) \<le> x" "x < power_int 2 (bexp x + 1)"
proof -
  obtain a b where ab: "quotient_of x = (a, b)" by fastforce
  have b: "0 < b" using quotient_of_denom_pos [OF ab] .
  have x: "x = of_int a / of_int b" using quotient_of_div [OF ab] .
  then have a: "0 < a" using assms b by (simp add: zero_less_divide_iff)
  note A = bitlen_bounds_rat [OF a] and B = bitlen_bounds_rat [OF b]
  have lo: "power_int 2 (bitlen a - bitlen b - 1) \<le> x"
  proof -
    have "power_int 2 (bitlen a - 1) / power_int 2 (bitlen b) \<le> (of_int a / of_int b :: rat)"
      using A B a b by (intro frac_le) (simp_all add: less_imp_le)
    then show ?thesis unfolding x by (simp add: power_int_diff power_int_add field_simps)
  qed
  have hi: "x < power_int 2 (bitlen a - bitlen b + 1)"
  proof -
    have "(of_int a / of_int b :: rat) < power_int 2 (bitlen a) / power_int 2 (bitlen b - 1)"
      using A B b a by (intro frac_less) (simp_all add: less_imp_le)
    then show ?thesis unfolding x by (simp add: power_int_diff power_int_add field_simps)
  qed
  show "power_int 2 (bexp x) \<le> x" "x < power_int 2 (bexp x + 1)"
    using lo hi by (simp_all add: bexp_def ab Let_def)
qed

text \<open>Below \<open>2 ^ p\<close> the unit of the last of \<open>p\<close> places is a whole part of one.\<close>

lemma unit_below:
  assumes "0 < x" "x < 2 ^ p"
  obtains k where "bexp x - int p + 1 = - int k"
proof -
  have "\<not> int p \<le> bexp x"
  proof
    assume "int p \<le> bexp x"
    then have "power_int (2 :: rat) (int p) \<le> power_int 2 (bexp x)" by (intro power_int_increasing) simp_all
    then show False using bexp_bounds(1) [OF assms(1)] assms(2) by simp
  qed
  then have "bexp x - int p + 1 = - int (nat (int p - 1 - bexp x))" by simp
  then show thesis by (rule that)
qed

section \<open>Error and exactness\<close>

lemma round_even_error: "\<bar>of_int (round_even x) - x\<bar> \<le> 1 / 2"
proof -
  have "of_int \<lfloor>x\<rfloor> \<le> x" "x < of_int \<lfloor>x\<rfloor> + 1" by linarith+
  then show ?thesis by (auto simp: round_even_def Let_def abs_le_iff)
qed

lemma round_even_int [simp]: "round_even (of_int n) = n"
  by (simp add: round_even_def)

lemma round_even_le:
  assumes "x \<le> of_int k"
  shows "round_even x \<le> k"
proof (cases "x = of_int k")
  case False
  then have "x < of_int k" using assms by simp
  then have "\<lfloor>x\<rfloor> < k" by (simp add: floor_less_iff)
  then show ?thesis by (auto simp: round_even_def Let_def)
qed simp

text \<open>Rounding moves a number by at most half a unit of its last place.\<close>

lemma fl_error:
  assumes "0 < x"
  shows "\<bar>fl p x - x\<bar> \<le> power_int 2 (bexp x - int p)"
proof -
  define s :: rat where "s = power_int 2 (bexp x - int p + 1)"
  have s: "0 < s" by (simp add: s_def)
  have "fl p x - x = (of_int (round_even (x / s)) - x / s) * s"
    using assms s by (simp add: fl_def s_def [symmetric] Let_def left_diff_distrib)
  then have "\<bar>fl p x - x\<bar> = \<bar>of_int (round_even (x / s)) - x / s\<bar> * s" using s by (simp add: abs_mult)
  also have "\<dots> \<le> 1 / 2 * s" using round_even_error [of "x / s"] s by (intro mult_right_mono) simp_all
  also have "\<dots> = power_int 2 (bexp x - int p)" by (simp add: s_def power_int_add)
  finally show ?thesis .
qed

lemma fl_exact:
  assumes "0 \<le> m" "m < 2 ^ p"
  shows "fl p (of_int m) = of_int m"
proof (cases "m = 0")
  case False
  then have m: "0 < (of_int m :: rat)" using assms(1) by simp
  moreover have "(of_int m :: rat) < 2 ^ p" using assms(2) by (metis of_int_less_iff of_int_numeral of_int_power)
  ultimately obtain k where k: "bexp (of_int m) - int p + 1 = - int k" by (rule unit_below)
  have "of_int m / power_int 2 (- int k) = (of_int (m * 2 ^ k) :: rat)"
    by (simp add: power_int_minus field_simps)
  then have "round_even (of_int m / power_int 2 (- int k)) = m * 2 ^ k" by (simp only: round_even_int)
  then show ?thesis using m by (simp add: fl_def k Let_def power_int_minus)
qed (simp add: fl_def)

lemma fl_le:
  assumes "0 < x" "x \<le> of_int m" "m < 2 ^ p"
  shows "fl p x \<le> of_int m"
proof -
  have "x < 2 ^ p" using assms(2,3) by (metis le_less_trans of_int_less_iff of_int_numeral of_int_power)
  with assms(1) obtain k where k: "bexp x - int p + 1 = - int k" by (rule unit_below)
  let ?s = "power_int 2 (- int k) :: rat"
  have s: "?s = 1 / 2 ^ k" by (simp add: power_int_minus field_simps)
  have "x / ?s \<le> of_int (m * 2 ^ k)" using assms(2) unfolding s by simp
  then have "round_even (x / ?s) \<le> m * 2 ^ k" by (rule round_even_le)
  then have "of_int (round_even (x / ?s)) \<le> (of_int (m * 2 ^ k) :: rat)" by (simp only: of_int_le_iff)
  then have "of_int (round_even (x / ?s)) * ?s \<le> of_int (m * 2 ^ k) * ?s" unfolding s by (intro mult_right_mono) simp_all
  then show ?thesis using assms(1) by (simp add: fl_def k Let_def s)
qed

lemma fl_pos:
  assumes "0 < x" "0 < p"
  shows "0 < fl p x"
proof -
  have "\<bar>fl p x - x\<bar> \<le> power_int 2 (bexp x - int p)" by (rule fl_error [OF assms(1)])
  also have "\<dots> < power_int 2 (bexp x)" using assms(2) by (intro power_int_strict_increasing) simp_all
  also have "\<dots> \<le> x" by (rule bexp_bounds(1) [OF assms(1)])
  finally show ?thesis by linarith
qed


text \<open>The first integer a \<open>float\<close> does not have, and a quotient that is rounded up.\<close>

lemma f32_examples: "f32 16777217 = 16777216" "f32 (16777219 / 1) = 16777220" "f32 (1 / 3) = 11184811 / 33554432"
  by code_simp+

end
