(* ===== verification/Std_Map.thy ===== *)
theory Std_Map
  imports Complex_Main Psp_Prelude
begin

text \<open>
  The associative containers of the C++ library the program uses: \<open>std::map\<close> as the list of its
  entries in the order of their keys, with insertion, lookup and the indexing operator, which inserts
  a default value for a key that is absent, and the conversion of floating point numbers.  A table of
  counters is a client of the interface \<open>key_store\<close>.
\<close>

section \<open>Operations\<close>

fun map_put :: "'k :: linorder \<Rightarrow> 'v \<Rightarrow> ('k \<times> 'v) list \<Rightarrow> ('k \<times> 'v) list" where
  "map_put k v [] = [(k, v)]"
| "map_put k v ((k', v') # m) =
     (if k < k' then (k, v) # (k', v') # m
      else if k = k' then (k, v) # m
      else (k', v') # map_put k v m)"

definition map_at :: "'v \<Rightarrow> ('k :: linorder \<times> 'v) list \<Rightarrow> 'k \<Rightarrow> 'v \<times> ('k \<times> 'v) list" where
  "map_at d m k = (case map_of m k of Some v \<Rightarrow> (v, m) | None \<Rightarrow> (d, map_put k d m))"

definition map_ok :: "('k :: linorder \<times> 'v) list \<Rightarrow> bool" where
  "map_ok m \<longleftrightarrow> sorted_wrt (<) (map fst m)"

text \<open>Conversion of a floating point number, taken as the rational it stands for, to \<open>uint64_t\<close>.\<close>

definition double_u64 :: "rat \<Rightarrow> u64 result" where
  "double_u64 x = (if -1 < x \<and> x < 2 ^ 64 then Inr (of_int \<lfloor>max 0 x\<rfloor>) else Inl SignedOverflow)"

section \<open>Insertion\<close>

lemma map_put_keys: "fst ` set (map_put k v m) = insert k (fst ` set m)"
  by (induction k v m rule: map_put.induct) (simp_all add: insert_commute)

lemma map_put_ok: "map_ok m \<Longrightarrow> map_ok (map_put k v m)"
proof (induction m)
  case (Cons e m)
  obtain k' v' where e: "e = (k', v')" by (cases e)
  have "x = k \<or> x \<in> fst ` set m" if "x \<in> fst ` set (map_put k v m)" for x
    using that unfolding map_put_keys by simp
  then have "\<forall>x \<in> set (map_put k v m). k' < fst x" if "k' < k"
    using that Cons.prems e by (fastforce simp: map_ok_def)
  with Cons e show ?case by (auto simp: map_ok_def)
qed (simp add: map_ok_def)

lemma map_put_new: "k \<notin> fst ` set m \<Longrightarrow> set (map_put k v m) = insert (k, v) (set m) \<and> length (map_put k v m) = Suc (length m)"
  by (induction k v m rule: map_put.induct) (simp_all add: insert_commute)

lemma map_of_map_put: "map_of (map_put k v m) = (map_of m)(k \<mapsto> v)"
  by (induction k v m rule: map_put.induct) (auto simp: fun_eq_iff)

lemma length_map_put: "length (map_put k v m) = (if k \<in> fst ` set m then length m else Suc (length m))" if "map_ok m"
  using that
proof (induction k v m rule: map_put.induct)
  case (2 k v k' v' m)
  have "k \<notin> fst ` set m" if "k < k'" using "2.prems" that by (fastforce simp: map_ok_def)
  with 2 show ?case by (auto simp: map_ok_def)
qed simp

lemma map_ok_distinct: "map_ok m \<Longrightarrow> distinct (map fst m)"
  unfolding map_ok_def by (simp add: strict_sorted_iff)

lemma map_ok_Nil [simp]: "map_ok []"
  by (simp add: map_ok_def)

section \<open>Tables of counters\<close>

text \<open>The client: one increment for each element of a list, from zero for a key that is absent.\<close>

definition tally :: "('m \<Rightarrow> 'k \<Rightarrow> 'v :: comm_semiring_1 option) \<Rightarrow> ('k \<Rightarrow> 'v \<Rightarrow> 'm \<Rightarrow> 'm) \<Rightarrow> 'k list \<Rightarrow> 'm \<Rightarrow> 'm" where
  "tally look put ks m = fold (\<lambda>k m. put k ((case look m k of Some v \<Rightarrow> v | None \<Rightarrow> 0) + 1) m) ks m"

locale key_store =
  fixes look :: "'m \<Rightarrow> 'k \<Rightarrow> 'v :: comm_semiring_1 option" and put :: "'k \<Rightarrow> 'v \<Rightarrow> 'm \<Rightarrow> 'm" and empt :: 'm and ok :: "'m \<Rightarrow> bool"
  assumes empty_law: "ok empt" "look empt k = None"
    and put_law: "ok m \<Longrightarrow> ok (put k v m)" "ok m \<Longrightarrow> look (put k v m) k' = (if k' = k then Some v else look m k')"
begin

lemma tally_from:
  "ok m \<Longrightarrow> ok (tally look put ks m) \<and>
     look (tally look put ks m) k = (if k \<in> set ks then Some ((case look m k of Some v \<Rightarrow> v | None \<Rightarrow> 0) + of_nat (count_list ks k)) else look m k)"
proof (induction ks arbitrary: m)
  case (Cons x ks)
  let ?m = "put x ((case look m x of Some v \<Rightarrow> v | None \<Rightarrow> 0) + 1) m"
  have "tally look put (x # ks) m = tally look put ks ?m" by (simp add: tally_def)
  moreover have "ok ?m" using Cons.prems by (rule put_law(1))
  moreover have "count_list ks k = 0" if "k \<notin> set ks" using that by (simp add: count_list_0_iff)
  ultimately show ?case using Cons.IH [of ?m] put_law(2) [OF Cons.prems, of x _ k] by (auto simp: algebra_simps)
qed (simp add: tally_def)

lemma tally_find:
  "look (tally look put ks empt) k = (if k \<in> set ks then Some (of_nat (count_list ks k)) else None)"
  using tally_from [OF empty_law(1), of ks k] empty_law(2) by simp

lemma tally_ok: "ok (tally look put ks empt)"
  using tally_from [OF empty_law(1)] by blast

end

interpretation sm: key_store "map_of :: ('k :: linorder \<times> 'v :: comm_semiring_1) list \<Rightarrow> 'k \<Rightarrow> 'v option" map_put "[]" map_ok
  by unfold_locales (simp_all add: map_put_ok map_of_map_put)

end
