(* ===== verification/Dpdk_Port.thy ===== *)
theory Dpdk_Port
  imports Udp_Context
begin

text \<open>
  Bringing up the network port: \<^verbatim>\<open>src/c++/libos/io/udp_dpdk/dpdk.cc\<close> and the parts of \<open>UdpContext\<close>
  that talk to the NIC (constructor, destructor, packet pool, flow rules).  DPDK is a parameter: the
  record \<open>dpdk\<close> holds what its functions return.  The calls that reach the device are recorded in a
  trace, which is kept when the process aborts.
\<close>

section \<open>The device\<close>

datatype fc_mode = RTE_FC_NONE | RTE_FC_RX_PAUSE | RTE_FC_TX_PAUSE | RTE_FC_FULL

record fc_conf =
  fc_mode_of :: fc_mode
  fc_rest :: nat

datatype nic_call =
    Dev_info u16
  | Configure u16 u16 u16
  | Adjust_desc u16
  | Rx_setup u16 u16 u16 int ptr
  | Tx_setup u16 u16 u16 int
  | Start u16
  | Fc_get u16
  | Fc_set u16 fc_mode
  | Link_get u16
  | Delay_ms nat

text \<open>Results of the DPDK functions; \<open>link_up p i\<close> is the status the \<open>i\<close>-th poll of the link finds.\<close>

record dpdk =
  is_valid_port :: "u16 \<Rightarrow> bool"
  dev_count_avail :: u16
  eal_init_ret :: "ptr list \<Rightarrow> int"
  rte_errno :: int
  dev_configure :: "u16 \<Rightarrow> u16 \<Rightarrow> u16 \<Rightarrow> int"
  adjust_desc :: "u16 \<Rightarrow> u16 \<Rightarrow> u16 \<Rightarrow> int \<times> u16 \<times> u16"
  dev_socket_id :: "u16 \<Rightarrow> int"
  rx_setup_ret :: "u16 \<Rightarrow> u16 \<Rightarrow> u16 \<Rightarrow> int \<Rightarrow> ptr \<Rightarrow> int"
  tx_setup_ret :: "u16 \<Rightarrow> u16 \<Rightarrow> u16 \<Rightarrow> int \<Rightarrow> int"
  dev_start :: "u16 \<Rightarrow> int"
  fc_get_ret :: "u16 \<Rightarrow> int \<times> fc_conf"
  fc_set_ret :: "u16 \<Rightarrow> fc_conf \<Rightarrow> int"
  link_up :: "u16 \<Rightarrow> nat \<Rightarrow> bool"

text \<open>Computations with a trace.\<close>

type_synonym 'a nic = "nic_call list \<Rightarrow> 'a result \<times> nic_call list"

definition nic_ret :: "'a \<Rightarrow> 'a nic" where "nic_ret x tr = (Inr x, tr)"
definition nic_lift :: "'a result \<Rightarrow> 'a nic" where "nic_lift r tr = (r, tr)"
definition nic_call :: "nic_call \<Rightarrow> 'a \<Rightarrow> 'a nic" where "nic_call c x tr = (Inr x, tr @ [c])"

definition nic_bind :: "'a nic \<Rightarrow> ('a \<Rightarrow> 'b nic) \<Rightarrow> 'b nic" where
  "nic_bind m f tr = (case m tr of (Inl e, tr) \<Rightarrow> (Inl e, tr) | (Inr x, tr) \<Rightarrow> f x tr)"

definition nic_true :: "int \<Rightarrow> bool \<Rightarrow> 'a nic \<Rightarrow> 'a nic" where
  "nic_true err cond k = nic_bind (nic_lift (psp_true err cond (Inr ()))) (\<lambda>_. k)"

definition nic_ok :: "int nic \<Rightarrow> 'a nic \<Rightarrow> 'a nic" where
  "nic_ok m k = nic_bind m (\<lambda>err. nic_bind (nic_lift (psp_ok err (Inr ()))) (\<lambda>_. k))"

section \<open>Wrappers of the DPDK functions\<close>

definition RX_RING_SIZE :: u16 where "RX_RING_SIZE = 128"
definition TX_RING_SIZE :: u16 where "TX_RING_SIZE = 128"

text \<open>The common end of the wrappers: 0, the negated error, or unreachable.\<close>

definition zero_or_negated :: "int \<Rightarrow> int nic" where
  "zero_or_negated ret =
     (if 0 = ret then nic_ret 0
      else if 0 > ret then nic_ret (0 - ret)
      else nic_lift PSP_UNREACHABLE)"

definition rte_eth_dev_flow_ctrl_get :: "dpdk \<Rightarrow> u16 \<Rightarrow> (int \<times> fc_conf) nic" where
  "rte_eth_dev_flow_ctrl_get D port_id =
     nic_true ERANGE (is_valid_port D port_id)
       (nic_bind (nic_call (Fc_get port_id) (fc_get_ret D port_id)) (\<lambda>(ret, fc_conf).
          nic_bind (zero_or_negated ret) (\<lambda>r. nic_ret (r, fc_conf))))"

definition rte_eth_dev_flow_ctrl_set :: "dpdk \<Rightarrow> u16 \<Rightarrow> fc_conf \<Rightarrow> int nic" where
  "rte_eth_dev_flow_ctrl_set D port_id fc_conf =
     nic_true ERANGE (is_valid_port D port_id)
       (nic_bind (nic_call (Fc_set port_id (fc_mode_of fc_conf)) (fc_set_ret D port_id fc_conf)) zero_or_negated)"

definition rte_eth_dev_socket_id :: "dpdk \<Rightarrow> u16 \<Rightarrow> (int \<times> int) nic" where
  "rte_eth_dev_socket_id D port_id =
     (let ret = dev_socket_id D port_id in
      if -1 = ret then nic_ret (ERANGE, 0)
      else if 0 \<le> ret then nic_ret (0, ret)
      else nic_lift PSP_UNREACHABLE)"

definition rte_eth_rx_queue_setup :: "dpdk \<Rightarrow> u16 \<Rightarrow> u16 \<Rightarrow> u16 \<Rightarrow> int \<Rightarrow> ptr \<Rightarrow> int nic" where
  "rte_eth_rx_queue_setup D port_id rx_queue_id nb_rx_desc socket_id mb_pool =
     nic_true ERANGE (is_valid_port D port_id)
       (nic_bind (nic_call (Rx_setup port_id rx_queue_id nb_rx_desc socket_id mb_pool)
                   (rx_setup_ret D port_id rx_queue_id nb_rx_desc socket_id mb_pool)) zero_or_negated)"

definition rte_eth_tx_queue_setup :: "dpdk \<Rightarrow> u16 \<Rightarrow> u16 \<Rightarrow> u16 \<Rightarrow> int \<Rightarrow> int nic" where
  "rte_eth_tx_queue_setup D port_id tx_queue_id nb_tx_desc socket_id =
     nic_true ERANGE (is_valid_port D port_id)
       (nic_bind (nic_call (Tx_setup port_id tx_queue_id nb_tx_desc socket_id)
                   (tx_setup_ret D port_id tx_queue_id nb_tx_desc socket_id)) zero_or_negated)"

text \<open>The first component is the error, the second \<open>count_out\<close>.\<close>

fun all_notnull :: "ptr list \<Rightarrow> 'a nic \<Rightarrow> 'a nic" where
  "all_notnull [] k = k"
| "all_notnull (p # ps) k = nic_true EINVAL (p \<noteq> NULL) (all_notnull ps k)"

definition rte_eal_init :: "dpdk \<Rightarrow> int \<Rightarrow> ptr \<Rightarrow> ptr list \<Rightarrow> (int \<times> int) nic" where
  "rte_eal_init D argc argv args =
     nic_true EINVAL (argv \<noteq> NULL)
       (nic_true ERANGE (argc \<ge> 0)
         (all_notnull (take (nat argc) args)
           (let ret = eal_init_ret D args in
            if -1 = ret then nic_ret (rte_errno D, -1)
            else if -1 > ret then nic_lift PSP_UNREACHABLE
            else nic_ret (0, ret))))"

definition rte_eth_link_get_nowait :: "dpdk \<Rightarrow> u16 \<Rightarrow> nat \<Rightarrow> (int \<times> bool) nic" where
  "rte_eth_link_get_nowait D port_id i =
     nic_true ERANGE (is_valid_port D port_id)
       (nic_bind (nic_call (Link_get port_id) (link_up D port_id i)) (\<lambda>link. nic_ret (0, link)))"

text \<open>\<open>link\<close> is absent when the caller passes a null pointer; what is printed is not modelled.\<close>

definition print_link_status :: "dpdk \<Rightarrow> ptr \<Rightarrow> u16 \<Rightarrow> nat \<Rightarrow> bool option \<Rightarrow> int nic" where
  "print_link_status D f port_id i link =
     nic_true EINVAL (f \<noteq> NULL)
       (nic_true ERANGE (is_valid_port D port_id)
         (case link of
            None \<Rightarrow> nic_ok (nic_bind (rte_eth_link_get_nowait D port_id i) (\<lambda>(r, _). nic_ret r)) (nic_ret 0)
          | Some _ \<Rightarrow> nic_ret 0))"

text \<open>The loop of \<open>wait_for_link_status_up\<close> with \<open>k\<close> tries left, the next one being poll \<open>i\<close>; \<open>link\<close> is
  the status read last.\<close>

fun wait_link :: "dpdk \<Rightarrow> ptr \<Rightarrow> u16 \<Rightarrow> nat \<Rightarrow> nat \<Rightarrow> bool \<Rightarrow> int nic" where
  "wait_link D f port_id 0 i link = nic_ok (print_link_status D f port_id i (Some link)) (nic_ret ECONNREFUSED)"
| "wait_link D f port_id (Suc k) i link =
     nic_bind (rte_eth_link_get_nowait D port_id i) (\<lambda>(r, link). nic_ok (nic_ret r)
       (if link then nic_ok (print_link_status D f port_id (Suc i) (Some link)) (nic_ret 0)
        else nic_bind (nic_call (Delay_ms 100) ()) (\<lambda>_. wait_link D f port_id k (Suc i) link)))"

definition wait_for_link_status_up :: "dpdk \<Rightarrow> ptr \<Rightarrow> u16 \<Rightarrow> int nic" where
  "wait_for_link_status_up D stderr port_id =
     nic_true ERANGE (is_valid_port D port_id) (wait_link D stderr port_id 90 0 False)"

definition rte_eth_dev_info_get :: "dpdk \<Rightarrow> u16 \<Rightarrow> int nic" where
  "rte_eth_dev_info_get D port_id =
     nic_true ERANGE (is_valid_port D port_id) (nic_call (Dev_info port_id) 0)"

definition rte_eth_dev_configure :: "dpdk \<Rightarrow> u16 \<Rightarrow> u16 \<Rightarrow> u16 \<Rightarrow> int nic" where
  "rte_eth_dev_configure D port_id nb_rx_queue nb_tx_queue =
     nic_true ERANGE (is_valid_port D port_id)
       (nic_bind (nic_call (Configure port_id nb_rx_queue nb_tx_queue) (dev_configure D port_id nb_rx_queue nb_tx_queue)) (\<lambda>ret.
          if 0 \<ge> ret then nic_ret ret else nic_lift PSP_UNREACHABLE))"

text \<open>The address of a port, and the remaining wrappers; what is printed is not modelled.\<close>

definition rte_eth_dev_mac_addr_add :: "dpdk \<Rightarrow> u16 \<Rightarrow> int nic" where
  "rte_eth_dev_mac_addr_add D port_id = nic_true ERANGE (is_valid_port D port_id) (nic_ret 0)"

definition rte_eth_macaddr_get :: "dpdk \<Rightarrow> (u16 \<Rightarrow> nat \<Rightarrow> u8) \<Rightarrow> u16 \<Rightarrow> (int \<times> (nat \<Rightarrow> u8)) nic" where
  "rte_eth_macaddr_get D macs port_id = nic_true ERANGE (is_valid_port D port_id) (nic_ret (0, macs port_id))"

definition print_ether_addr :: "ptr \<Rightarrow> int nic" where
  "print_ether_addr f = nic_true EINVAL (f \<noteq> NULL) (nic_ret 0)"

section \<open>Initialisation of the port\<close>

text \<open>\<open>eal_init\<close> is the configuration's list of arguments when it is a sequence, \<open>cstr\<close> the address of a
  string and \<open>argv\<close> that of the argument vector.\<close>

definition dpdk_net_init :: "dpdk \<Rightarrow> (string \<Rightarrow> ptr) \<Rightarrow> ptr \<Rightarrow> string list option \<Rightarrow> int nic" where
  "dpdk_net_init D cstr argv eal_init =
     (let init_cargs = map cstr (case eal_init of Some xs \<Rightarrow> xs | None \<Rightarrow> []) in
      nic_ok (nic_bind (rte_eal_init D (int (length init_cargs)) argv init_cargs) (\<lambda>(r, _). nic_ret r))
        (nic_true ENOENT (dev_count_avail D > 0) (nic_ret 0)))"

fun rx_queues :: "dpdk \<Rightarrow> u16 \<Rightarrow> u16 list \<Rightarrow> u16 \<Rightarrow> int \<Rightarrow> ptr \<Rightarrow> 'a nic \<Rightarrow> 'a nic" where
  "rx_queues D port_id [] nb_rxd socket_id mb_pool k = k"
| "rx_queues D port_id (i # is) nb_rxd socket_id mb_pool k =
     nic_ok (rte_eth_rx_queue_setup D port_id i nb_rxd socket_id mb_pool)
       (rx_queues D port_id is nb_rxd socket_id mb_pool k)"

fun tx_queues :: "dpdk \<Rightarrow> u16 \<Rightarrow> u16 list \<Rightarrow> u16 \<Rightarrow> int \<Rightarrow> 'a nic \<Rightarrow> 'a nic" where
  "tx_queues D port_id [] nb_txd socket_id k = k"
| "tx_queues D port_id (i # is) nb_txd socket_id k =
     nic_ok (rte_eth_tx_queue_setup D port_id i nb_txd socket_id)
       (tx_queues D port_id is nb_txd socket_id k)"

definition queue_ids :: "u16 \<Rightarrow> u16 list" where "queue_ids n = map of_nat [0..<unat n]"

text \<open>From the start of the port on.\<close>

definition start_port :: "dpdk \<Rightarrow> ptr \<Rightarrow> u16 \<Rightarrow> int nic" where
  "start_port D stderr port_id =
     nic_ok (nic_bind (nic_call (Start port_id) (dev_start D port_id)) (\<lambda>r. nic_ret (- r)))
       (nic_bind (rte_eth_dev_flow_ctrl_get D port_id) (\<lambda>(r, fc_conf). nic_ok (nic_ret r)
         (nic_ok (rte_eth_dev_flow_ctrl_set D port_id (fc_conf\<lparr>fc_mode_of := RTE_FC_NONE\<rparr>))
           (nic_ok (wait_for_link_status_up D stderr port_id)
             (nic_ok (rte_eth_dev_info_get D port_id) (nic_ret 0))))))"

definition init_dpdk_port :: "dpdk \<Rightarrow> ptr \<Rightarrow> u16 \<Rightarrow> ptr \<Rightarrow> u16 \<Rightarrow> u16 \<Rightarrow> int nic" where
  "init_dpdk_port D stderr port_id mb_pool n_tx_rings n_rx_rings =
     nic_true ERANGE (is_valid_port D port_id)
       (nic_ok (rte_eth_dev_info_get D port_id)
         (nic_ok (nic_bind (rte_eth_dev_configure D port_id n_rx_rings n_tx_rings) (\<lambda>r. nic_ret (- r)))
           (nic_bind (nic_call (Adjust_desc port_id) (adjust_desc D port_id RX_RING_SIZE TX_RING_SIZE)) (\<lambda>(retval, nb_rxd, nb_txd).
             if retval \<noteq> 0 then nic_ret retval
             else
               nic_bind (rte_eth_dev_socket_id D port_id) (\<lambda>(ret, socket_id).
                 let socket_id = (if 0 \<noteq> ret then 0 else socket_id) in
                 rx_queues D port_id (queue_ids n_rx_rings) nb_rxd socket_id mb_pool
                   (tx_queues D port_id (queue_ids n_tx_rings) nb_txd socket_id
                     (start_port D stderr port_id)))))))"

text \<open>
  \<open>print_dpdk_device_stats\<close>: the number of extended statistics, the two allocations and what the two
  queries return are arguments.  The second component lists the buffers that are still allocated.
\<close>

definition print_dpdk_device_stats :: "int \<Rightarrow> ptr \<Rightarrow> int \<Rightarrow> ptr \<Rightarrow> int \<Rightarrow> int \<times> ptr list" where
  "print_dpdk_device_stats len xstats ret xstats_names ret_names =
     (if len < 0 then (1, [])
      else if xstats = NULL then (1, [])
      else if ret < 0 \<or> ret > len then (1, [])
      else if xstats_names = NULL then (1, [])
      else if ret_names < 0 \<or> ret_names > len then (1, [])
      else (0, [xstats, xstats_names]))"

section \<open>Packet pool and flow rules\<close>

definition NUM_MBUFS :: u32 where "NUM_MBUFS = 16383"
definition MBUF_CACHE_SIZE :: u32 where "MBUF_CACHE_SIZE = 512"

text \<open>
  \<open>create n\<close> is the pool \<open>rte_pktmbuf_pool_create_by_ops\<close> returns for \<open>n\<close> packets, \<open>cache_size\<close> what the pool
  reports.  The null test is of the address of the caller's variable, \<open>out\<close>, not of the new pool.
\<close>

definition init_mempool :: "dpdk \<Rightarrow> (u32 \<Rightarrow> ptr) \<Rightarrow> (ptr \<Rightarrow> u32) \<Rightarrow> ptr \<Rightarrow> (int \<times> ptr) result" where
  "init_mempool D create cache_size out =
     (let pool = create (NUM_MBUFS * ucast (dev_count_avail D)) in
      psp_true EPERM (out \<noteq> NULL)
        (if pool = NULL then Inl NullDeref
         else psp_true EINVAL (cache_size pool = MBUF_CACHE_SIZE) (Inr (0, pool))))"

text \<open>The constructor.  \<open>mac\<close> is the address \<open>rte_ether_unformat_addr\<close> reads; the uninitialised members
  keep what \<open>mem\<close> holds.\<close>

definition UdpContext_new ::
  "dpdk \<Rightarrow> (u32 \<Rightarrow> ptr) \<Rightarrow> (ptr \<Rightarrow> u32) \<Rightarrow> UdpContext \<Rightarrow> u32 \<Rightarrow> u32 \<Rightarrow> u16 \<Rightarrow> u16 \<Rightarrow> ptr \<Rightarrow> ptr \<Rightarrow> (nat \<Rightarrow> u8)
     \<Rightarrow> (UdpContext \<times> ptr) result" where
  "UdpContext_new D create cache_size mem idn ip port port_id mempool out mac =
     res_bind (if mempool = NULL then
                 res_bind (init_mempool D create cache_size out) (\<lambda>(ret, pool).
                   if ret \<noteq> 0 then psp_panic (Some ''Could not initialize mbuf mempool'') None 0 else Inr pool)
               else Inr mempool) (\<lambda>pool.
       Inr (mem\<lparr>u_id := idn, u_ip := ip, u_port := port, u_port_id := port_id, remote_mac := (\<lambda>_. 0), my_mac := mac,
                mbuf_pool := pool, pop_tail := 0, pop_head := 0, push_tail := 0, push_head := 0\<rparr>, pool))"

text \<open>The destructor destroys the context's flow rules; \<open>destroy\<close> is what \<open>rte_flow_destroy\<close> returns.\<close>

fun UdpContext_delete :: "(ptr \<Rightarrow> int) \<Rightarrow> ptr list \<Rightarrow> unit result" where
  "UdpContext_delete destroy [] = Inr ()"
| "UdpContext_delete destroy (flow # flows) =
     (if destroy flow \<noteq> 0 then psp_panic (Some ''Could not destroy flow'') None 0
      else UdpContext_delete destroy flows)"

text \<open>\<open>free_mbuf\<close> gives the buffer back to its pool, the second component.\<close>

definition free_mbuf :: "ptr list \<Rightarrow> ptr \<Rightarrow> int \<times> ptr list" where
  "free_mbuf pool mbuf = (0, if mbuf = NULL then pool else mbuf # pool)"

record ntuple_filter =
  nt_src_ip :: u32
  nt_dst_ip :: u32
  nt_src_ip_mask :: u32
  nt_dst_ip_mask :: u32
  nt_proto :: u8
  nt_proto_mask :: u8
  nt_src_port :: u16
  nt_dst_port :: u16
  nt_src_port_mask :: u16
  nt_dst_port_mask :: u16

record ipv4_item =
  next_proto_id :: u8
  src_addr :: u32
  dst_addr :: u32

record udp_item =
  udp_src_port :: u16
  udp_dst_port :: u16
  dgram_len :: u16
  dgram_cksum :: u16

datatype flow_item = Item_eth | Item_ipv4 ipv4_item ipv4_item | Item_udp udp_item udp_item | Item_end
datatype flow_action = Action_count u32 | Action_queue u16 | Action_end

definition ipv4_flow_pattern :: "ntuple_filter \<Rightarrow> flow_item list" where
  "ipv4_flow_pattern nt =
     [Item_eth,
      Item_ipv4 \<lparr>next_proto_id = nt_proto nt, src_addr = nt_src_ip nt, dst_addr = nt_dst_ip nt\<rparr>
        \<lparr>next_proto_id = nt_proto_mask nt, src_addr = nt_src_ip_mask nt, dst_addr = nt_dst_ip_mask nt\<rparr>,
      Item_udp \<lparr>udp_src_port = nt_src_port nt, udp_dst_port = nt_dst_port nt, dgram_len = 0, dgram_cksum = 0\<rparr>
        \<lparr>udp_src_port = nt_src_port_mask nt, udp_dst_port = nt_dst_port_mask nt, dgram_len = 0, dgram_cksum = 0\<rparr>,
      Item_end]"

definition flow_actions :: "u16 \<Rightarrow> flow_action list" where
  "flow_actions rx_q = [Action_count (ucast rx_q), Action_queue rx_q, Action_end]"

text \<open>\<open>validate\<close> and \<open>create\<close> are the DPDK functions of these names.\<close>

definition generate_ipv4_flow ::
  "(flow_item list \<Rightarrow> flow_action list \<Rightarrow> int) \<Rightarrow> (flow_item list \<Rightarrow> flow_action list \<Rightarrow> ptr) \<Rightarrow> u16 \<Rightarrow> ntuple_filter \<Rightarrow> ptr" where
  "generate_ipv4_flow validate create rx_q nt =
     (let pattern = ipv4_flow_pattern nt; action = flow_actions rx_q in
      if validate pattern action = 0 then create pattern action else NULL)"

definition ENOTRECOVERABLE :: int where "ENOTRECOVERABLE = 131"

definition fdir_filter :: "UdpContext \<Rightarrow> ntuple_filter" where
  "fdir_filter u =
     \<lparr>nt_src_ip = 0, nt_dst_ip = u_ip u, nt_src_ip_mask = 0x0, nt_dst_ip_mask = 0xffffffff,
      nt_proto = IPPROTO_UDP, nt_proto_mask = 0xff, nt_src_port = 0x0, nt_dst_port = bswap16 (u_port u),
      nt_src_port_mask = 0x0, nt_dst_port_mask = 0xffff\<rparr>"

definition set_fdir ::
  "(flow_item list \<Rightarrow> flow_action list \<Rightarrow> int) \<Rightarrow> (flow_item list \<Rightarrow> flow_action list \<Rightarrow> ptr) \<Rightarrow> UdpContext \<Rightarrow> ptr list
     \<Rightarrow> int \<times> ptr list" where
  "set_fdir validate create u flows =
     (let flow = generate_ipv4_flow validate create (ucast (u_id u)) (fdir_filter u) in
      if flow = NULL then (ENOTRECOVERABLE, flows)
      else (0, flows @ [flow]))"

section \<open>The port is started last\<close>

lemma nic_simps [simp]:
  "nic_bind (nic_ret x) f = f x"
  "nic_bind (nic_lift (Inl e)) g = nic_lift (Inl e)"
  "nic_bind (nic_lift (Inr y)) h = h y"
  "nic_bind (nic_call c z) l tr = l z (tr @ [c])"
  "nic_true err b k = (if b then k else nic_lift (Inl Panic))"
  by (auto simp: nic_bind_def nic_ret_def nic_lift_def nic_call_def nic_true_def fun_eq_iff)

lemma nic_ok_run: "nic_ok m k tr = (case m tr of (Inl e, tr) \<Rightarrow> (Inl e, tr) | (Inr r, tr) \<Rightarrow> if r = 0 then k tr else (Inl Panic, tr))"
  by (auto simp: nic_ok_def nic_bind_def nic_lift_def psp_ok_if split: prod.splits sum.splits)

lemma nic_ok_ret [simp]: "nic_ok (nic_ret r) k = (if r = 0 then k else nic_lift (Inl Panic))"
  by (simp add: fun_eq_iff nic_ok_run nic_ret_def nic_lift_def)

lemma zero_or_negated_run: "zero_or_negated r tr = (if r \<le> 0 then (Inr (- r), tr) else (Inl Panic, tr))"
  by (simp add: zero_or_negated_def nic_ret_def nic_lift_def PSP_UNREACHABLE_def psp_panic_def)

lemma rx_queues_run:
  assumes "is_valid_port D p"
  shows "if \<forall>q \<in> set qs. rx_setup_ret D p q nb s mp = 0
     then rx_queues D p qs nb s mp k tr = k (tr @ map (\<lambda>q. Rx_setup p q nb s mp) qs)
     else \<exists>qs'. rx_queues D p qs nb s mp k tr = (Inl Panic, tr @ map (\<lambda>q. Rx_setup p q nb s mp) qs')"
proof (induction qs arbitrary: tr)
  case (Cons q qs)
  have 1: "rx_queues D p (q # qs) nb s mp k tr =
      (if rx_setup_ret D p q nb s mp = 0 then rx_queues D p qs nb s mp k (tr @ [Rx_setup p q nb s mp])
       else (Inl Panic, tr @ [Rx_setup p q nb s mp]))"
    using assms by (simp add: nic_ok_run rte_eth_rx_queue_setup_def zero_or_negated_run)
  show ?case
  proof (cases "rx_setup_ret D p q nb s mp = 0")
    case True
    obtain qs' where qs': "\<not> (\<forall>q \<in> set qs. rx_setup_ret D p q nb s mp = 0) \<Longrightarrow>
        rx_queues D p qs nb s mp k (tr @ [Rx_setup p q nb s mp])
          = (Inl Panic, (tr @ [Rx_setup p q nb s mp]) @ map (\<lambda>q. Rx_setup p q nb s mp) qs')"
      using Cons.IH [of "tr @ [Rx_setup p q nb s mp]"] by (meson)
    show ?thesis
      using True 1 Cons.IH [of "tr @ [Rx_setup p q nb s mp]"] qs' by (auto split: if_splits intro: exI [of _ "q # qs'"])
  next
    case False
    then show ?thesis using 1 by (auto intro: exI [of _ "[q]"])
  qed
qed simp

lemma tx_queues_run:
  assumes "is_valid_port D p"
  shows "if \<forall>q \<in> set qs. tx_setup_ret D p q nb s = 0
     then tx_queues D p qs nb s k tr = k (tr @ map (\<lambda>q. Tx_setup p q nb s) qs)
     else \<exists>qs'. tx_queues D p qs nb s k tr = (Inl Panic, tr @ map (\<lambda>q. Tx_setup p q nb s) qs')"
proof (induction qs arbitrary: tr)
  case (Cons q qs)
  have 1: "tx_queues D p (q # qs) nb s k tr =
      (if tx_setup_ret D p q nb s = 0 then tx_queues D p qs nb s k (tr @ [Tx_setup p q nb s])
       else (Inl Panic, tr @ [Tx_setup p q nb s]))"
    using assms by (simp add: nic_ok_run rte_eth_tx_queue_setup_def zero_or_negated_run)
  show ?case
  proof (cases "tx_setup_ret D p q nb s = 0")
    case True
    obtain qs' where qs': "\<not> (\<forall>q \<in> set qs. tx_setup_ret D p q nb s = 0) \<Longrightarrow>
        tx_queues D p qs nb s k (tr @ [Tx_setup p q nb s])
          = (Inl Panic, (tr @ [Tx_setup p q nb s]) @ map (\<lambda>q. Tx_setup p q nb s) qs')"
      using Cons.IH [of "tr @ [Tx_setup p q nb s]"] by (meson)
    show ?thesis
      using True 1 Cons.IH [of "tr @ [Tx_setup p q nb s]"] qs' by (auto split: if_splits intro: exI [of _ "q # qs'"])
  next
    case False
    then show ?thesis using 1 by (auto intro: exI [of _ "[q]"])
  qed
qed simp

lemma wait_link_run:
  assumes "is_valid_port D p" "f \<noteq> NULL"
  shows "\<exists>cs. wait_link D f p k i l tr = (Inr (if \<exists>j<k. link_up D p (i + j) then 0 else ECONNREFUSED), tr @ cs) \<and> Start p \<notin> set cs"
proof (induction k arbitrary: i l tr)
  case 0
  show ?case using assms by (simp add: nic_ok_run print_link_status_def nic_ret_def)
next
  case (Suc k)
  show ?case
  proof (cases "link_up D p i")
    case True
    then show ?thesis using assms
      by (auto simp: nic_bind_def rte_eth_link_get_nowait_def nic_call_def nic_ret_def nic_ok_run print_link_status_def intro: exI [of _ 0])
  next
    case False
    have "(\<exists>j<Suc k. link_up D p (i + j)) \<longleftrightarrow> (\<exists>j<k. link_up D p (Suc i + j))"
      using False by (metis Nat.add_0_right add_Suc add_Suc_right less_Suc_eq_0_disj)
    moreover obtain cs where "wait_link D f p k (Suc i) False (tr @ [Link_get p, Delay_ms 100])
        = (Inr (if \<exists>j<k. link_up D p (Suc i + j) then 0 else ECONNREFUSED), (tr @ [Link_get p, Delay_ms 100]) @ cs)" "Start p \<notin> set cs"
      using Suc.IH by blast
    ultimately show ?thesis using assms False
      by (auto simp: nic_bind_def rte_eth_link_get_nowait_def nic_call_def nic_ret_def intro: exI [of _ "Link_get p # Delay_ms 100 # cs"])
  qed
qed

definition started_ok :: "dpdk \<Rightarrow> u16 \<Rightarrow> bool" where
  "started_ok D p \<longleftrightarrow> dev_start D p = 0 \<and> fst (fc_get_ret D p) = 0 \<and>
     fc_set_ret D p (snd (fc_get_ret D p)\<lparr>fc_mode_of := RTE_FC_NONE\<rparr>) = 0 \<and> (\<exists>j<90. link_up D p j)"

lemma start_port_run:
  assumes "is_valid_port D p" "f \<noteq> NULL"
  shows "\<exists>cs. start_port D f p tr = (if started_ok D p then Inr 0 else Inl Panic, tr @ Start p # cs) \<and> Start p \<notin> set cs"
proof -
  obtain r fc where fc: "fc_get_ret D p = (r, fc)" by (cases "fc_get_ret D p")
  let ?fc = "fc\<lparr>fc_mode_of := RTE_FC_NONE\<rparr>"
  have 1: "start_port D f p tr =
      (if dev_start D p \<noteq> 0 then (Inl Panic, tr @ [Start p])
       else if r \<noteq> 0 then (Inl Panic, tr @ [Start p, Fc_get p])
       else if fc_set_ret D p ?fc \<noteq> 0 then (Inl Panic, tr @ [Start p, Fc_get p, Fc_set p RTE_FC_NONE])
       else nic_ok (wait_link D f p 90 0 False) (nic_ok (rte_eth_dev_info_get D p) (nic_ret 0))
         (tr @ [Start p, Fc_get p, Fc_set p RTE_FC_NONE]))"
    using assms
    by (simp add: start_port_def nic_ok_run nic_bind_def nic_call_def nic_ret_def nic_lift_def rte_eth_dev_flow_ctrl_get_def fc
        zero_or_negated_run rte_eth_dev_flow_ctrl_set_def wait_for_link_status_up_def)
  obtain cs where cs: "wait_link D f p 90 0 False (tr @ [Start p, Fc_get p, Fc_set p RTE_FC_NONE])
      = (Inr (if \<exists>j<90. link_up D p j then 0 else ECONNREFUSED), (tr @ [Start p, Fc_get p, Fc_set p RTE_FC_NONE]) @ cs)"
    "Start p \<notin> set cs"
    using wait_link_run [OF assms, of 90 0 False "tr @ [Start p, Fc_get p, Fc_set p RTE_FC_NONE]"] by auto
  show ?thesis
    unfolding 1 using cs assms fc by (auto simp: nic_ok_run started_ok_def rte_eth_dev_info_get_def nic_call_def nic_ret_def)
qed

definition queues_ok :: "dpdk \<Rightarrow> u16 \<Rightarrow> ptr \<Rightarrow> u16 \<Rightarrow> u16 \<Rightarrow> u16 \<Rightarrow> u16 \<Rightarrow> int \<Rightarrow> bool" where
  "queues_ok D p mp n_tx n_rx nb_rxd nb_txd s \<longleftrightarrow>
     list_all (\<lambda>q. rx_setup_ret D p q nb_rxd s mp = 0) (queue_ids n_rx) \<and>
     list_all (\<lambda>q. tx_setup_ret D p q nb_txd s = 0) (queue_ids n_tx)"

definition queue_calls :: "u16 \<Rightarrow> ptr \<Rightarrow> u16 \<Rightarrow> u16 \<Rightarrow> u16 \<Rightarrow> u16 \<Rightarrow> int \<Rightarrow> nic_call list" where
  "queue_calls p mp n_tx n_rx nb_rxd nb_txd s =
     map (\<lambda>q. Rx_setup p q nb_rxd s mp) (queue_ids n_rx) @ map (\<lambda>q. Tx_setup p q nb_txd s) (queue_ids n_tx)"

lemma queues_then_start:
  assumes "is_valid_port D p" "f \<noteq> NULL"
  shows "if queues_ok D p mp n_tx n_rx nr nt s
     then \<exists>cs. rx_queues D p (queue_ids n_rx) nr s mp (tx_queues D p (queue_ids n_tx) nt s (start_port D f p)) tr
            = (if started_ok D p then Inr 0 else Inl Panic, tr @ queue_calls p mp n_tx n_rx nr nt s @ Start p # cs) \<and> Start p \<notin> set cs
     else \<exists>cs. rx_queues D p (queue_ids n_rx) nr s mp (tx_queues D p (queue_ids n_tx) nt s (start_port D f p)) tr
            = (Inl Panic, tr @ cs) \<and> Start p \<notin> set cs"
proof -
  let ?k = "tx_queues D p (queue_ids n_tx) nt s (start_port D f p)" and ?rx = "map (\<lambda>q. Rx_setup p q nr s mp)"
    and ?tx = "map (\<lambda>q. Tx_setup p q nt s)"
  note rx = rx_queues_run [OF assms(1), of "queue_ids n_rx" nr s mp ?k tr]
  note tx = tx_queues_run [OF assms(1), of "queue_ids n_tx" nt s "start_port D f p" "tr @ ?rx (queue_ids n_rx)"]
  show ?thesis
  proof (cases "\<forall>q \<in> set (queue_ids n_rx). rx_setup_ret D p q nr s mp = 0")
    case False
    with rx obtain qs' where "rx_queues D p (queue_ids n_rx) nr s mp ?k tr = (Inl Panic, tr @ ?rx qs')" by (meson)
    with False show ?thesis by (auto simp: queues_ok_def list_all_iff)
  next
    case rxok: True
    with rx have r: "rx_queues D p (queue_ids n_rx) nr s mp ?k tr = ?k (tr @ ?rx (queue_ids n_rx))" by simp
    show ?thesis
    proof (cases "\<forall>q \<in> set (queue_ids n_tx). tx_setup_ret D p q nt s = 0")
      case False
      with tx obtain qs' where "?k (tr @ ?rx (queue_ids n_rx)) = (Inl Panic, (tr @ ?rx (queue_ids n_rx)) @ ?tx qs')" by (meson)
      with False r show ?thesis by (auto simp: queues_ok_def list_all_iff intro: exI [of _ "?rx (queue_ids n_rx) @ ?tx qs'"])
    next
      case True
      with tx r rxok start_port_run [OF assms, of "(tr @ ?rx (queue_ids n_rx)) @ ?tx (queue_ids n_tx)"]
      show ?thesis by (auto simp: queues_ok_def queue_calls_def list_all_iff)
    qed
  qed
qed

lemma init_dpdk_port_run:
  assumes "stderr \<noteq> NULL" and adj: "adjust_desc D p 128 128 = (0, nr, nt)"
    and sock: "dev_socket_id D p = -1 \<or> 0 \<le> dev_socket_id D p" and s: "s = max 0 (dev_socket_id D p)"
  shows "(fst (init_dpdk_port D stderr p mp n_tx n_rx []) = Inr 0 \<longleftrightarrow>
       is_valid_port D p \<and> dev_configure D p n_rx n_tx = 0 \<and> queues_ok D p mp n_tx n_rx nr nt s \<and> started_ok D p) \<and>
     (Start p \<in> set (snd (init_dpdk_port D stderr p mp n_tx n_rx [])) \<longrightarrow>
       queues_ok D p mp n_tx n_rx nr nt s \<and>
       (\<exists>cs. snd (init_dpdk_port D stderr p mp n_tx n_rx []) =
          [Dev_info p, Configure p n_rx n_tx, Adjust_desc p] @ queue_calls p mp n_tx n_rx nr nt s @ Start p # cs \<and> Start p \<notin> set cs))"
proof (cases "is_valid_port D p")
  case False
  then show ?thesis by (simp add: init_dpdk_port_def nic_lift_def)
next
  case valid: True
  let ?q = "rx_queues D p (queue_ids n_rx) nr s mp (tx_queues D p (queue_ids n_tx) nt s (start_port D stderr p))"
  have r: "init_dpdk_port D stderr p mp n_tx n_rx [] =
      (if dev_configure D p n_rx n_tx = 0 then ?q [Dev_info p, Configure p n_rx n_tx, Adjust_desc p]
       else (Inl Panic, [Dev_info p, Configure p n_rx n_tx]))"
    using valid adj sock s
    by (auto simp: init_dpdk_port_def nic_ok_run rte_eth_dev_info_get_def nic_call_def rte_eth_dev_configure_def nic_bind_def
        nic_ret_def nic_lift_def PSP_UNREACHABLE_def psp_panic_def RX_RING_SIZE_def TX_RING_SIZE_def rte_eth_dev_socket_id_def Let_def max_def)
  show ?thesis
    using queues_then_start [OF valid assms(1), of mp n_tx n_rx nr nt s "[Dev_info p, Configure p n_rx n_tx, Adjust_desc p]"] valid
    unfolding r by (cases "queues_ok D p mp n_tx n_rx nr nt s") (auto split: if_splits)
qed


definition ex_nic :: dpdk where
  "ex_nic = \<lparr>is_valid_port = (\<lambda>p. p = 0), dev_count_avail = 1, eal_init_ret = (\<lambda>_. 0), rte_errno = 0,
     dev_configure = (\<lambda>_ _ _. 0), adjust_desc = (\<lambda>_ _ _. (0, 64, 128)), dev_socket_id = (\<lambda>_. -1),
     rx_setup_ret = (\<lambda>_ _ _ _ _. 0), tx_setup_ret = (\<lambda>_ _ _ _. 0), dev_start = (\<lambda>_. 0),
     fc_get_ret = (\<lambda>_. (0, \<lparr>fc_mode_of = RTE_FC_FULL, fc_rest = 7\<rparr>)), fc_set_ret = (\<lambda>_ fc. if fc_mode_of fc = RTE_FC_NONE then 0 else -22),
     link_up = (\<lambda>_ i. 2 \<le> i)\<rparr>"


section \<open>The flow rule of a context\<close>

text \<open>What the documentation of \<^verbatim>\<open>rte_flow\<close> says an item of a rule matches: the fields of a packet, under the
  mask, equal those of the specification.\<close>

fun item_matches :: "(nat \<Rightarrow> u8) \<Rightarrow> flow_item \<Rightarrow> bool" where
  "item_matches b Item_eth \<longleftrightarrow> True"
| "item_matches b (Item_ipv4 sp mk) \<longleftrightarrow> b 23 AND next_proto_id mk = next_proto_id sp AND next_proto_id mk \<and>
     get32 b 26 AND src_addr mk = src_addr sp AND src_addr mk \<and> get32 b 30 AND dst_addr mk = dst_addr sp AND dst_addr mk"
| "item_matches b (Item_udp sp mk) \<longleftrightarrow> get16 b 34 AND udp_src_port mk = udp_src_port sp AND udp_src_port mk \<and>
     get16 b 36 AND udp_dst_port mk = udp_dst_port sp AND udp_dst_port mk \<and>
     get16 b 38 AND dgram_len mk = dgram_len sp AND dgram_len mk \<and> get16 b 40 AND dgram_cksum mk = dgram_cksum sp AND dgram_cksum mk"
| "item_matches b Item_end \<longleftrightarrow> True"

lemma and_full_masks: "(w8 :: u8) AND 0xff = w8" "(w16 :: u16) AND 0xffff = w16" "(w32 :: u32) AND 0xffffffff = w32"
proof -
  have "(0xff :: u8) = -1" "(0xffff :: u16) = -1" "(0xffffffff :: u32) = -1" by simp_all
  then show "(w8 :: u8) AND 0xff = w8" "(w16 :: u16) AND 0xffff = w16" "(w32 :: u32) AND 0xffffffff = w32"
    by (simp_all only: and.right_neutral)
qed

text \<open>
  The rule \<open>set_fdir\<close> installs steers exactly the UDP packets sent to the context's address and port
  to the context's receive queue; when the device refuses the rule the list of rules is unchanged.
\<close>

lemma set_fdir_rule:
  assumes "\<And>pat act. create pat act = (if pat = P \<and> act = A then rule else NULL)" "validate P A = 0" "rule \<noteq> NULL"
    "set_fdir validate create u flows = (0, flows')"
  shows "flows' = flows @ [rule] \<and> Action_queue (ucast (u_id u)) \<in> set A \<and>
     (list_all (item_matches b) P \<longleftrightarrow> b 23 = 17 \<and> get32 b 30 = u_ip u \<and> get16 b 36 = bswap16 (u_port u))"
  using assms
  by (auto simp: set_fdir_def generate_ipv4_flow_def Let_def ENOTRECOVERABLE_def flow_actions_def ipv4_flow_pattern_def
      fdir_filter_def IPPROTO_UDP_def and_full_masks split: if_splits)

lemma set_fdir_refused: "validate (ipv4_flow_pattern (fdir_filter u)) (flow_actions (ucast (u_id u))) \<noteq> 0 \<Longrightarrow>
    set_fdir validate create u flows = (ENOTRECOVERABLE, flows)"
  by (simp add: set_fdir_def generate_ipv4_flow_def)

section \<open>The packet pool\<close>

text \<open>
  A pool that could not be created is not reported: the null test looks at the address of the
  caller's pointer, so the next line follows the null pointer.
\<close>

lemma init_mempool_failure: "out \<noteq> NULL \<Longrightarrow> create (NUM_MBUFS * ucast (dev_count_avail D)) = NULL \<Longrightarrow>
    init_mempool D create cs out = Inl NullDeref"
  by (simp add: init_mempool_def)

text \<open>Contexts built one after the other share the pool the first of them created.\<close>

lemma UdpContext_new_shares_pool:
  assumes "UdpContext_new D create cs mem1 i1 ip1 port1 pid1 mempool out mac1 = Inr (u1, pool)"
  shows "pool \<noteq> NULL \<and> mbuf_pool u1 = pool \<and>
     (\<exists>u2. UdpContext_new D create cs mem2 i2 ip2 port2 pid2 pool out mac2 = Inr (u2, pool) \<and> mbuf_pool u2 = pool)"
  using assms
  by (auto simp: UdpContext_new_def init_mempool_def psp_true_if res_bind_eq_Inr Let_def psp_panic_def split: if_splits)

end
