(* ===== verification/Psp_Config.thy ===== *)
theory Psp_Config
  imports Complex_Main App_Worker Dpdk_Port Taskqueue Std_Map
begin

text \<open>
  The control plane: the constructor of \<open>class Psp\<close> (\<^verbatim>\<open>src/c++/libos/common/persephone.cc\<close>), which builds
  the network workers with their dispatchers, the application workers and the table of request types
  from the configuration file.  The parsed file is a record of optional entries; reading an absent entry
  raises an exception that nothing catches.  Addresses of new objects, uninitialised memory, DPDK and the
  conversion of addresses are arguments, collected in \<open>psp_env\<close>.
\<close>

section \<open>Configuration\<close>

record net_cfg =
  nc_is_echo :: "u32 option"
  nc_port :: "u16 option"
  nc_ip :: "string option"
  nc_dp :: "string option"

record req_cfg =
  rc_type :: "string option"
  rc_mean_ns :: "rat option"
  rc_deadline :: "rat option"
  rc_ratio :: "rat option"

record config =
  cf_eal_init :: "string list option"
  cf_log_dir :: "string option"
  cf_cpus :: "u32 list option"
  cf_mac :: "string option"
  cf_device_id :: "u16 option"
  cf_net_workers :: "net_cfg list option"
  cf_workers :: "(u32 option \<times> string option) option"
  cf_requests :: "req_cfg list option"

definition field :: "'a option \<Rightarrow> 'a result" where
  "field x = (case x of Some v \<Rightarrow> Inr v | None \<Rightarrow> Inl Panic)"

record psp_env =
  e_dpdk :: dpdk
  e_stderr :: ptr
  e_cstr :: "string \<Rightarrow> ptr"
  e_argv :: ptr
  e_pool_create :: "u32 \<Rightarrow> ptr"
  e_cache_size :: "ptr \<Rightarrow> u32"
  e_pool_var :: ptr
  e_mac :: "string \<Rightarrow> nat \<Rightarrow> u8"
  e_aton :: "string \<Rightarrow> u32"
  e_udp_mem :: UdpContext
  e_pids :: "int list"
  e_disp_mem :: Dispatcher
  e_chan :: "nat \<Rightarrow> (ptr \<times> ptr) \<times> (ptr \<times> ptr)"
  e_rt_new :: "nat \<Rightarrow> ptr"
  e_rt_mem :: "nat \<Rightarrow> u64"

section \<open>The workers\<close>

record net_worker =
  nt_base :: Worker
  nt_is_echo :: bool
  nt_dp_id :: int
  nt_dpt_base :: Worker
  nt_dpt :: Dispatcher

record psp =
  ps_log_dir :: string
  ps_cpus :: "u32 list"
  ps_mempool :: ptr
  ps_n_tqs :: u16
  ps_n_rqs :: u16
  ps_total_workers :: u32
  ps_nets :: "net_worker list"
  ps_apps :: "Worker list"
  ps_store :: lrpc_store

text \<open>The dispatcher nested in a network worker shares its number and does not count as a worker.\<close>

definition Dispatcher_new :: "psp_env \<Rightarrow> int \<Rightarrow> Worker \<times> Dispatcher" where
  "Dispatcher_new E wid =
     (let b = Worker_with_id (e_pids E) WT_DISPATCH wid in
      (b, (e_disp_mem E)\<lparr>free_peers := 0, num_rcvd := 0, num_dped := 0, n_workers := 0, lrpc_ctx := w_lrpc_ctx b\<rparr>))"

definition NetWorker_new :: "psp_env \<Rightarrow> bool \<Rightarrow> u32 \<Rightarrow> net_worker \<times> u32" where
  "NetWorker_new E is_echo tot =
     (let (b, tot) = Worker_new (e_pids E) WT_NET tot;
          (db, d) = Dispatcher_new E (w_id b) in
      (\<lparr>nt_base = b, nt_is_echo = is_echo, nt_dp_id = w_id b, nt_dpt_base = db, nt_dpt = d\<rparr>, tot))"

text \<open>A new context for queue \<open>i\<close>; the first one creates the pool of packets.\<close>

definition new_udp :: "psp_env \<Rightarrow> string \<Rightarrow> u16 \<Rightarrow> nat \<Rightarrow> u32 \<Rightarrow> u16 \<Rightarrow> psp \<Rightarrow> (UdpContext \<times> psp) result" where
  "new_udp E mac port_id i ip port P =
     res_bind (UdpContext_new (e_dpdk E) (e_pool_create E) (e_cache_size E) (e_udp_mem E) (of_nat i) ip port port_id
                 (ps_mempool P) (e_pool_var E) (e_mac E mac)) (\<lambda>(u, pool).
       Inr (u, P\<lparr>ps_mempool := pool, ps_n_tqs := ps_n_tqs P + 1\<rparr>))"

text \<open>The table \<open>workers\<close> has 32 entries; network workers come first, then the others in order of creation.\<close>

definition table_room :: "nat \<Rightarrow> 'a result \<Rightarrow> 'a result" where
  "table_room i k = (if i < MAX_WORKERS then k else Inl OutOfBounds)"

fun setup_nets :: "psp_env \<Rightarrow> string \<Rightarrow> u16 \<Rightarrow> net_cfg list \<Rightarrow> nat \<Rightarrow> psp \<Rightarrow> psp result" where
  "setup_nets E mac port_id [] i P = Inr P"
| "setup_nets E mac port_id (c # cs) i P =
     (let is_echo = (case nc_is_echo c of Some v \<Rightarrow> v \<noteq> 0 | None \<Rightarrow> False);
          (nw, tot) = NetWorker_new E is_echo (ps_total_workers P) in
      res_bind (get_at (ps_cpus P) (int i)) (\<lambda>cpu.
      res_bind (field (nc_port c)) (\<lambda>port.
      res_bind (field (nc_ip c)) (\<lambda>ip.
      res_bind (new_udp E mac port_id i (e_aton E ip) port P) (\<lambda>(u, P).
      table_room i (
      res_bind (field (nc_dp c)) (\<lambda>mode.
        let b = (nt_base nw)\<lparr>w_eal_thread := True, w_cpu_id := cpu, w_udp_ctx := Some u\<rparr>;
            nw = nw\<lparr>nt_base := b, nt_dpt := set_dp (nt_dpt nw) mode\<rparr> in
        setup_nets E mac port_id cs (i + 1)
          (P\<lparr>ps_total_workers := tot, ps_n_rqs := ps_n_rqs P + 1, ps_nets := ps_nets P @ [nw]\<rparr>))))))))"

text \<open>\<open>CreateWorker\<close>: the new worker is registered with the dispatcher of the first network worker.\<close>

definition CreateWorker :: "psp_env \<Rightarrow> WorkerType \<Rightarrow> nat \<Rightarrow> UdpContext \<Rightarrow> net_worker \<Rightarrow> psp \<Rightarrow> (net_worker \<times> psp) result" where
  "CreateWorker E ty idx u netw P =
     (let (w, tot) = Worker_new (e_pids E) ty (ps_total_workers P);
          w = w\<lparr>w_udp_ctx := Some u\<rparr>;
          (am, bm) = e_chan E idx in
      res_bind (register_dpt (ps_store P) w (nt_dpt_base netw) am bm) (\<lambda>(r, w, db, st).
      res_bind (get_at (ps_cpus P) (int idx)) (\<lambda>cpu.
      table_room idx (
        Inr (netw\<lparr>nt_dpt_base := db, nt_dpt := (nt_dpt netw)\<lparr>lrpc_ctx := w_lrpc_ctx db\<rparr>\<rparr>,
             P\<lparr>ps_total_workers := tot, ps_store := st,
               ps_apps := ps_apps P @ [w\<lparr>w_eal_thread := True, w_cpu_id := cpu\<rparr>]\<rparr>)))))"

definition worker_kind :: "string \<Rightarrow> WorkerType option" where
  "worker_kind ty =
     (if ty = ''MB'' \<or> ty = ''TPCC'' then Some WT_MBK
      else if ty = ''ROCKSDB'' then Some WT_RDB
      else None)"

fun setup_apps :: "psp_env \<Rightarrow> string \<Rightarrow> u16 \<Rightarrow> string \<Rightarrow> nat \<Rightarrow> nat \<Rightarrow> net_worker \<Rightarrow> psp \<Rightarrow> (net_worker \<times> psp) result" where
  "setup_apps E mac port_id ty 0 i netw P = Inr (netw, P)"
| "setup_apps E mac port_id ty (Suc k) i netw P =
     (case w_udp_ctx (nt_base netw) of None \<Rightarrow> Inl NullDeref
      | Some nu \<Rightarrow>
          res_bind (new_udp E mac port_id i (u_ip nu) (u_port nu) P) (\<lambda>(u, P).
          res_bind (case worker_kind ty of Some wt \<Rightarrow> CreateWorker E wt i u netw P | None \<Rightarrow> Inr (netw, P)) (\<lambda>(netw, P).
            setup_apps E mac port_id ty k (i + 1)
              (netw\<lparr>nt_dpt := (nt_dpt netw)\<lparr>n_workers := n_workers (nt_dpt netw) + 1\<rparr>\<rparr>) P)))"

text \<open>\<open>__builtin_powi(2, n) - 1\<close>, converted to 32 bits.\<close>

definition all_free :: "u32 \<Rightarrow> u32 result" where
  "all_free n = (if unat n \<le> 32 then Inr (of_nat (2 ^ unat n - 1)) else Inl SignedOverflow)"

definition setup_workers :: "psp_env \<Rightarrow> string \<Rightarrow> u16 \<Rightarrow> (u32 option \<times> string option) option \<Rightarrow> nat \<Rightarrow> net_worker \<Rightarrow> psp
    \<Rightarrow> (net_worker \<times> psp) result" where
  "setup_workers E mac port_id wc n_net netw P =
     (case wc of None \<Rightarrow> Inr (netw, P)
      | Some (num, ty) \<Rightarrow>
          res_bind (field num) (\<lambda>num.
          res_bind (field ty) (\<lambda>ty.
          res_bind (setup_apps E mac port_id ty (unat num) n_net netw P) (\<lambda>(netw, P).
          res_bind (all_free (n_workers (nt_dpt netw))) (\<lambda>f.
            Inr (netw\<lparr>nt_dpt := (nt_dpt netw)\<lparr>free_peers := f\<rparr>\<rparr>, P))))))"

section \<open>The request types\<close>

text \<open>The loop over the declared types; \<open>i\<close> counts the entries, \<open>m\<close> is the map and \<open>rm\<close> the objects.\<close>

fun parse_requests :: "psp_env \<Rightarrow> req_cfg list \<Rightarrow> nat \<Rightarrow> (u64 \<times> ptr) list \<Rightarrow> (ptr \<Rightarrow> RequestType)
    \<Rightarrow> ((u64 \<times> ptr) list \<times> (ptr \<Rightarrow> RequestType)) result" where
  "parse_requests E [] i m rm = Inr (m, rm)"
| "parse_requests E (c # cs) i m rm =
     res_bind (field (rc_type c)) (\<lambda>ty.
     res_bind (case rc_mean_ns c of
         Some mean \<Rightarrow>
           res_bind (field (rc_deadline c)) (\<lambda>dl.
           res_bind (field (rc_ratio c)) (\<lambda>ratio.
           res_bind (double_u64 mean) (\<lambda>mean.
           res_bind (double_u64 dl) (\<lambda>dl.
             Inr (RequestType_new (e_rt_mem E) (str_to_type ty) mean dl, mean)))))
       | None \<Rightarrow> Inr (RequestType_new (e_rt_mem E) (str_to_type ty) (of_nat (i + 1)) 0, of_nat i)) (\<lambda>(rt, key).
       parse_requests E cs (i + 1) (map_put key (e_rt_new E i) m) (rm(e_rt_new E i := rt))))"

text \<open>Entry \<open>i\<close> of \<open>rtypes\<close> and the order of a type, both arrays of \<open>ReqType::LAST\<close> entries.\<close>

definition set_rtype :: "Dispatcher \<Rightarrow> nat \<Rightarrow> ptr \<Rightarrow> Dispatcher result" where
  "set_rtype d i p =
     res_bind (set_at (rtypes d) (int i) p) (\<lambda>rts.
     res_bind (set_at (type_to_nsorder d) (int (ReqType_code (rt_type (rt_mem d p)))) (of_nat i)) (\<lambda>ord.
       Inr (d\<lparr>rtypes := rts, type_to_nsorder := ord\<rparr>)))"

fun set_rtypes :: "ptr list \<Rightarrow> nat \<Rightarrow> Dispatcher \<Rightarrow> Dispatcher result" where
  "set_rtypes [] i d = Inr d"
| "set_rtypes (p # ps) i d = res_bind (set_rtype d i p) (set_rtypes ps (i + 1))"

definition register_requests :: "psp_env \<Rightarrow> req_cfg list option \<Rightarrow> Dispatcher \<Rightarrow> Dispatcher result" where
  "register_requests E reqs d =
     (case reqs of
        None \<Rightarrow> if dp d \<noteq> DP_CFCFS then Inl (Exit ENODEV) else Inr d
      | Some cs \<Rightarrow>
          if length cs > ReqType_code RT_LAST then Inl (Exit EINVAL)
          else
            res_bind (parse_requests E cs 0 [] (rt_mem d)) (\<lambda>(m, rm).
              let ps = (if dp d \<noteq> DP_CFCFS then map snd m else []);
                  unk = e_rt_new E (length cs) in
              res_bind (set_rtypes ps 0 (d\<lparr>rt_mem := rm\<rparr>)) (\<lambda>d.
                set_rtype (d\<lparr>n_rtypes := of_nat (length ps),
                             rt_mem := (rt_mem d)(unk := RequestType_new (e_rt_mem E) RT_UNKNOWN 0 0)\<rparr>)
                  (length ps) unk)))"

section \<open>The constructor\<close>

definition psp_init :: "lrpc_store \<Rightarrow> psp" where
  "psp_init st = \<lparr>ps_log_dir = ''./'', ps_cpus = [], ps_mempool = NULL, ps_n_tqs = 0, ps_n_rqs = 0, ps_total_workers = 0,
     ps_nets = [], ps_apps = [], ps_store = st\<rparr>"

text \<open>
  \<open>tq\<close> is the outcome of \<open>taskqueue_init\<close>, whose return value the constructor ignores.  After the network
  workers, \<open>get_workers\<close> finds the first of them, whose dispatcher serves the application.
\<close>

definition Psp_new :: "psp_env \<Rightarrow> config \<Rightarrow> lrpc_store \<Rightarrow> (int \<times> task_pools) result \<Rightarrow> (psp \<times> task_pools) result" where
  "Psp_new E cfg st tq =
     res_bind (fst (dpdk_net_init (e_dpdk E) (e_cstr E) (e_argv E) (cf_eal_init cfg) [])) (\<lambda>_.
     res_bind tq (\<lambda>(_, pools).
     let P = psp_init st;
         P = (case cf_log_dir cfg of Some dir \<Rightarrow> P\<lparr>ps_log_dir := dir\<rparr> | None \<Rightarrow> P) in
     case cf_cpus cfg of None \<Rightarrow> Inl (Exit ENODEV)
     | Some cpus \<Rightarrow>
         let P = P\<lparr>ps_cpus := cpus\<rparr> in
         res_bind (field (cf_mac cfg)) (\<lambda>mac.
         res_bind (field (cf_device_id cfg)) (\<lambda>port_id.
         case cf_net_workers cfg of None \<Rightarrow> Inl (Exit ENODEV)
         | Some nets \<Rightarrow>
             res_bind (setup_nets E mac port_id nets 0 P) (\<lambda>P.
             case get_workers (map nt_base (ps_nets P)) WT_NET of
               (_, []) \<Rightarrow> Inl NullDeref
             | (_, _ # _) \<Rightarrow>
                 res_bind (setup_workers E mac port_id (cf_workers cfg) (length nets) (ps_nets P ! 0) P) (\<lambda>(netw, P).
                 res_bind (register_requests E (cf_requests cfg) (nt_dpt netw)) (\<lambda>d.
                 let P = P\<lparr>ps_nets := (ps_nets P)[0 := netw\<lparr>nt_dpt := d\<rparr>]\<rparr> in
                 res_bind (fst (init_dpdk_port (e_dpdk E) (e_stderr E) port_id (ps_mempool P) (ps_n_tqs P) (ps_n_rqs P) [])) (\<lambda>r.
                   if r \<noteq> 0 then Inl (Exit 1) else Inr (P, pools)))))))))"

section \<open>Request types are kept by service time\<close>

definition put_all :: "(u64 \<times> 'v) list \<Rightarrow> (u64 \<times> 'v) list \<Rightarrow> (u64 \<times> 'v) list" where
  "put_all es m = fold (\<lambda>(k, v). map_put k v) es m"

lemma put_all_sorted: "map_ok m \<Longrightarrow> map_ok (put_all es m)"
  by (induction es arbitrary: m) (auto simp: put_all_def map_put_ok)

lemma put_all_keys: "fst ` set (put_all es m) = fst ` set es \<union> fst ` set m"
  by (induction es arbitrary: m) (simp_all add: put_all_def map_put_keys split: prod.split)

lemma put_all_new:
  "distinct (map fst es) \<Longrightarrow> fst ` set es \<inter> fst ` set m = {} \<Longrightarrow>
     set (put_all es m) = set es \<union> set m \<and> length (put_all es m) = length es + length m"
proof (induction es arbitrary: m)
  case (Cons e es)
  obtain k v where e: "e = (k, v)" by (cases e)
  with Cons.prems have "k \<notin> fst ` set m" by auto
  then have 1: "set (map_put k v m) = insert (k, v) (set m)" "length (map_put k v m) = Suc (length m)"
    using map_put_new [of k m v] by auto
  have "set (put_all es (map_put k v m)) = set es \<union> set (map_put k v m) \<and>
      length (put_all es (map_put k v m)) = length es + length (map_put k v m)"
    using Cons.prems e by (intro Cons.IH) (auto simp: 1(1))
  then show ?case using 1 e by (simp add: put_all_def)
qed (simp add: put_all_def)

text \<open>A declared type: its name, mean service time, deadline and ratio.\<close>

type_synonym decl = "string \<times> rat \<times> rat \<times> rat"

definition decl_cfg :: "decl \<Rightarrow> req_cfg" where
  "decl_cfg d = (case d of (ty, mean, dl, ratio) \<Rightarrow>
     \<lparr>rc_type = Some ty, rc_mean_ns = Some mean, rc_deadline = Some dl, rc_ratio = Some ratio\<rparr>)"

definition decl_type :: "decl \<Rightarrow> ReqType" where "decl_type d = str_to_type (fst d)"
definition decl_mean :: "decl \<Rightarrow> u64" where "decl_mean d = of_int \<lfloor>fst (snd d)\<rfloor>"

definition decl_ok :: "decl \<Rightarrow> bool" where
  "decl_ok d \<longleftrightarrow> 0 \<le> fst (snd d) \<and> fst (snd d) < 2 ^ 64 \<and> 0 \<le> fst (snd (snd d)) \<and> fst (snd (snd d)) < 2 ^ 64"

definition decl_rt :: "psp_env \<Rightarrow> decl \<Rightarrow> RequestType" where
  "decl_rt E d = RequestType_new (e_rt_mem E) (decl_type d) (decl_mean d) (of_int \<lfloor>fst (snd (snd d))\<rfloor>)"

definition upd_rt :: "psp_env \<Rightarrow> decl \<times> nat \<Rightarrow> (ptr \<Rightarrow> RequestType) \<Rightarrow> ptr \<Rightarrow> RequestType" where
  "upd_rt E e rm = rm(e_rt_new E (snd e) := decl_rt E (fst e))"

lemma parse_requests_decls:
  "list_all decl_ok ds \<Longrightarrow> parse_requests E (map decl_cfg ds) i m rm =
     Inr (put_all (map2 (\<lambda>d j. (decl_mean d, e_rt_new E j)) ds [i..<i + length ds]) m,
          fold (upd_rt E) (zip ds [i..<i + length ds]) rm)"
proof (induction ds arbitrary: i m rm)
  case (Cons d ds)
  obtain ty mean dl ratio where d: "d = (ty, mean, dl, ratio)" by (cases d)
  have u: "[i..<i + length (d # ds)] = i # [i + 1..<i + 1 + length ds]" by (simp add: upt_conv_Cons del: upt_Suc)
  have "parse_requests E (map decl_cfg (d # ds)) i m rm =
      parse_requests E (map decl_cfg ds) (i + 1) (map_put (decl_mean d) (e_rt_new E i) m) (rm(e_rt_new E i := decl_rt E d))"
    using Cons.prems d
    by (simp add: decl_cfg_def decl_ok_def field_def double_u64_def decl_mean_def decl_rt_def decl_type_def max_def)
  also have "\<dots> = Inr (put_all (map2 (\<lambda>d j. (decl_mean d, e_rt_new E j)) ds [i + 1..<i + 1 + length ds]) (map_put (decl_mean d) (e_rt_new E i) m),
      fold (upd_rt E) (zip ds [i + 1..<i + 1 + length ds]) (rm(e_rt_new E i := decl_rt E d)))"
    by (rule Cons.IH) (use Cons.prems in simp)
  also have "rm(e_rt_new E i := decl_rt E d) = upd_rt E (d, i) rm" by (simp add: upd_rt_def)
  finally show ?case unfolding u by (simp add: put_all_def del: upt_Suc parse_requests.simps)
qed (simp add: put_all_def)

lemma fold_upd_other:
  "p \<notin> e_rt_new E ` set (map snd js) \<Longrightarrow> fold (upd_rt E) js rm p = rm p"
  by (induction js arbitrary: rm) (auto simp: upd_rt_def)

lemma fold_upd_get:
  assumes "distinct (map (e_rt_new E \<circ> snd) js)" "(d, j) \<in> set js"
  shows "fold (upd_rt E) js rm (e_rt_new E j) = decl_rt E d"
  using assms
proof (induction js arbitrary: rm)
  case (Cons e js)
  show ?case
  proof (cases "(d, j) \<in> set js")
    case False
    with Cons.prems have "e = (d, j)" "e_rt_new E j \<notin> e_rt_new E ` set (map snd js)" by (auto simp: image_iff)
    then show ?thesis
      by (simp add: fold_upd_other) (simp add: upd_rt_def)
  qed (use Cons in auto)
qed simp

text \<open>Filling the two tables of the dispatcher.\<close>

lemma ReqType_code_inj: "ReqType_code a = ReqType_code b \<longleftrightarrow> a = b"
  by (cases a; cases b) simp_all

lemma set_rtype_ok:
  assumes "i < length (rtypes d)" "ReqType_code (rt_type (rt_mem d p)) < length (type_to_nsorder d)"
  shows "set_rtype d i p = Inr (d\<lparr>rtypes := (rtypes d)[i := p],
     type_to_nsorder := (type_to_nsorder d)[ReqType_code (rt_type (rt_mem d p)) := of_nat i]\<rparr>)"
  using assms by (simp add: set_rtype_def set_at_def)

lemma set_rtypes_ok:
  assumes "i + length ps \<le> length (rtypes d)" "\<forall>p \<in> set ps. ReqType_code (rt_type (rt_mem d p)) < length (type_to_nsorder d)"
    and "distinct (map (\<lambda>p. rt_type (rt_mem d p)) ps)"
  shows "\<exists>rts ord. set_rtypes ps i d = Inr (d\<lparr>rtypes := rts, type_to_nsorder := ord\<rparr>) \<and>
     length rts = length (rtypes d) \<and> length ord = length (type_to_nsorder d) \<and>
     (\<forall>j<i. rts ! j = rtypes d ! j) \<and>
     (\<forall>j<length ps. rts ! (i + j) = ps ! j \<and> ord ! ReqType_code (rt_type (rt_mem d (ps ! j))) = of_nat (i + j)) \<and>
     (\<forall>t. t \<notin> set (map (\<lambda>p. ReqType_code (rt_type (rt_mem d p))) ps) \<longrightarrow> ord ! t = type_to_nsorder d ! t)"
  using assms
proof (induction ps arbitrary: i d)
  case Nil
  show ?case by (rule exI [of _ "rtypes d"], rule exI [of _ "type_to_nsorder d"]) simp
next
  case (Cons p ps)
  let ?c = "ReqType_code (rt_type (rt_mem d p))"
  let ?d = "d\<lparr>rtypes := (rtypes d)[i := p], type_to_nsorder := (type_to_nsorder d)[?c := of_nat i]\<rparr>"
  have 1: "set_rtype d i p = Inr ?d" using Cons.prems by (intro set_rtype_ok) auto
  obtain rts ord where r: "set_rtypes ps (i + 1) ?d = Inr (?d\<lparr>rtypes := rts, type_to_nsorder := ord\<rparr>)"
      "length rts = length (rtypes d)" "length ord = length (type_to_nsorder d)"
      "\<forall>j<i + 1. rts ! j = (rtypes d)[i := p] ! j"
      "\<forall>j<length ps. rts ! (i + 1 + j) = ps ! j \<and> ord ! ReqType_code (rt_type (rt_mem d (ps ! j))) = of_nat (i + 1 + j)"
      "\<forall>t. t \<notin> set (map (\<lambda>p. ReqType_code (rt_type (rt_mem d p))) ps) \<longrightarrow> ord ! t = (type_to_nsorder d)[?c := of_nat i] ! t"
    using Cons.IH [of "i + 1" ?d] Cons.prems by auto
  have pc: "?c \<notin> set (map (\<lambda>p. ReqType_code (rt_type (rt_mem d p))) ps)" "?c < length (type_to_nsorder d)" "i < length (rtypes d)"
    using Cons.prems by (auto simp: ReqType_code_inj image_iff)
  have "rts ! (i + j) = (p # ps) ! j \<and> ord ! ReqType_code (rt_type (rt_mem d ((p # ps) ! j))) = of_nat (i + j)"
    if "j < length (p # ps)" for j
    using that r(4,5,6) pc by (cases j) auto
  moreover have "\<forall>j<i. rts ! j = rtypes d ! j" using r(4) by simp
  moreover have "ord ! t = type_to_nsorder d ! t" if "t \<notin> set (map (\<lambda>p. ReqType_code (rt_type (rt_mem d p))) (p # ps))" for t
    using r(6) that by auto
  ultimately show ?case
    using 1 r(1-3) by (intro exI [of _ rts] exI [of _ ord]) (auto simp: res_bind_def)
qed

lemma str_to_type_code: "ReqType_code (str_to_type ty) < 12"
  by (simp add: str_to_type_def)

text \<open>The map and the objects after the loop over the declarations.\<close>

definition decl_map :: "psp_env \<Rightarrow> decl list \<Rightarrow> (u64 \<times> ptr) list" where
  "decl_map E ds = put_all (map2 (\<lambda>d j. (decl_mean d, e_rt_new E j)) ds [0..<length ds]) []"

definition decl_mem :: "psp_env \<Rightarrow> decl list \<Rightarrow> (ptr \<Rightarrow> RequestType) \<Rightarrow> ptr \<Rightarrow> RequestType" where
  "decl_mem E ds rm = fold (upd_rt E) (zip ds [0..<length ds]) rm"

lemma decl_mem_get:
  assumes "inj_on (e_rt_new E) {..length ds}" "j < length ds"
  shows "decl_mem E ds rm (e_rt_new E j) = decl_rt E (ds ! j)"
proof -
  have "map (e_rt_new E \<circ> snd) (zip ds [0..<length ds]) = map (e_rt_new E) [0..<length ds]"
    by (simp add: map_map [symmetric] del: map_map)
  moreover have "inj_on (e_rt_new E) (set [0..<length ds])" by (rule inj_on_subset [OF assms(1)]) auto
  ultimately have "distinct (map (e_rt_new E \<circ> snd) (zip ds [0..<length ds]))" by (simp add: distinct_map)
  moreover have "(ds ! j, j) \<in> set (zip ds [0..<length ds])" using assms(2) by (auto simp: set_zip)
  ultimately show ?thesis unfolding decl_mem_def by (rule fold_upd_get)
qed

lemma decl_map_facts:
  assumes "inj_on (e_rt_new E) {..length ds}" "distinct (map decl_mean ds)"
  shows "set (decl_map E ds) = {(decl_mean (ds ! j), e_rt_new E j) | j. j < length ds}" "length (decl_map E ds) = length ds"
    "sorted_wrt (<) (map fst (decl_map E ds))"
proof -
  let ?es = "map2 (\<lambda>d j. (decl_mean d, e_rt_new E j)) ds [0..<length ds]"
  have e: "?es = map (\<lambda>j. (decl_mean (ds ! j), e_rt_new E j)) [0..<length ds]" by (rule nth_equalityI) simp_all
  have f: "map fst ?es = map decl_mean ds" by (rule nth_equalityI) simp_all
  have s: "set ?es = {(decl_mean (ds ! j), e_rt_new E j) | j. j < length ds}"
    unfolding e by auto
  have "set (put_all ?es []) = set ?es \<union> set [] \<and> length (put_all ?es []) = length ?es + length ([] :: (u64 \<times> ptr) list)"
    by (rule put_all_new) (use assms f in simp_all)
  then show "set (decl_map E ds) = {(decl_mean (ds ! j), e_rt_new E j) | j. j < length ds}" "length (decl_map E ds) = length ds"
    using s by (simp_all add: decl_map_def)
  show "sorted_wrt (<) (map fst (decl_map E ds))" using put_all_sorted [OF map_ok_Nil] unfolding decl_map_def map_ok_def .
qed

text \<open>What a caller relies on: \<open>decls\<close> are complete declarations of different known types with different
  service times, the arrays have their declared size, and new objects have addresses of their own.\<close>

definition decls_ok :: "psp_env \<Rightarrow> decl list \<Rightarrow> Dispatcher \<Rightarrow> bool" where
  "decls_ok E ds d \<longleftrightarrow> list_all decl_ok ds \<and> length ds < 12 \<and> distinct (map decl_mean ds) \<and> distinct (map decl_type ds) \<and>
     RT_UNKNOWN \<notin> set (map decl_type ds) \<and> length (rtypes d) = 12 \<and> length (type_to_nsorder d) = 12 \<and>
     inj_on (e_rt_new E) {..length ds}"

lemma decl_entry:
  assumes "decls_ok E ds d" "i < length ds"
  obtains j where "j < length ds" "decl_map E ds ! i = (decl_mean (ds ! j), e_rt_new E j)"
    "decl_mem E ds rm (snd (decl_map E ds ! i)) = decl_rt E (ds ! j)"
proof -
  have f: "inj_on (e_rt_new E) {..length ds}" "distinct (map decl_mean ds)" using assms(1) by (simp_all add: decls_ok_def)
  have "decl_map E ds ! i \<in> set (decl_map E ds)" using assms(2) decl_map_facts(2) [OF f] by simp
  then show ?thesis using that decl_mem_get [OF f(1)] unfolding decl_map_facts(1) [OF f] by auto
qed

lemma decl_types_distinct:
  assumes ok: "decls_ok E ds d"
  shows "distinct (map (\<lambda>p. rt_type (decl_mem E ds rm p)) (map snd (decl_map E ds)))"
proof -
  have f: "inj_on (e_rt_new E) {..length ds}" "distinct (map decl_mean ds)" using ok by (simp_all add: decls_ok_def)
  let ?ts = "map (\<lambda>p. rt_type (decl_mem E ds rm p)) (map snd (decl_map E ds))"
  have "set (map decl_type ds) \<subseteq> set ?ts"
  proof
    fix t assume "t \<in> set (map decl_type ds)"
    then obtain j where j: "j < length ds" "t = decl_type (ds ! j)" by (auto simp: in_set_conv_nth)
    then have "(decl_mean (ds ! j), e_rt_new E j) \<in> set (decl_map E ds)" unfolding decl_map_facts(1) [OF f] by blast
    moreover have "rt_type (decl_mem E ds rm (e_rt_new E j)) = t"
      using decl_mem_get [OF f(1) j(1)] j(2) by (simp add: decl_rt_def RequestType_new_def)
    ultimately show "t \<in> set ?ts" by force
  qed
  then have "card (set (map decl_type ds)) \<le> card (set ?ts)" by (rule card_mono [OF finite_set])
  moreover have "card (set (map decl_type ds)) = length ds"
    using ok by (simp only: distinct_card length_map decls_ok_def)
  moreover have "length ?ts = length ds" using decl_map_facts(2) [OF f] by simp
  ultimately show ?thesis using card_length [of ?ts] by (intro card_distinct) linarith
qed

lemma register_requests_tables:
  assumes ok: "decls_ok E ds d" and mode: "dp d \<noteq> DP_CFCFS"
  obtains rts ord where
    "register_requests E (Some (map decl_cfg ds)) d = Inr (d\<lparr>n_rtypes := of_nat (length ds), rtypes := rts, type_to_nsorder := ord,
       rt_mem := (decl_mem E ds (rt_mem d))(e_rt_new E (length ds) := RequestType_new (e_rt_mem E) RT_UNKNOWN 0 0)\<rparr>)"
    "length rts = 12" "length ord = 12" "rts ! length ds = e_rt_new E (length ds)" "ord ! 0 = of_nat (length ds)"
    "\<And>i. i < length ds \<Longrightarrow> rts ! i = snd (decl_map E ds ! i)"
    "\<And>i. i < length ds \<Longrightarrow> ord ! ReqType_code (rt_type (decl_mem E ds (rt_mem d) (snd (decl_map E ds ! i)))) = of_nat i"
proof -
  have f: "inj_on (e_rt_new E) {..length ds}" "distinct (map decl_mean ds)" and len: "length ds < 12" "length (rtypes d) = 12"
      "length (type_to_nsorder d) = 12" and dok: "list_all decl_ok ds" and unk: "RT_UNKNOWN \<notin> set (map decl_type ds)"
    using ok by (simp_all add: decls_ok_def)
  let ?ps = "map snd (decl_map E ds)" and ?rm = "decl_mem E ds (rt_mem d)" and ?u = "e_rt_new E (length ds)"
  let ?d = "d\<lparr>rt_mem := ?rm\<rparr>"
  have lp: "length ?ps = length ds" using decl_map_facts(2) [OF f] by simp
  have types: "rt_type (?rm p) \<in> set (map decl_type ds)" if p: "p \<in> set ?ps" for p
  proof -
    obtain i where i: "i < length ds" "p = snd (decl_map E ds ! i)" using p lp by (auto simp: in_set_conv_nth)
    obtain j where "j < length ds" "?rm (snd (decl_map E ds ! i)) = decl_rt E (ds ! j)" by (rule decl_entry [OF ok i(1)])
    then show ?thesis using i(2) by (simp add: decl_rt_def RequestType_new_def)
  qed
  have tc: "ReqType_code t < 12" "t \<noteq> RT_UNKNOWN" if t: "t \<in> set (map decl_type ds)" for t
  proof -
    show "ReqType_code t < 12" using t by (auto simp: decl_type_def str_to_type_code)
    show "t \<noteq> RT_UNKNOWN" using t unk by metis
  qed
  note codes = tc [OF types]
  have parse: "parse_requests E (map decl_cfg ds) 0 [] (rt_mem d) = Inr (decl_map E ds, ?rm)"
    using parse_requests_decls [OF dok, of E 0 "[]" "rt_mem d"] by (simp add: decl_map_def decl_mem_def)
  obtain rts ord where s: "set_rtypes ?ps 0 ?d = Inr (?d\<lparr>rtypes := rts, type_to_nsorder := ord\<rparr>)"
      "length rts = 12" "length ord = 12"
      "\<forall>j<length ?ps. rts ! j = ?ps ! j \<and> ord ! ReqType_code (rt_type (?rm (?ps ! j))) = of_nat j"
    using set_rtypes_ok [of 0 ?ps ?d] decl_types_distinct [OF ok, of "rt_mem d"] codes(1) lp len by auto
  have ne: "ReqType_code (rt_type (?rm (snd (decl_map E ds ! i)))) \<noteq> 0" if "i < length ds" for i
    using codes(2) [of "snd (decl_map E ds ! i)"] nth_mem [of i ?ps] that lp ReqType_code_inj [of _ RT_UNKNOWN] by simp
  show ?thesis
  proof (rule that [where rts = "rts[length ds := ?u]" and ord = "ord[0 := of_nat (length ds)]"])
    show "register_requests E (Some (map decl_cfg ds)) d = Inr (d\<lparr>n_rtypes := of_nat (length ds), rtypes := rts[length ds := ?u],
        type_to_nsorder := ord[0 := of_nat (length ds)], rt_mem := ?rm(?u := RequestType_new (e_rt_mem E) RT_UNKNOWN 0 0)\<rparr>)"
      using parse s(1-3) mode len lp by (simp add: register_requests_def set_rtype_ok RequestType_new_def Let_def)
    show "ord[0 := of_nat (length ds)] ! ReqType_code (rt_type (?rm (snd (decl_map E ds ! i)))) = of_nat i" if "i < length ds" for i
      using ne [OF that] s(4) that lp by simp
  qed (use s len lp in auto)
qed

text \<open>
  C17: After the constructor has registered the declared request types for a type-aware policy, every
  lookup \<open>rtypes[type_to_nsorder[t]]\<close> of a declared type finds the object of that type with its mean
  service time, the types are stored in increasing order of service time, and the lookup of
  \<open>UNKNOWN\<close> finds the catch-all type after them, with no request pending.
\<close>

theorem requests_by_service_time:
  assumes ok: "decls_ok E ds d" and mode: "dp d \<noteq> DP_CFCFS"
  shows "\<exists>d'. register_requests E (Some (map decl_cfg ds)) d = Inr d' \<and> unat (n_rtypes d') = length ds \<and>
     (\<forall>x \<in> set ds. \<exists>p. rtype_of d' (ReqType_code (decl_type x)) = Inr p \<and> rt_type (rt_mem d' p) = decl_type x \<and>
        mean_ns (rt_mem d' p) = decl_mean x) \<and>
     sorted_wrt (<) (map (\<lambda>p. mean_ns (rt_mem d' p)) (take (length ds) (rtypes d'))) \<and>
     (\<exists>p. rtype_of d' (ReqType_code RT_UNKNOWN) = Inr p \<and> rt_type (rt_mem d' p) = RT_UNKNOWN \<and> rq_pending (rt_mem d' p) = [])"
proof -
  have f: "inj_on (e_rt_new E) {..length ds}" "distinct (map decl_mean ds)" and len: "length ds < 12"
    using ok by (simp_all add: decls_ok_def)
  let ?rm = "decl_mem E ds (rt_mem d)" and ?u = "e_rt_new E (length ds)"
  obtain rts ord where r: "register_requests E (Some (map decl_cfg ds)) d = Inr (d\<lparr>n_rtypes := of_nat (length ds), rtypes := rts,
       type_to_nsorder := ord, rt_mem := ?rm(?u := RequestType_new (e_rt_mem E) RT_UNKNOWN 0 0)\<rparr>)" (is "_ = Inr ?d'")
    and l: "length rts = 12" "length ord = 12" and u: "rts ! length ds = ?u" "ord ! 0 = of_nat (length ds)"
    and i: "\<And>i. i < length ds \<Longrightarrow> rts ! i = snd (decl_map E ds ! i)"
    and o: "\<And>i. i < length ds \<Longrightarrow> ord ! ReqType_code (rt_type (?rm (snd (decl_map E ds ! i)))) = of_nat i"
    using register_requests_tables [OF ok mode] by metis
  have small: "unat (of_nat i :: u32) = i" if "i \<le> length ds" for i
    using that len by (subst unat_of_nat) simp
  have obj: "rt_mem ?d' (e_rt_new E j) = decl_rt E (ds ! j)" if "j < length ds" for j
  proof -
    have "e_rt_new E j \<noteq> ?u" using that f(1) by (auto dest: inj_onD)
    then show ?thesis using decl_mem_get [OF f(1) that] by simp
  qed
  have "\<exists>p. rtype_of ?d' (ReqType_code (decl_type x)) = Inr p \<and> rt_type (rt_mem ?d' p) = decl_type x \<and>
      mean_ns (rt_mem ?d' p) = decl_mean x" if x: "x \<in> set ds" for x
  proof -
    obtain j where j: "j < length ds" "x = ds ! j" using x unfolding in_set_conv_nth by blast
    then have "(decl_mean x, e_rt_new E j) \<in> set (decl_map E ds)" unfolding decl_map_facts(1) [OF f] by blast
    then obtain k where k: "k < length ds" "decl_map E ds ! k = (decl_mean x, e_rt_new E j)"
      using decl_map_facts(2) [OF f] by (auto simp: in_set_conv_nth)
    have "?rm (e_rt_new E j) = decl_rt E x" using decl_mem_get [OF f(1) j(1)] j(2) by simp
    then have "ord ! ReqType_code (decl_type x) = of_nat k" "rts ! k = e_rt_new E j"
      using o [OF k(1)] i [OF k(1)] k(2) by (simp_all add: decl_rt_def RequestType_new_def)
    then have "rtype_of ?d' (ReqType_code (decl_type x)) = Inr (e_rt_new E j)"
      using l small [of k] k(1) len str_to_type_code [of "fst x"] by (simp add: rtype_of_def decl_type_def)
    then show ?thesis using obj [OF j(1)] j(2) by (simp add: decl_rt_def RequestType_new_def)
  qed
  moreover have "map (\<lambda>p. mean_ns (rt_mem ?d' p)) (take (length ds) rts) = map fst (decl_map E ds)"
  proof (rule nth_equalityI)
    show "length (map (\<lambda>p. mean_ns (rt_mem ?d' p)) (take (length ds) rts)) = length (map fst (decl_map E ds))"
      using l len decl_map_facts(2) [OF f] by simp
    fix k assume "k < length (map (\<lambda>p. mean_ns (rt_mem ?d' p)) (take (length ds) rts))"
    then have k: "k < length ds" by simp
    obtain j where j: "j < length ds" "decl_map E ds ! k = (decl_mean (ds ! j), e_rt_new E j)" by (rule decl_entry [OF ok k])
    have "mean_ns (rt_mem ?d' (e_rt_new E j)) = decl_mean (ds ! j)"
      unfolding obj [OF j(1)] by (simp add: decl_rt_def RequestType_new_def)
    moreover have "rts ! k = e_rt_new E j" using i [OF k] j(2) by simp
    ultimately show "map (\<lambda>p. mean_ns (rt_mem ?d' p)) (take (length ds) rts) ! k = map fst (decl_map E ds) ! k"
      using k j(2) l len decl_map_facts(2) [OF f] by (auto split: if_splits)
  qed
  moreover have "rtype_of ?d' (ReqType_code RT_UNKNOWN) = Inr ?u"
    using l u len small [of "length ds"] by (simp add: rtype_of_def)
  ultimately show ?thesis
    using r decl_map_facts(3) [OF f] small [of "length ds"] by (intro exI [of _ ?d']) (simp add: RequestType_new_def)
qed

definition ex_env :: psp_env where
  "ex_env = \<lparr>e_dpdk = ex_nic, e_stderr = 2, e_cstr = (\<lambda>_. 1), e_argv = 1, e_pool_create = (\<lambda>_. 8), e_cache_size = (\<lambda>_. 512),
     e_pool_var = 16, e_mac = (\<lambda>_ _. 0), e_aton = (\<lambda>_. 0x0100007f), e_udp_mem = ex_udp, e_pids = replicate 32 0,
     e_disp_mem = ex_disp\<lparr>rtypes := replicate 12 0, type_to_nsorder := replicate 12 0\<rparr>,
     e_chan = (\<lambda>i. ((of_nat (4 * i + 1000), of_nat (4 * i + 1001)), (of_nat (4 * i + 1002), of_nat (4 * i + 1003)))),
     e_rt_new = (\<lambda>i. of_nat (i + 1)), e_rt_mem = (\<lambda>_. 0)\<rparr>"

definition ex_decls :: "decl list" where
  "ex_decls = [(''LONG'', 100000, 1000000, 1), (''SHORT'', 500, 5000, 9)]"

lemma ex_decls_ok: "decls_ok ex_env ex_decls (e_disp_mem ex_env)"
proof -
  have "inj_on (\<lambda>i. of_nat (i + 1) :: u64) {..2}" by (auto simp: inj_on_def le_Suc_eq numeral_2_eq_2)
  then show ?thesis
    by (simp add: decls_ok_def ex_env_def ex_decls_def decl_ok_def decl_mean_def decl_type_def str_to_type_def numeral_2_eq_2 [symmetric])
qed

theorem requests_by_service_time_witness:
  "\<exists>d'. register_requests ex_env (Some (map decl_cfg ex_decls)) ((e_disp_mem ex_env)\<lparr>dp := DP_SJF\<rparr>) = Inr d' \<and> unat (n_rtypes d') = 2 \<and>
     sorted_wrt (<) (map (\<lambda>p. mean_ns (rt_mem d' p)) (take 2 (rtypes d')))"
proof -
  have "decls_ok ex_env ex_decls ((e_disp_mem ex_env)\<lparr>dp := DP_SJF\<rparr>)" using ex_decls_ok by (simp add: decls_ok_def)
  moreover have "length ex_decls = 2" by (simp add: ex_decls_def)
  ultimately show ?thesis using requests_by_service_time [of ex_env ex_decls "(e_disp_mem ex_env)\<lparr>dp := DP_SJF\<rparr>"] by auto
qed

end
