(* ===== verification/Psp_Wiring.thy ===== *)
theory Psp_Wiring
  imports Psp_Config
begin

text \<open>
  What the constructor of \<open>class Psp\<close> leaves behind: the application workers with their numbers and CPUs,
  both channels between each of them and the dispatcher, and the dispatcher's set of free workers.
\<close>

section \<open>The invariant of the worker loop\<close>

text \<open>What the environment guarantees for one network worker and \<open>n\<close> workers: a pool of packets, a CPU
  for each of them and channel buffers of their own.\<close>

definition env_ok :: "psp_env \<Rightarrow> u32 list \<Rightarrow> nat \<Rightarrow> bool" where
  "env_ok E cpus n \<longleftrightarrow> n < length cpus \<and> n < 32 \<and> length (e_pids E) = 32 \<and> e_pool_var E \<noteq> NULL \<and>
     e_pool_create E (NUM_MBUFS * ucast (dev_count_avail (e_dpdk E))) \<noteq> NULL \<and>
     e_cache_size E (e_pool_create E (NUM_MBUFS * ucast (dev_count_avail (e_dpdk E)))) = MBUF_CACHE_SIZE \<and>
     (\<forall>i \<in> {1..n}. fst (fst (e_chan E i)) \<noteq> NULL \<and> snd (fst (e_chan E i)) \<noteq> NULL \<and>
        fst (snd (e_chan E i)) \<noteq> NULL \<and> snd (snd (e_chan E i)) \<noteq> NULL)"

text \<open>A channel that was initialised on its buffer and not used since.\<close>

definition untouched :: "lrpc_store \<Rightarrow> ptr \<times> ptr \<Rightarrow> bool" where
  "untouched st m \<longleftrightarrow> (\<forall>i. m_cmd (tbls st (fst m) i) = 0) \<and> wbs st (snd m) = 0"

definition app_wired :: "psp_env \<Rightarrow> u32 list \<Rightarrow> WorkerType \<Rightarrow> Worker \<Rightarrow> lrpc_store \<Rightarrow> nat \<Rightarrow> Worker \<Rightarrow> bool" where
  "app_wired E cpus wt db st j a \<longleftrightarrow> w_id a = int j + 1 \<and> w_cpu_id a = cpus ! (j + 1) \<and> w_type a = wt \<and> w_dpt_id a = 0 \<and>
     egress (w_lrpc_ctx a) ! 0 = fresh_out (snd (e_chan E (j + 1))) \<and> ingress (w_lrpc_ctx db) ! j = fresh_in (snd (e_chan E (j + 1))) \<and>
     egress (w_lrpc_ctx db) ! j = fresh_out (fst (e_chan E (j + 1))) \<and> ingress (w_lrpc_ctx a) ! 0 = fresh_in (fst (e_chan E (j + 1))) \<and>
     lrpc_shape (w_lrpc_ctx a) \<and> untouched st (fst (e_chan E (j + 1))) \<and> untouched st (snd (e_chan E (j + 1)))"

definition wired :: "psp_env \<Rightarrow> u32 list \<Rightarrow> WorkerType \<Rightarrow> net_worker \<Rightarrow> psp \<Rightarrow> nat \<Rightarrow> bool" where
  "wired E cpus wt netw P k \<longleftrightarrow> ps_cpus P = cpus \<and> ps_total_workers P = of_nat (k + 1) \<and> length (ps_apps P) = k \<and>
     ps_mempool P = e_pool_create E (NUM_MBUFS * ucast (dev_count_avail (e_dpdk E))) \<and> ps_n_tqs P = of_nat (k + 1) \<and> ps_n_rqs P = 1 \<and>
     w_id (nt_dpt_base netw) = 0 \<and> lrpc_shape (w_lrpc_ctx (nt_dpt_base netw)) \<and> w_n_peers (nt_dpt_base netw) = k \<and>
     length (w_peer_ids (nt_dpt_base netw)) = 32 \<and> n_workers (nt_dpt netw) = of_nat k \<and>
     lrpc_ctx (nt_dpt netw) = w_lrpc_ctx (nt_dpt_base netw) \<and> w_udp_ctx (nt_base netw) \<noteq> None \<and>
     (\<forall>j<k. app_wired E cpus wt (nt_dpt_base netw) (ps_store P) j (ps_apps P ! j))"

lemma untouched_registered: "untouched st m \<Longrightarrow> untouched (registered_store st am bm) m"
  "untouched (registered_store st am bm) am" "untouched (registered_store st am bm) bm"
  by (auto simp: untouched_def registered_store_def)

lemma new_udp_ok:
  assumes "wired E cpus wt netw P k" "env_ok E cpus n"
  shows "\<exists>u. new_udp E mac port_id i ip port P = Inr (u, P\<lparr>ps_n_tqs := ps_n_tqs P + 1\<rparr>)"
  using assms by (auto simp: new_udp_def UdpContext_new_def wired_def env_ok_def)

definition new_app :: "psp_env \<Rightarrow> WorkerType \<Rightarrow> nat \<Rightarrow> UdpContext \<Rightarrow> Worker" where
  "new_app E wt k u = (Worker_with_id (e_pids E) wt (int k + 1))\<lparr>w_udp_ctx := Some u\<rparr>"

lemma CreateWorker_ok:
  assumes w: "wired E cpus wt netw P k" and e: "env_ok E cpus n" and k: "k < n"
  shows "CreateWorker E wt (k + 1) u netw (P\<lparr>ps_n_tqs := q\<rparr>) =
     (let a = new_app E wt k u; (am, bm) = e_chan E (k + 1); db = registered_dpt a (nt_dpt_base netw) am bm in
      Inr (netw\<lparr>nt_dpt_base := db, nt_dpt := (nt_dpt netw)\<lparr>lrpc_ctx := w_lrpc_ctx db\<rparr>\<rparr>,
        P\<lparr>ps_n_tqs := q, ps_total_workers := ps_total_workers P + 1, ps_store := registered_store (ps_store P) am bm,
          ps_apps := ps_apps P @ [(registered_worker a (nt_dpt_base netw) am bm)\<lparr>w_eal_thread := True, w_cpu_id := cpus ! (k + 1)\<rparr>]\<rparr>))"
proof -
  obtain am bm where c: "e_chan E (k + 1) = (am, bm)" by (cases "e_chan E (k + 1)")
  have "unat (of_nat (k + 1) :: u32) = k + 1" using k e by (subst unat_of_nat) (simp add: env_ok_def)
  then have "uint (of_nat (k + 1) :: u32) = int k + 1" by (metis of_nat_1 of_nat_add uint_nat)
  then have id: "uint (ps_total_workers P) = int k + 1" using w by (simp add: wired_def)
  let ?a = "new_app E wt k u"
  have a: "fst (Worker_new (e_pids E) wt (ps_total_workers P))\<lparr>w_udp_ctx := Some u\<rparr> = ?a"
    using id by (simp add: Worker_new_def new_app_def)
  have "register_dpt (ps_store P) ?a (nt_dpt_base netw) am bm =
      Inr (0, registered_worker ?a (nt_dpt_base netw) am bm, registered_dpt ?a (nt_dpt_base netw) am bm, registered_store (ps_store P) am bm)"
    using w e k c by (intro register_dpt_ok)
      (auto simp: new_app_def Worker_with_id_def wired_def env_ok_def lrpc_shape_def lrpc_context_new_def dest!: bspec [of _ _ "k + 1"])
  moreover have "get_at cpus (int m) = Inr (cpus ! m)" if "m < length cpus" for m using that by (simp add: get_at_def)
  from this [of "k + 1"] have "get_at cpus (int (k + 1)) = Inr (cpus ! (k + 1))" using e k by (simp add: env_ok_def)
  ultimately show ?thesis
    using w e k c a by (simp add: CreateWorker_def Worker_new_def Let_def table_room_def MAX_WORKERS_def wired_def env_ok_def)
qed

lemma CreateWorker_wired:
  assumes w: "wired E cpus wt netw P k" and e: "env_ok E cpus n" and k: "k < n"
    and r: "CreateWorker E wt (k + 1) u netw (P\<lparr>ps_n_tqs := ps_n_tqs P + 1\<rparr>) = Inr (netw', P')"
  shows "wired E cpus wt (netw'\<lparr>nt_dpt := (nt_dpt netw')\<lparr>n_workers := n_workers (nt_dpt netw') + 1\<rparr>\<rparr>) P' (k + 1)"
proof -
  obtain am bm where c: "e_chan E (k + 1) = (am, bm)" by (cases "e_chan E (k + 1)")
  let ?a = "new_app E wt k u"
  let ?db = "registered_dpt ?a (nt_dpt_base netw) am bm" and ?st = "registered_store (ps_store P) am bm"
  have n': "netw' = netw\<lparr>nt_dpt_base := ?db, nt_dpt := (nt_dpt netw)\<lparr>lrpc_ctx := w_lrpc_ctx ?db\<rparr>\<rparr>"
    and P': "P' = P\<lparr>ps_n_tqs := ps_n_tqs P + 1, ps_total_workers := ps_total_workers P + 1, ps_store := ?st,
          ps_apps := ps_apps P @ [(registered_worker ?a (nt_dpt_base netw) am bm)\<lparr>w_eal_thread := True, w_cpu_id := cpus ! (k + 1)\<rparr>]\<rparr>"
    using r c unfolding CreateWorker_ok [OF w e k] by (simp_all add: Let_def)
  have id: "w_id ?a = int k + 1" "nat (w_id ?a - 1) = k" by (simp_all add: new_app_def Worker_with_id_def)
  have sh: "length (ingress (w_lrpc_ctx (nt_dpt_base netw))) = 32" "length (egress (w_lrpc_ctx (nt_dpt_base netw))) = 32" "k < 32"
    using w e k by (simp_all add: wired_def lrpc_shape_def MAX_PEERS_def env_ok_def)
  have old: "app_wired E cpus wt ?db ?st j (ps_apps P ! j)" if "j < k" for j
    using w that unfolding wired_def app_wired_def
    by (simp add: registered_dpt_def registered_ctx_def id untouched_registered)
  have new: "app_wired E cpus wt ?db ?st k ((registered_worker ?a (nt_dpt_base netw) am bm)\<lparr>w_eal_thread := True, w_cpu_id := cpus ! (k + 1)\<rparr>)"
    using sh c w unfolding app_wired_def
    by (simp add: registered_dpt_def registered_worker_def registered_ctx_def id untouched_registered wired_def new_app_def
        Worker_with_id_def lrpc_shape_def lrpc_context_new_def MAX_PEERS_def)
  have "app_wired E cpus wt ?db ?st j (ps_apps P' ! j)" if "j < k + 1" for j
  proof (cases "j = k")
    case True
    with new w show ?thesis by (simp add: P' wired_def nth_append)
  next
    case False
    with old [of j] that w show ?thesis by (simp add: P' wired_def nth_append)
  qed
  moreover have "lrpc_shape (w_lrpc_ctx ?db)" "w_id ?db = 0" "w_n_peers ?db = k + 1" "length (w_peer_ids ?db) = 32"
    using w by (simp_all add: registered_dpt_def registered_ctx_def lrpc_shape_def wired_def)
  ultimately show ?thesis using w by (simp add: n' P' wired_def)
qed

lemma setup_apps_wired:
  assumes "wired E cpus wt netw P k" "env_ok E cpus n" "k + m = n" "worker_kind ty = Some wt"
  shows "\<exists>netw' P'. setup_apps E mac port_id ty m (k + 1) netw P = Inr (netw', P') \<and> wired E cpus wt netw' P' n \<and>
     dp (nt_dpt netw') = dp (nt_dpt netw) \<and> rtypes (nt_dpt netw') = rtypes (nt_dpt netw) \<and>
     type_to_nsorder (nt_dpt netw') = type_to_nsorder (nt_dpt netw) \<and> nt_base netw' = nt_base netw \<and> ps_nets P' = ps_nets P"
  using assms
proof (induction m arbitrary: k netw P)
  case (Suc m)
  have k: "k < n" using Suc.prems(3) by simp
  obtain nu where nu: "w_udp_ctx (nt_base netw) = Some nu" using Suc.prems(1) by (auto simp: wired_def)
  obtain u where u: "new_udp E mac port_id (k + 1) (u_ip nu) (u_port nu) P = Inr (u, P\<lparr>ps_n_tqs := ps_n_tqs P + 1\<rparr>)"
    using new_udp_ok [OF Suc.prems(1,2)] by blast
  obtain netw1 P1 where r: "CreateWorker E wt (k + 1) u netw (P\<lparr>ps_n_tqs := ps_n_tqs P + 1\<rparr>) = Inr (netw1, P1)"
    and same: "dp (nt_dpt netw1) = dp (nt_dpt netw)" "rtypes (nt_dpt netw1) = rtypes (nt_dpt netw)"
      "type_to_nsorder (nt_dpt netw1) = type_to_nsorder (nt_dpt netw)" "nt_base netw1 = nt_base netw" "ps_nets P1 = ps_nets P"
    unfolding CreateWorker_ok [OF Suc.prems(1,2) k] by (cases "e_chan E (k + 1)") (auto simp: Let_def)
  let ?n = "netw1\<lparr>nt_dpt := (nt_dpt netw1)\<lparr>n_workers := n_workers (nt_dpt netw1) + 1\<rparr>\<rparr>"
  have "wired E cpus wt ?n P1 (k + 1)" by (rule CreateWorker_wired [OF Suc.prems(1,2) k r])
  from Suc.IH [OF this Suc.prems(2) _ Suc.prems(4)] Suc.prems(3,4) nu u r same show ?case
    by (auto simp: algebra_simps)
qed auto

section \<open>After the constructor\<close>

lemma wired_links:
  assumes "wired E cpus wt netw P n" "j < n" "n < 32"
  defines "a \<equiv> ps_apps P ! j" and "db \<equiv> nt_dpt_base netw"
  shows "lk_wf (worker_link a db (ps_store P))" "lk_contents (worker_link a db (ps_store P)) = []"
    "lk_wf (dpt_link a db (ps_store P))" "lk_contents (dpt_link a db (ps_store P)) = []"
proof -
  have w: "app_wired E cpus wt db (ps_store P) j a" and sh: "lrpc_shape (w_lrpc_ctx db)"
    using assms by (simp_all add: wired_def)
  have idx: "unat (of_nat (nat (w_id a - 1)) :: u32) = j" using w assms(2,3) by (subst unat_of_nat) (simp add: app_wired_def)
  have idx2: "unat (of_nat j :: u32) = j" using assms(2,3) by (subst unat_of_nat) simp
  have f: "untouched (ps_store P) m \<Longrightarrow> lrpc_wf 12 (fresh_out m) (fresh_in m) (ps_store P)"
    "untouched (ps_store P) m \<Longrightarrow> lrpc_msgs 12 (fresh_out m) (fresh_in m) (ps_store P) = []" for m
    using fresh_channel [of "ps_store P" m] by (simp_all add: untouched_def)
  note defs = lk_wf_def lk_contents_def lk_msgs_def worker_link_def dpt_link_def
  show "lk_wf (worker_link a db (ps_store P))" "lk_contents (worker_link a db (ps_store P)) = []"
    "lk_wf (dpt_link a db (ps_store P))" "lk_contents (dpt_link a db (ps_store P)) = []"
    using w sh f assms(2,3) unfolding defs by (simp_all add: idx idx2 app_wired_def lrpc_shape_def MAX_PEERS_def del: of_nat_nat)
qed

lemma all_free_bits:
  assumes "n < 32"
  shows "\<exists>f. all_free (of_nat n) = Inr f \<and> (\<forall>p. bit f p \<longleftrightarrow> p < n)"
proof -
  have "unat (of_nat n :: u32) = n" using assms by (subst unat_of_nat) simp
  moreover have "(of_nat (2 ^ n - 1) :: u32) = mask n" by (simp add: mask_eq_exp_minus_1 of_nat_diff)
  ultimately show ?thesis using assms by (auto simp: all_free_def bit_mask_iff)
qed

lemma setup_one_net:
  assumes e: "env_ok E cpus n" and P: "ps_cpus P = cpus" "ps_total_workers P = 0" "ps_apps P = []" "ps_mempool P = NULL" "ps_nets P = []"
      "ps_n_tqs P = 0" "ps_n_rqs P = 0"
  shows "\<exists>nw P'. setup_nets E mac port_id [\<lparr>nc_is_echo = ec, nc_port = Some port, nc_ip = Some ip, nc_dp = Some mode\<rparr>] 0 P = Inr P' \<and>
     ps_nets P' = [nw] \<and> wired E cpus wt nw P' 0 \<and> w_type (nt_base nw) = WT_NET \<and>
     nt_dpt nw = (snd (Dispatcher_new E 0))\<lparr>dp := str_to_dp mode\<rparr>"
  using assms
  by (auto simp: env_ok_def NetWorker_new_def Worker_new_def Dispatcher_new_def Let_def get_at_def field_def new_udp_def UdpContext_new_def
      init_mempool_def table_room_def MAX_WORKERS_def wired_def set_dp_def Worker_with_id_def lrpc_shape_def lrpc_context_new_def)

text \<open>
  C16: The constructor wires the system.  With one network worker, \<open>n\<close> workers of a known type, a
  type-aware policy and complete declarations of the request types, and when DPDK, the pools and the port
  come up, it returns with worker \<open>j\<close> carrying number \<open>j + 1\<close> on CPU \<open>cpus[j + 1]\<close>, connected to the
  dispatcher in both directions by well-formed empty channels, and with exactly the workers
  \<open>0, \<dots>, n - 1\<close> marked free in the dispatcher.
\<close>

theorem constructor_wires_workers:
  assumes env: "env_ok E cpus n" and kind: "worker_kind ty = Some wt" and mode: "str_to_dp mode \<noteq> DP_CFCFS"
    and decls: "decls_ok E ds (e_disp_mem E)"
    and eal: "fst (dpdk_net_init (e_dpdk E) (e_cstr E) (e_argv E) eal_args []) = Inr 0"
    and port: "fst (init_dpdk_port (e_dpdk E) (e_stderr E) dev
        (e_pool_create E (NUM_MBUFS * ucast (dev_count_avail (e_dpdk E)))) (of_nat (n + 1)) 1 []) = Inr 0"
    and cfg: "cfg = \<lparr>cf_eal_init = eal_args, cf_log_dir = dir, cf_cpus = Some cpus, cf_mac = Some mac, cf_device_id = Some dev,
        cf_net_workers = Some [\<lparr>nc_is_echo = ec, nc_port = Some prt, nc_ip = Some ip, nc_dp = Some mode\<rparr>],
        cf_workers = Some (Some (of_nat n), Some ty), cf_requests = Some (map decl_cfg ds)\<rparr>"
  shows "\<exists>P netw. Psp_new E cfg st (Inr (r, pools)) = Inr (P, pools) \<and> ps_nets P = [netw] \<and> length (ps_apps P) = n \<and>
     (\<forall>p. bit (free_peers (nt_dpt netw)) p \<longleftrightarrow> p < n) \<and> unat (n_workers (nt_dpt netw)) = n \<and>
     (\<forall>j<n. w_id (ps_apps P ! j) = int j + 1 \<and> w_cpu_id (ps_apps P ! j) = cpus ! (j + 1) \<and> w_type (ps_apps P ! j) = wt \<and>
        lk_wf (worker_link (ps_apps P ! j) (nt_dpt_base netw) (ps_store P)) \<and>
        lk_contents (worker_link (ps_apps P ! j) (nt_dpt_base netw) (ps_store P)) = [] \<and>
        lk_wf (dpt_link (ps_apps P ! j) (nt_dpt_base netw) (ps_store P)) \<and>
        lk_contents (dpt_link (ps_apps P ! j) (nt_dpt_base netw) (ps_store P)) = [])"
proof -
  let ?c = "\<lparr>nc_is_echo = ec, nc_port = Some prt, nc_ip = Some ip, nc_dp = Some mode\<rparr>"
  let ?P = "(case dir of Some d \<Rightarrow> psp_init st\<lparr>ps_log_dir := d\<rparr> | None \<Rightarrow> psp_init st)\<lparr>ps_cpus := cpus\<rparr>"
  have n: "n < 32" using env by (simp add: env_ok_def)
  have small: "unat (of_nat n :: u32) = n" using n by (subst unat_of_nat) simp
  have p: "ps_cpus ?P = cpus" "ps_total_workers ?P = 0" "ps_apps ?P = []" "ps_mempool ?P = NULL" "ps_nets ?P = []"
      "ps_n_tqs ?P = 0" "ps_n_rqs ?P = 0"
    by (simp_all add: psp_init_def split: option.split)
  obtain nw P1 where s1: "setup_nets E mac dev [?c] 0 ?P = Inr P1" "ps_nets P1 = [nw]" "wired E cpus wt nw P1 0"
      "w_type (nt_base nw) = WT_NET" "nt_dpt nw = (snd (Dispatcher_new E 0))\<lparr>dp := str_to_dp mode\<rparr>"
    using setup_one_net [OF env p] by blast
  obtain n2 P2 where s2: "setup_apps E mac dev ty n 1 nw P1 = Inr (n2, P2)" "wired E cpus wt n2 P2 n" "dp (nt_dpt n2) = dp (nt_dpt nw)"
      "rtypes (nt_dpt n2) = rtypes (nt_dpt nw)" "type_to_nsorder (nt_dpt n2) = type_to_nsorder (nt_dpt nw)" "ps_nets P2 = [nw]"
    using setup_apps_wired [OF s1(3) env _ kind, of n mac dev] s1(2) by auto
  obtain f where f: "all_free (n_workers (nt_dpt n2)) = Inr f" "\<forall>p. bit f p \<longleftrightarrow> p < n"
    using all_free_bits [OF n] s2(2) by (auto simp: wired_def)
  let ?d = "(nt_dpt n2)\<lparr>free_peers := f\<rparr>"
  have "decls_ok E ds ?d" "dp ?d \<noteq> DP_CFCFS"
    using decls mode s1(5) s2(3-5) by (simp_all add: decls_ok_def Dispatcher_new_def Let_def)
  then obtain d where d: "register_requests E (Some (map decl_cfg ds)) ?d = Inr d" "free_peers d = f" "n_workers d = n_workers (nt_dpt n2)"
    by (rule register_requests_tables) simp
  let ?n3 = "n2\<lparr>nt_dpt := d\<rparr>"
  have P2: "ps_mempool P2 = e_pool_create E (NUM_MBUFS * ucast (dev_count_avail (e_dpdk E)))" "ps_n_tqs P2 = of_nat (n + 1)" "ps_n_rqs P2 = 1"
      "length (ps_apps P2) = n" "n_workers (nt_dpt n2) = of_nat n"
    using s2(2) by (simp_all add: wired_def)
  have r: "Psp_new E cfg st (Inr (r, pools)) = Inr (P2\<lparr>ps_nets := [?n3]\<rparr>, pools)"
    using eal s1 s2 f(1) d(1) P2 port small
    by (simp add: Psp_new_def cfg field_def get_workers_def Let_def setup_workers_def del: setup_nets.simps)
  moreover have "w_id (ps_apps P2 ! j) = int j + 1 \<and> w_cpu_id (ps_apps P2 ! j) = cpus ! (j + 1) \<and> w_type (ps_apps P2 ! j) = wt" if "j < n" for j
    using s2(2) that by (simp add: wired_def app_wired_def)
  ultimately show ?thesis
    using wired_links [OF s2(2) _ n] f(2) d P2 small by (intro exI [of _ "P2\<lparr>ps_nets := [?n3]\<rparr>"] exI [of _ ?n3]) simp
qed

definition ex_cfg :: config where
  "ex_cfg = \<lparr>cf_eal_init = Some [''psp''], cf_log_dir = None, cf_cpus = Some [4, 6, 8], cf_mac = Some ''aa'', cf_device_id = Some 0,
     cf_net_workers = Some [\<lparr>nc_is_echo = None, nc_port = Some 6789, nc_ip = Some ''127.0.0.1'', nc_dp = Some ''DARC''\<rparr>],
     cf_workers = Some (Some (of_nat 2), Some ''MB''), cf_requests = Some (map decl_cfg ex_decls)\<rparr>"

lemma ex_port_up: "fst (init_dpdk_port ex_nic 2 0 8 3 1 []) = Inr 0"
proof -
  have "queue_ids 3 = [0, 1, 2]" "queue_ids 1 = [0]" by (simp_all add: queue_ids_def upt_rec)
  moreover have "\<exists>j<90. 2 \<le> (j :: nat)" by (rule exI [of _ 2]) simp
  ultimately show ?thesis
    using init_dpdk_port_run [of 2 ex_nic 0 64 128 0 8 3 1] by (simp add: ex_nic_def queues_ok_def started_ok_def)
qed

lemma ex_env_ok: "env_ok ex_env [4, 6, 8] 2"
proof -
  have "{1..2} = {1, 2 :: nat}" by auto
  then show ?thesis by (simp add: env_ok_def ex_env_def MBUF_CACHE_SIZE_def)
qed

theorem constructor_wires_workers_witness:
  "\<exists>P netw. Psp_new ex_env ex_cfg (lk_st ex_link) (Inr (0, ex_task_pools)) = Inr (P, ex_task_pools) \<and> ps_nets P = [netw] \<and> length (ps_apps P) = 2 \<and>
     w_cpu_id (ps_apps P ! 1) = 8 \<and> bit (free_peers (nt_dpt netw)) 1 \<and> \<not> bit (free_peers (nt_dpt netw)) 2"
proof -
  have eal: "fst (dpdk_net_init (e_dpdk ex_env) (e_cstr ex_env) (e_argv ex_env) (Some [''psp'']) []) = Inr 0"
    by (simp add: dpdk_net_init_def rte_eal_init_def ex_env_def ex_nic_def nic_ret_def nic_ok_run)
  have port: "fst (init_dpdk_port (e_dpdk ex_env) (e_stderr ex_env) 0
      (e_pool_create ex_env (NUM_MBUFS * ucast (dev_count_avail (e_dpdk ex_env)))) (of_nat (2 + 1)) 1 []) = Inr 0"
    using ex_port_up by (simp add: ex_env_def)
  have kind: "worker_kind ''MB'' = Some WT_MBK" and mode: "str_to_dp ''DARC'' \<noteq> DP_CFCFS"
    by (simp_all add: worker_kind_def str_to_dp_def)
  obtain P netw where P: "Psp_new ex_env ex_cfg (lk_st ex_link) (Inr (0, ex_task_pools)) = Inr (P, ex_task_pools)" "ps_nets P = [netw]"
      "length (ps_apps P) = 2" "\<forall>p. bit (free_peers (nt_dpt netw)) p \<longleftrightarrow> p < 2"
      "\<forall>j<2. w_cpu_id (ps_apps P ! j) = [4, 6, 8] ! (j + 1)"
    using constructor_wires_workers [OF ex_env_ok kind mode ex_decls_ok eal port ex_cfg_def, of "lk_st ex_link" 0 ex_task_pools] by blast
  from P(5) have "w_cpu_id (ps_apps P ! 1) = 8" by simp
  with P show ?thesis by (intro exI [of _ P] exI [of _ netw]) simp
qed

end
