(* ===== verification/Client_Request.thy ===== *)
theory Client_Request
  imports App_Worker Std_Map Psp_Float
begin

text \<open>
  The load generator's requests and schedules (\<^verbatim>\<open>src/c++/apps/client/msg.hh\<close>,
  \<^verbatim>\<open>src/c++/apps/client/schedule.hh\<close>, \<^verbatim>\<open>src/c++/time/time.cc\<close>).  The doubles of
  a schedule are the rationals they stand for, without rounding.  The pseudo-random sequences are arguments: \<open>u k\<close> is the draw of
  \<open>uniform_dist\<close> and \<open>e k\<close> the draw of \<open>exp_dist\<close> in iteration \<open>k\<close>.  Time points are integers, the
  nanoseconds since the clock's epoch, and what \<open>take_time\<close> returns is an argument.
\<close>

section \<open>Time\<close>

type_synonym tp = int

definition since_epoch :: "tp \<Rightarrow> u64" where
  "since_epoch time = of_int time"

definition ns_diff :: "tp \<Rightarrow> tp \<Rightarrow> u64" where
  "ns_diff start end = (let ns = end - start; ns = (if ns < 0 then -1 else ns) in of_int ns)"

section \<open>Requests\<close>

record ClientRequest =
  cr_id :: u32
  cr_mbuf :: ptr
  run_ns :: u32
  cr_type :: ReqType
  sending :: u64
  completed :: u64
  cr_schedule_id :: u32

definition msg_str_to_type :: "string \<Rightarrow> ReqType" where
  "msg_str_to_type ty =
     (if ty = ''REGEX'' then RT_REGEX
      else if ty = ''PAGE'' then RT_PAGE
      else if ty = ''Payment'' then RT_PAYMENT
      else if ty = ''NewOrder'' then RT_NEW_ORDER
      else if ty = ''Delivery'' then RT_DELIVERY
      else if ty = ''StockLevel'' then RT_STOCK_LEVEL
      else if ty = ''OrderStatus'' then RT_ORDER_STATUS
      else RT_UNKNOWN)"

definition ClientRequest_eq :: "ClientRequest \<Rightarrow> ClientRequest \<Rightarrow> bool" where
  "ClientRequest_eq a b \<longleftrightarrow> cr_id a = cr_id b \<and> cr_type a = cr_type b"

definition LOG_COLUMNS :: "string list" where
  "LOG_COLUMNS = [''REQ_ID'', ''REQ_TYPE'', ''SENDING'', ''COMPLETED'', ''RESP_TIME'', ''MEAN_NS'', ''SCHED_ID'']"

text \<open>
  A line of the log, as the values of its columns; \<open>cpn\<close> is \<open>cycles_per_ns\<close>, a \<open>float\<close>.  Times are counts
  of cycles divided in single precision; the digits a stream prints of them are not modelled.
\<close>

datatype log_item = LInt int | LNum rat | LNotFinite | LStr string

definition log_request :: "rat \<Rightarrow> ClientRequest \<Rightarrow> log_item list result" where
  "log_request cpn r =
     res_bind (get_at req_type_str (int (ReqType_code (cr_type r)))) (\<lambda>ty.
       Inr [LInt (uint (cr_id r)), LStr ty, LNum (u64_div_float (sending r) cpn), LNum (u64_div_float (completed r) cpn),
            LNum (u64_div_float (completed r - sending r) cpn), LInt (uint (run_ns r)), LInt (uint (cr_schedule_id r))])"

section \<open>Schedules\<close>

datatype pkt_type = PSP_MB | IX | RAW | PT_UNKNOWN

definition str_to_ptype :: "string \<Rightarrow> pkt_type" where
  "str_to_ptype ty =
     (if ty = ''PSP_MB'' then PSP_MB
      else if ty = ''IX'' then IX
      else if ty = ''RAW'' then RAW
      else PT_UNKNOWN)"

record Schedule =
  schedule_id :: u32
  duration :: int
  max_duration :: int
  start_time :: tp
  end_time :: tp
  last_send_time :: tp
  n_requests :: u32
  rate :: rat
  is_uniform :: bool
  ptype :: pkt_type
  pkt_size :: u64
  cmd_ratios :: "rat list"
  requests_str :: "string list list"
  reqs_us :: "u32 list"
  send_times :: "tp list"
  send_index :: u32
  recv_requests :: u32
  attempts :: u32
  ev_count :: u32
  n_skipped :: u32

text \<open>
  The constructor sets the number and the defaults of the members that have one; \<open>mem\<close> is the memory
  of the object, which keeps the others.
\<close>

definition Schedule_new :: "Schedule \<Rightarrow> u32 \<Rightarrow> Schedule" where
  "Schedule_new mem i =
     mem\<lparr>schedule_id := i, n_requests := 0, rate := 0, is_uniform := False, pkt_size := 0, cmd_ratios := [],
         requests_str := [], reqs_us := [], send_times := [], send_index := 0, recv_requests := 0, attempts := 0,
         ev_count := 0, n_skipped := 0\<rparr>"

text \<open>A quotient of floating-point numbers; \<open>None\<close> when the divisor is zero (an infinity or not a number).\<close>

definition fdiv :: "rat \<Rightarrow> rat \<Rightarrow> rat option" where
  "fdiv x y = (if y = 0 then None else Some (x / y))"

definition getRequestsPerSecond :: "Schedule \<Rightarrow> rat option" where
  "getRequestsPerSecond s =
     fdiv (of_int (uint (recv_requests s))) (of_int (uint (ns_diff (start_time s) (end_time s))) / 10 ^ 9)"

definition getOfferedLoad :: "Schedule \<Rightarrow> rat option" where
  "getOfferedLoad s =
     fdiv (of_int (uint (send_index s))) (of_int (uint (ns_diff (start_time s) (last_send_time s))) / 10 ^ 9)"

section \<open>Generating a schedule\<close>

text \<open>The choice of the command: \<open>i\<close> is the loop's index, \<open>None\<close> is \<open>cmd_idx = -1\<close>.\<close>

fun pick_cmd :: "rat \<Rightarrow> rat list \<Rightarrow> nat \<Rightarrow> nat option" where
  "pick_cmd r [] i = None"
| "pick_cmd r (q # qs) i = (if r < q then Some i else pick_cmd (r - q) qs (i + 1))"

definition ReqType_list :: "ReqType list" where
  "ReqType_list = [RT_UNKNOWN, RT_SHORT, RT_LONG, RT_PAGE, RT_REGEX, RT_NEW_ORDER, RT_PAYMENT, RT_DELIVERY,
     RT_ORDER_STATUS, RT_STOCK_LEVEL, RT_GET, RT_SCAN, RT_LAST]"

definition count_type :: "int list \<Rightarrow> nat \<Rightarrow> int list result" where
  "count_type counts i =
     res_bind (get_at counts (int i)) (\<lambda>c.
       if int_ok (c + 1) then set_at counts (int i) (c + 1) else Inl SignedOverflow)"

definition next_time :: "Schedule \<Rightarrow> rat \<Rightarrow> u64 \<Rightarrow> u64 result" where
  "next_time s e time =
     (if is_uniform s then
        if rate s = 0 then Inl SignedOverflow
        else double_u64 (of_int (uint time) + 10 ^ 9 / rate s)
      else res_bind (double_u64 e) (\<lambda>next_ns. Inr (time + next_ns)))"

definition run_time :: "Schedule \<Rightarrow> nat \<Rightarrow> u32 result" where
  "run_time s cmd_idx =
     (case ptype s of PSP_MB \<Rightarrow> get_at (reqs_us s) (int cmd_idx) | IX \<Rightarrow> get_at (reqs_us s) (int cmd_idx) | _ \<Rightarrow> Inr 0)"

definition new_request :: "Schedule \<Rightarrow> u32 \<Rightarrow> nat \<Rightarrow> u32 \<Rightarrow> ClientRequest" where
  "new_request s rid ty run =
     \<lparr>cr_id = rid, cr_mbuf = NULL, run_ns = run, cr_type = ReqType_list ! ty, sending = 0, completed = 0,
      cr_schedule_id = schedule_id s\<rparr>"

record gen_state =
  g_sched :: Schedule
  g_reqs :: "ClientRequest list"
  g_time :: u64
  g_counts :: "int list"

text \<open>
  One iteration.  The new object is the last element of \<open>requests\<close>, so \<open>requests[rid] == cr\<close> holds exactly
  when \<open>rid\<close> is its index.
\<close>

definition gen_one :: "nat \<Rightarrow> u32 \<Rightarrow> tp \<Rightarrow> rat \<Rightarrow> rat \<Rightarrow> gen_state \<Rightarrow> gen_state result" where
  "gen_one off base_rid start u e g =
     (let s = g_sched g in
      case pick_cmd u (cmd_ratios s) 0 of None \<Rightarrow> Inl Panic
      | Some i \<Rightarrow>
          res_bind (count_type (g_counts g) (off + i)) (\<lambda>counts.
          res_bind (next_time s e (g_time g)) (\<lambda>time.
            let rid = base_rid + n_requests s;
                s = s\<lparr>send_times := send_times s @ [sint time + start], n_requests := n_requests s + 1\<rparr> in
            if length (g_reqs g) < unat rid then Inl OutOfBounds
            else psp_true EINVAL (unat rid = length (g_reqs g))
              (res_bind (run_time s i) (\<lambda>run.
                 Inr \<lparr>g_sched = s, g_reqs = g_reqs g @ [new_request s rid (off + i) run], g_time = time, g_counts = counts\<rparr>)))))"

fun gen_loop :: "nat \<Rightarrow> nat \<Rightarrow> u32 \<Rightarrow> tp \<Rightarrow> u64 \<Rightarrow> (nat \<Rightarrow> rat) \<Rightarrow> (nat \<Rightarrow> rat) \<Rightarrow> nat \<Rightarrow> gen_state \<Rightarrow> gen_state result" where
  "gen_loop 0 off base start tend u e k g = (if g_time g \<le> tend then Inl OutOfFuel else Inr g)"
| "gen_loop (Suc fuel) off base start tend u e k g =
     (if g_time g \<le> tend then
        res_bind (gen_one off base start (u k) (e k) g) (\<lambda>g. gen_loop fuel off base start tend u e (k + 1) g)
      else Inr g)"

text \<open>\<open>off\<close> is the global \<open>req_offset\<close>, \<open>now\<close> the time \<open>take_time\<close> returns.\<close>

definition gen_schedule :: "nat \<Rightarrow> u16 \<Rightarrow> tp \<Rightarrow> (nat \<Rightarrow> rat) \<Rightarrow> (nat \<Rightarrow> rat) \<Rightarrow> Schedule \<Rightarrow> ClientRequest list
    \<Rightarrow> (int \<times> Schedule \<times> ClientRequest list) result" where
  "gen_schedule fuel off now u e s reqs =
     res_bind (double_u64 (of_int (duration s) * 10 ^ 9)) (\<lambda>tend.
     res_bind (gen_loop fuel (unat off) (of_nat (length reqs)) now tend u e 0
                 \<lparr>g_sched = s, g_reqs = reqs, g_time = 0, g_counts = replicate (ReqType_code RT_LAST) 0\<rparr>) (\<lambda>g.
       Inr (0, g_sched g, g_reqs g)))"

section \<open>The choice of a command\<close>

lemma pick_cmd_shift: "pick_cmd r qs (Suc i0) = map_option Suc (pick_cmd r qs i0)"
  by (induction r qs i0 rule: pick_cmd.induct) simp_all

lemma pick_cmd_Some:
  "pick_cmd r qs 0 = Some i \<longleftrightarrow>
     i < length qs \<and> r < sum_list (take (Suc i) qs) \<and> (\<forall>j < i. sum_list (take (Suc j) qs) \<le> r)"
proof (induction qs arbitrary: r i)
  case (Cons q qs)
  show ?case
  proof (cases i)
    case 0
    then show ?thesis by (simp add: pick_cmd_shift)
  next
    case (Suc n)
    have "(\<forall>j < Suc n. sum_list (take (Suc j) (q # qs)) \<le> r) \<longleftrightarrow> q \<le> r \<and> (\<forall>j < n. sum_list (take (Suc j) qs) \<le> r - q)"
      by (auto simp: All_less_Suc2 algebra_simps)
    then show ?thesis using Suc Cons.IH [of "r - q" n] by (auto simp: pick_cmd_shift algebra_simps)
  qed
qed simp

lemma pick_cmd_None: "pick_cmd r qs 0 = None \<longleftrightarrow> (\<forall>j < length qs. sum_list (take (Suc j) qs) \<le> r)"
proof (induction qs arbitrary: r)
  case (Cons q qs)
  have "(\<forall>j < Suc (length qs). sum_list (take (Suc j) (q # qs)) \<le> r) \<longleftrightarrow>
      q \<le> r \<and> (\<forall>j < length qs. sum_list (take (Suc j) qs) \<le> r - q)"
    by (auto simp: All_less_Suc2 algebra_simps)
  then show ?case using Cons.IH [of "r - q"] by (auto simp: pick_cmd_shift not_less)
qed simp

lemma pick_cmd_total:
  assumes "r < 1" "1 \<le> sum_list qs"
  obtains i where "pick_cmd r qs 0 = Some i" "i < length qs"
proof -
  have "qs \<noteq> []" using assms(2) by auto
  then have "\<not> sum_list (take (Suc (length qs - 1)) qs) \<le> r" "length qs - 1 < length qs" using assms by auto
  then have "pick_cmd r qs 0 \<noteq> None" unfolding pick_cmd_None by blast
  then show ?thesis using that pick_cmd_Some by blast
qed

section \<open>The generated schedule\<close>

text \<open>
  The reference: the nanoseconds before request \<open>k\<close>, their sums, and request \<open>k\<close> of a schedule
  generated after \<open>base\<close> others.
\<close>

definition gap :: "Schedule \<Rightarrow> (nat \<Rightarrow> rat) \<Rightarrow> nat \<Rightarrow> rat" where
  "gap s e k = (if is_uniform s then 10 ^ 9 / rate s else e k)"

primrec sent_at :: "Schedule \<Rightarrow> (nat \<Rightarrow> rat) \<Rightarrow> nat \<Rightarrow> nat" where
  "sent_at s e 0 = 0"
| "sent_at s e (Suc k) = sent_at s e k + nat \<lfloor>gap s e k\<rfloor>"

definition planned :: "nat \<Rightarrow> (nat \<Rightarrow> rat) \<Rightarrow> Schedule \<Rightarrow> nat \<Rightarrow> nat \<Rightarrow> ClientRequest" where
  "planned off u s base k =
     (let i = the (pick_cmd (u k) (cmd_ratios s) 0) in
      new_request s (of_nat (base + k)) (off + i) (if ptype s \<in> {PSP_MB, IX} then reqs_us s ! i else 0))"

text \<open>What a schedule needs to be generated.\<close>

definition sched_ok :: "nat \<Rightarrow> (nat \<Rightarrow> rat) \<Rightarrow> (nat \<Rightarrow> rat) \<Rightarrow> Schedule \<Rightarrow> bool" where
  "sched_ok off u e s \<longleftrightarrow>
     n_requests s = 0 \<and> 1 \<le> sum_list (cmd_ratios s) \<and> (\<forall>k. u k < 1) \<and> (\<forall>k. 0 \<le> gap s e k) \<and>
     (is_uniform s \<longrightarrow> rate s \<noteq> 0) \<and> off + length (cmd_ratios s) \<le> 12 \<and>
     (ptype s \<in> {PSP_MB, IX} \<longrightarrow> length (cmd_ratios s) \<le> length (reqs_us s))"

lemma double_u64_nat:
  assumes "0 \<le> x" "t + nat \<lfloor>x\<rfloor> < 2 ^ 64"
  shows "double_u64 (of_nat t + x) = Inr (of_nat (t + nat \<lfloor>x\<rfloor>))"
proof -
  have fl: "\<lfloor>of_nat t + x\<rfloor> = int (t + nat \<lfloor>x\<rfloor>)" using assms(1) by simp
  moreover have "int (t + nat \<lfloor>x\<rfloor>) < int (2 ^ 64)" using assms(2) by (simp only: of_nat_less_iff)
  ultimately have "\<lfloor>of_nat t + x\<rfloor> < 2 ^ 64" by simp
  then have "of_nat t + x < 2 ^ 64" using floor_less_iff [of "of_nat t + x" "2 ^ 64"] by simp
  moreover have "max 0 (of_nat t + x) = of_nat t + x" "-1 < of_nat t + x" using assms(1) by auto
  moreover have "(of_int \<lfloor>of_nat t + x\<rfloor> :: u64) = of_nat (t + nat \<lfloor>x\<rfloor>)" unfolding fl by (rule of_int_of_nat_eq)
  ultimately show ?thesis unfolding double_u64_def by (simp only: simp_thms if_True)
qed

lemma next_time_gap:
  assumes "0 \<le> gap s e k" "is_uniform s \<longrightarrow> rate s \<noteq> 0" "t + nat \<lfloor>gap s e k\<rfloor> < 2 ^ 64"
  shows "next_time s (e k) (of_nat t) = Inr (of_nat (t + nat \<lfloor>gap s e k\<rfloor>))"
proof -
  have t: "uint (of_nat t :: u64) = int t" using assms(3) by (simp add: uint_nat unat_of_nat)
  show ?thesis
    using double_u64_nat [OF assms(1,3)] double_u64_nat [of "gap s e k" 0] assms t
    by (cases "is_uniform s") (simp_all add: next_time_def gap_def)
qed

lemma unat_of_nat_u64: "n < 2 ^ 64 \<Longrightarrow> unat (of_nat n :: u64) = n"
  by (simp add: unat_of_nat)

lemma sint_of_nat_small:
  assumes "n < 2 ^ 63"
  shows "sint (of_nat n :: u64) = int n"
proof -
  have "uint (of_nat n :: u64) = int n" using assms by (simp add: uint_nat unat_of_nat)
  then show ?thesis using assms by (simp add: sint_uint signed_take_bit_int_eq_self)
qed

lemma count_type_ok:
  assumes "length counts = 12" "\<forall>c \<in> set counts. 0 \<le> c \<and> c \<le> int k" "k < 2 ^ 31 - 1" "i < 12"
  obtains counts' where "count_type counts i = Inr counts'" "length counts' = 12"
    "\<forall>c \<in> set counts'. 0 \<le> c \<and> c \<le> int (Suc k)"
proof (rule that)
  have c: "0 \<le> counts ! i" "counts ! i \<le> int k" using assms by auto
  moreover have "int k < 2147483647" using assms(3) by simp
  ultimately show "count_type counts i = Inr (counts[i := counts ! i + 1])"
    using assms(1,4) by (simp add: count_type_def get_at_def set_at_def int_ok_def)
  show "\<forall>x \<in> set (counts[i := counts ! i + 1]). 0 \<le> x \<and> x \<le> int (Suc k)"
    using c assms(2) set_update_subset_insert [of counts i "counts ! i + 1"] by fastforce
qed (simp add: assms)

definition gen_at :: "nat \<Rightarrow> (nat \<Rightarrow> rat) \<Rightarrow> (nat \<Rightarrow> rat) \<Rightarrow> tp \<Rightarrow> Schedule \<Rightarrow> ClientRequest list \<Rightarrow> nat \<Rightarrow> int list \<Rightarrow> gen_state" where
  "gen_at off u e now s reqs k counts =
     \<lparr>g_sched = s\<lparr>send_times := send_times s @ map (\<lambda>i. int (sent_at s e (Suc i)) + now) [0..<k], n_requests := of_nat k\<rparr>,
      g_reqs = reqs @ map (planned off u s (length reqs)) [0..<k], g_time = of_nat (sent_at s e k), g_counts = counts\<rparr>"

lemma gen_one_at:
  assumes ok: "sched_ok off u e s" and counts: "length counts = 12" "\<forall>c \<in> set counts. 0 \<le> c \<and> c \<le> int k"
    and k: "length reqs + k < 2 ^ 31 - 1" and T: "sent_at s e (Suc k) < 2 ^ 63"
  obtains counts' where
    "gen_one off (of_nat (length reqs)) now (u k) (e k) (gen_at off u e now s reqs k counts) =
       Inr (gen_at off u e now s reqs (Suc k) counts')"
    "length counts' = 12" "\<forall>c \<in> set counts'. 0 \<le> c \<and> c \<le> int (Suc k)"
proof -
  obtain i where i: "pick_cmd (u k) (cmd_ratios s) 0 = Some i" "i < length (cmd_ratios s)"
    using pick_cmd_total ok unfolding sched_ok_def by blast
  have "off + i < 12" using i(2) ok by (simp add: sched_ok_def)
  with counts k obtain counts' where c: "count_type counts (off + i) = Inr counts'" "length counts' = 12"
    "\<forall>c \<in> set counts'. 0 \<le> c \<and> c \<le> int (Suc k)" using count_type_ok [OF counts] by (metis add_lessD1 add.commute)
  let ?s = "g_sched (gen_at off u e now s reqs k counts)"
  have "next_time ?s = next_time s" by (simp add: fun_eq_iff next_time_def gen_at_def)
  moreover have "next_time s (e k) (of_nat (sent_at s e k)) = Inr (of_nat (sent_at s e (Suc k)))"
    using next_time_gap [of s e k "sent_at s e k"] ok T unfolding sched_ok_def by simp
  ultimately have t: "next_time ?s (e k) (of_nat (sent_at s e k)) = Inr (of_nat (sent_at s e (Suc k)))"
    by simp
  have rid: "unat (of_nat (length reqs) + of_nat k :: u32) = length reqs + k"
    using k by (simp add: unat_of_nat flip: of_nat_add)
  have sint: "sint (of_nat (sent_at s e (Suc k)) :: u64) = int (sent_at s e (Suc k))"
    using T by (rule sint_of_nat_small)
  have run: "run_time (x\<lparr>send_times := a, n_requests := b\<rparr>) i = Inr (if ptype x \<in> {PSP_MB, IX} then reqs_us x ! i else 0)"
    if "ptype x = ptype s" "reqs_us x = reqs_us s" for x a b
    using that i(2) ok by (auto simp: run_time_def get_at_def sched_ok_def split: pkt_type.split)
  have "gen_one off (of_nat (length reqs)) now (u k) (e k) (gen_at off u e now s reqs k counts) =
       Inr (gen_at off u e now s reqs (Suc k) counts')"
    using i(1) c(1) t rid sint run [of s]
    by (simp add: gen_one_def gen_at_def Let_def planned_def new_request_def add.commute del: sent_at.simps)
  with c that show ?thesis by blast
qed

lemma sent_at_mono: "k \<le> n \<Longrightarrow> sent_at s e k \<le> sent_at s e n"
  by (rule lift_Suc_mono_le [of "sent_at s e"]) simp_all

lemma gen_loop_at:
  assumes ok: "sched_ok off u e s" and stop: "unat tend < sent_at s e N" "\<forall>k < N. sent_at s e k \<le> unat tend"
    and N: "length reqs + N < 2 ^ 31" and T: "sent_at s e N < 2 ^ 63"
    and k: "k \<le> N" "N - k \<le> fuel" and counts: "length counts = 12" "\<forall>c \<in> set counts. 0 \<le> c \<and> c \<le> int k"
  shows "\<exists>counts'. gen_loop fuel off (of_nat (length reqs)) now tend u e k (gen_at off u e now s reqs k counts) =
      Inr (gen_at off u e now s reqs N counts')"
  using k counts
proof (induction fuel arbitrary: k counts)
  case (Suc fuel)
  have Tk: "sent_at s e k < 2 ^ 64" using sent_at_mono [OF Suc.prems(1), of s e] T by simp
  then have guard: "g_time (gen_at off u e now s reqs k c) \<le> tend \<longleftrightarrow> sent_at s e k \<le> unat tend" for c
    by (simp add: gen_at_def word_le_nat_alt unat_of_nat)
  show ?case
  proof (cases "k = N")
    case True
    then show ?thesis using guard stop(1) by auto
  next
    case False
    then have lt: "k < N" using Suc.prems(1) by simp
    have "sent_at s e (Suc k) < 2 ^ 63" using sent_at_mono [of "Suc k" N s e] lt T by simp
    moreover have "length reqs + k < 2 ^ 31 - 1" using N lt by simp
    ultimately obtain counts' where
      "gen_one off (of_nat (length reqs)) now (u k) (e k) (gen_at off u e now s reqs k counts) =
         Inr (gen_at off u e now s reqs (Suc k) counts')"
      "length counts' = 12" "\<forall>c \<in> set counts'. 0 \<le> c \<and> c \<le> int (Suc k)"
      using gen_one_at [OF ok Suc.prems(3,4)] by blast
    then show ?thesis using Suc.IH [of "Suc k" counts'] Suc.prems(2) lt guard stop(2) by auto
  qed
next
  case 0
  then have "k = N" by simp
  moreover have "\<not> g_time (gen_at off u e now s reqs N c) \<le> tend" for c
    using stop(1) T by (simp add: gen_at_def word_le_nat_alt unat_of_nat)
  ultimately show ?case by auto
qed

section \<open>Properties\<close>

text \<open>
  The loop that subtracts ratios selects the command whose interval of the cumulative ratios holds
  the draw: index \<open>i\<close> is chosen exactly when the draw is below the sum of the first \<open>i + 1\<close> ratios and below no
  shorter sum, and none is chosen exactly when the draw reaches the sum of all prefixes.
\<close>

theorem pick_cmd_cumulative:
  "(pick_cmd r qs 0 = Some i \<longleftrightarrow>
      i < length qs \<and> r < sum_list (take (Suc i) qs) \<and> list_all (\<lambda>j. sum_list (take (Suc j) qs) \<le> r) [0..<i]) \<and>
   (pick_cmd r qs 0 = None \<longleftrightarrow> list_all (\<lambda>j. sum_list (take (Suc j) qs) \<le> r) [0..<length qs])"
  by (auto simp: pick_cmd_Some pick_cmd_None list_all_iff)

text \<open>
  C30: Generating a schedule ends, and gives exactly the reference schedule: requests are created as
  long as the accumulated interval is within the duration, numbered consecutively after those that exist
  and each of the type its draw selects; the send times are the start plus the accumulated intervals, in
  order, the last one being the first beyond the duration.  Fuel for one iteration per request is enough.
\<close>

theorem gen_schedule_spec:
  assumes "sched_ok (unat off) u e s" "0 \<le> duration s"
    and "nat (duration s) * 10 ^ 9 < sent_at s e N" "\<forall>k < N. sent_at s e k \<le> nat (duration s) * 10 ^ 9"
    and "sent_at s e N < 2 ^ 63" "length reqs + N < 2 ^ 31" "N \<le> fuel"
  shows "gen_schedule fuel off now u e s reqs =
      Inr (0, s\<lparr>send_times := send_times s @ map (\<lambda>k. int (sent_at s e (Suc k)) + now) [0..<N], n_requests := of_nat N\<rparr>,
           reqs @ map (planned (unat off) u s (length reqs)) [0..<N])
    \<and> sorted (map (\<lambda>k. int (sent_at s e (Suc k)) + now) [0..<N])"
proof
  let ?stop = "nat (duration s) * 10 ^ 9"
  have d: "of_int (duration s) * 10 ^ 9 = (of_nat ?stop :: rat)" using assms(2) by simp
  have e: "?stop < 2 ^ 63" using assms(3,5) by simp
  then have "double_u64 (of_int (duration s) * 10 ^ 9) = Inr (of_nat ?stop)"
    using double_u64_nat [of 0 ?stop] unfolding d by simp
  moreover have "unat (of_nat ?stop :: u64) = ?stop" by (rule unat_of_nat_u64) (use e in simp)
  then obtain counts where "gen_loop fuel (unat off) (of_nat (length reqs)) now (of_nat ?stop) u e 0
      (gen_at (unat off) u e now s reqs 0 (replicate 12 0)) = Inr (gen_at (unat off) u e now s reqs N counts)"
    using gen_loop_at [OF assms(1), where tend = "of_nat ?stop" and N = N and k = 0 and reqs = reqs and fuel = fuel and
        now = now and counts = "replicate 12 0"]
      assms(3-) by auto
  moreover have "gen_at (unat off) u e now s reqs 0 (replicate 12 0) =
      \<lparr>g_sched = s, g_reqs = reqs, g_time = 0, g_counts = replicate 12 0\<rparr>"
    using assms(1) by (simp add: gen_at_def sched_ok_def)
  ultimately show "gen_schedule fuel off now u e s reqs =
      Inr (0, s\<lparr>send_times := send_times s @ map (\<lambda>k. int (sent_at s e (Suc k)) + now) [0..<N], n_requests := of_nat N\<rparr>,
           reqs @ map (planned (unat off) u s (length reqs)) [0..<N])"
    by (simp add: gen_schedule_def gen_at_def)
  show "sorted (map (\<lambda>k. int (sent_at s e (Suc k)) + now) [0..<N])"
    by (auto simp: sorted_iff_nth_mono intro: sent_at_mono simp del: sent_at.simps)
qed

text \<open>One second at two requests per second, a quarter of them short.\<close>

definition ex_sched :: Schedule where
  "ex_sched = \<lparr>schedule_id = 7, duration = 1, max_duration = 6, start_time = 0, end_time = 0, last_send_time = 0,
     n_requests = 0, rate = 2, is_uniform = True, ptype = PSP_MB, pkt_size = 0, cmd_ratios = [1/4, 3/4], requests_str = [],
     reqs_us = [1000, 100000], send_times = [], send_index = 0, recv_requests = 0, attempts = 0, ev_count = 0, n_skipped = 0\<rparr>"

definition ex_draw :: "nat \<Rightarrow> rat" where
  "ex_draw k = (if k = 1 then 1/8 else 1/2)"

theorem gen_schedule_spec_witness:
  "gen_schedule 3 1 (10 ^ 6) ex_draw (\<lambda>_. 0) ex_sched [] =
     Inr (0, ex_sched\<lparr>send_times := [501000000, 1001000000, 1501000000], n_requests := 3\<rparr>,
       [\<lparr>cr_id = 0, cr_mbuf = NULL, run_ns = 100000, cr_type = RT_LONG, sending = 0, completed = 0, cr_schedule_id = 7\<rparr>,
        \<lparr>cr_id = 1, cr_mbuf = NULL, run_ns = 1000, cr_type = RT_SHORT, sending = 0, completed = 0, cr_schedule_id = 7\<rparr>,
        \<lparr>cr_id = 2, cr_mbuf = NULL, run_ns = 100000, cr_type = RT_LONG, sending = 0, completed = 0, cr_schedule_id = 7\<rparr>])"
proof -
  have ok: "sched_ok (unat (1 :: u16)) ex_draw (\<lambda>_. 0) ex_sched"
    by (simp add: sched_ok_def ex_sched_def ex_draw_def gap_def)
  have at: "sent_at ex_sched (\<lambda>_. 0) k = k * 500000000" for k
    by (induction k) (simp_all add: gap_def ex_sched_def)
  have dur: "duration ex_sched = 1" by (simp add: ex_sched_def)
  have "\<forall>k < 3. sent_at ex_sched (\<lambda>_. 0) k \<le> nat (duration ex_sched) * 10 ^ 9" by (auto simp: at dur)
  from gen_schedule_spec [OF ok _ _ this, of "[]" 3 "10 ^ 6"] show ?thesis
    by (simp add: at dur del: sent_at.simps)
       (simp add: ex_sched_def upt_rec planned_def new_request_def ReqType_list_def ex_draw_def)
qed

end
