(* ===== verification/Histogram.thy ===== *)
theory Histogram
  imports Std_Map
begin

text \<open>
  The latency histogram of the load generator (\<^verbatim>\<open>include/psp/hist.hh\<close>) and the loop the client reads it
  with.  \<open>std::map\<close> is the list of its entries in the order of keys; its indexing operator inserts a zero
  for a key that is absent.
\<close>

section \<open>Recording values\<close>

definition BUCKET_SIZE :: u64 where "BUCKET_SIZE = 1000"

record Histogram_t =
  h_min :: u64
  h_max :: u64
  h_total :: u64
  h_count :: u64
  buckets :: "(u32 \<times> u64) list"

definition insert_value :: "Histogram_t \<Rightarrow> u64 \<Rightarrow> Histogram_t" where
  "insert_value hist val =
     (let hist = (if h_max hist < val then hist\<lparr>h_max := val\<rparr> else hist);
          hist = (if val < h_min hist \<or> h_min hist = 0 then hist\<lparr>h_min := val\<rparr> else hist);
          hist = hist\<lparr>h_total := h_total hist + val\<rparr>;
          bucket = ucast (val div BUCKET_SIZE);
          (n, m) = map_at 0 (buckets hist) bucket in
      hist\<lparr>buckets := map_put bucket (n + 1) m, h_count := h_count hist + 1\<rparr>)"

definition hist_clear :: Histogram_t where
  "hist_clear = \<lparr>h_min = 0, h_max = 0, h_total = 0, h_count = 0, buckets = []\<rparr>"

section \<open>Reading the buckets\<close>

text \<open>
  The loop \<open>for (i = 0; i < hist.buckets.size(); ++i) if (hist.buckets[i] > 0) ...\<close>, as the indices and counts
  its body sees.  The index is an unsigned integer of \<open>w\<close> bits (64 or 32); as a key it is cut to 32 bits.
  Every read may insert an entry, so that the bound of the loop grows while it runs.
\<close>

fun bucket_loop :: "nat \<Rightarrow> nat \<Rightarrow> nat \<Rightarrow> (u32 \<times> u64) list \<Rightarrow> ((nat \<times> u64) list \<times> (u32 \<times> u64) list) result" where
  "bucket_loop 0 w i m = (if i < length m then Inl OutOfFuel else Inr ([], m))"
| "bucket_loop (Suc fuel) w i m =
     (if i < length m then
        let (n, m) = map_at 0 m (of_nat i) in
        res_bind (bucket_loop fuel w ((i + 1) mod 2 ^ w) m) (\<lambda>(out, m).
          Inr (if 0 < n then (i, n) # out else out, m))
      else Inr ([], m))"

section \<open>What the histogram holds\<close>

definition bucket_of :: "u64 \<Rightarrow> u32" where
  "bucket_of val = ucast (val div BUCKET_SIZE)"

lemma insert_value_fields:
  "h_count (insert_value h v) = h_count h + 1"
  "h_total (insert_value h v) = h_total h + v"
  "h_max (insert_value h v) = max (h_max h) v"
  "h_min (insert_value h v) = (if h_min h = 0 then v else min (h_min h) v)"
  by (auto simp: insert_value_def Let_def max_def min_def split: prod.split)

lemma map_put_put: "map_put k v (map_put k v' m) = map_put k v m"
  by (induction k v' m rule: map_put.induct) auto

lemma insert_value_buckets:
  "buckets (insert_value h v) = tally map_of map_put [bucket_of v] (buckets h)"
  by (simp add: insert_value_def Let_def map_at_def tally_def bucket_of_def map_put_put split: option.split prod.split)

lemma fold_insert_buckets:
  "buckets (fold (\<lambda>v h. insert_value h v) vs h) = tally map_of map_put (map bucket_of vs) (buckets h)"
  by (induction vs arbitrary: h) (simp_all add: insert_value_buckets tally_def)

lemma fold_insert_count:
  "h_count (fold (\<lambda>v h. insert_value h v) vs h) = h_count h + of_nat (length vs)"
  "h_total (fold (\<lambda>v h. insert_value h v) vs h) = h_total h + sum_list vs"
  by (induction vs arbitrary: h) (simp_all add: insert_value_fields)

lemma fold_insert_max:
  "h_max (fold (\<lambda>v h. insert_value h v) vs h) = fold max vs (h_max h)"
  by (induction vs arbitrary: h) (simp_all add: insert_value_fields max.commute)

lemma fold_insert_min:
  "h_min h \<noteq> 0 \<Longrightarrow> 0 \<notin> set vs \<Longrightarrow> h_min (fold (\<lambda>v h. insert_value h v) vs h) = fold min vs (h_min h)"
  by (induction vs arbitrary: h) (simp_all add: insert_value_fields min.commute min_def)

section \<open>The loop over the buckets\<close>

abbreviation nonzero :: "(u32 \<times> u64) list \<Rightarrow> (u32 \<times> u64) list" where
  "nonzero m \<equiv> filter (\<lambda>e. 0 < snd e) m"

lemma map_put_append: "\<forall>e \<in> set pre. fst e < k \<Longrightarrow> map_put k v (pre @ rest) = pre @ map_put k v rest"
  by (induction pre) (auto simp: not_less_iff_gr_or_eq)

lemma map_of_append_less:
  "\<forall>e \<in> set pre. fst e < k \<Longrightarrow> map_of (pre @ rest) k = map_of rest (k :: 'k :: linorder)"
  by (induction pre) auto

text \<open>One read: entry \<open>i\<close> is there afterwards, with the entries of larger keys behind it.\<close>

lemma bucket_read:
  assumes "\<forall>e \<in> set pre. unat (fst e) < i" "map_ok rest" "\<forall>e \<in> set rest. i \<le> unat (fst e)" "rest \<noteq> []"
  obtains n rs where "map_at 0 (pre @ rest) (of_nat i) = (n, pre @ (of_nat i, n) # rs)" "unat (of_nat i :: u32) = i"
    "map_ok rs" "\<forall>x \<in> set rs. Suc i \<le> unat (fst x)" "nonzero rest = (if 0 < n then [(of_nat i, n)] else []) @ nonzero rs"
    "if rs = [] then fst (last rest) = of_nat i else fst (last rest) = fst (last rs)"
proof -
  let ?k = "of_nat i :: u32"
  obtain e rs where rest: "rest = e # rs" using assms(4) by (cases rest) auto
  have "i < 2 ^ 32" using assms(3) rest unsigned_less [of "fst e", where 'a = nat] by (auto intro: le_less_trans)
  then have k: "unat ?k = i" by (simp add: unat_of_nat)
  have pre: "\<forall>e \<in> set pre. fst e < ?k" using assms(1) k by (simp add: word_less_nat_alt)
  show ?thesis
  proof (cases "fst e = ?k")
    case True
    then have "map_at 0 (pre @ rest) ?k = (snd e, pre @ (?k, snd e) # rs)"
      using map_of_append_less [OF pre, of rest] rest by (cases e) (simp add: map_at_def)
    moreover have "\<forall>x \<in> set rs. Suc i \<le> unat (fst x)" "map_ok rs"
      using assms(2) rest True k by (auto simp: map_ok_def word_less_nat_alt)
    ultimately show ?thesis using that [of "snd e" rs] True k rest by (cases e) auto
  next
    case False
    then have ik: "?k < fst e" using assms(3) k rest by (auto simp: word_less_nat_alt le_less)
    then have gt: "\<forall>x \<in> set rest. ?k < fst x" using assms(2) rest by (auto simp: map_ok_def)
    then have "map_of rest ?k = None" by (auto simp: map_of_eq_None_iff)
    moreover have "map_put ?k 0 rest = (?k, 0) # rest" using ik rest by (cases e) simp
    ultimately have "map_at 0 (pre @ rest) ?k = (0, pre @ (?k, 0) # rest)"
      using map_of_append_less [OF pre] map_put_append [OF pre] by (simp add: map_at_def)
    moreover have "\<forall>x \<in> set rest. Suc i \<le> unat (fst x)" using gt k by (simp add: word_less_nat_alt Suc_le_eq)
    ultimately show ?thesis using that [of 0 rest] k assms(2,4) by simp
  qed
qed

lemma bucket_loop_from:
  assumes "length pre = i" "\<forall>e \<in> set pre. unat (fst e) < i" "map_ok rest" "\<forall>e \<in> set rest. i \<le> unat (fst e)"
    and "rest \<noteq> [] \<longrightarrow> unat (fst (last rest)) + 1 < 2 ^ w \<and> unat (fst (last rest)) + 1 - i \<le> fuel"
  shows "\<exists>rest'. bucket_loop fuel w i (pre @ rest) = Inr (map (\<lambda>e. (unat (fst e), snd e)) (nonzero rest), pre @ rest') \<and>
     nonzero rest' = nonzero rest \<and> map_ok rest' \<and> (\<forall>e \<in> set rest'. i \<le> unat (fst e)) \<and>
     (if rest = [] then rest' = [] else rest' \<noteq> [] \<and> fst (last rest') = fst (last rest) \<and>
        i + length rest' = unat (fst (last rest)) + 1)"
  using assms
proof (induction fuel arbitrary: pre i rest)
  case 0
  have "i \<le> unat (fst (last rest))" if "rest \<noteq> []" using 0(4) that by simp
  then have "rest = []" using 0(5) by fastforce
  with 0 show ?case by simp
next
  case (Suc fuel)
  show ?case
  proof (cases "rest = []")
    case False
    let ?k = "of_nat i :: u32"
    obtain n rs where r: "map_at 0 (pre @ rest) ?k = (n, pre @ (?k, n) # rs)" "unat ?k = i" "map_ok rs"
        "\<forall>x \<in> set rs. Suc i \<le> unat (fst x)" "nonzero rest = (if 0 < n then [(?k, n)] else []) @ nonzero rs"
        "if rs = [] then fst (last rest) = ?k else fst (last rest) = fst (last rs)"
      using bucket_read [OF Suc.prems(2-4) False] by metis
    have "i \<le> unat (fst (last rest))" using Suc.prems(4) False by simp
    then have wrap: "(i + 1) mod 2 ^ w = Suc i" using Suc.prems(5) False by simp
    have lt: "i < length (pre @ rest)" using Suc.prems(1) False by simp
    have "rs \<noteq> [] \<longrightarrow> unat (fst (last rs)) + 1 < 2 ^ w \<and> unat (fst (last rs)) + 1 - Suc i \<le> fuel"
      using Suc.prems(5) r(6) False by (auto split: if_splits)
    from Suc.IH [of "pre @ [(?k, n)]" "Suc i" rs, OF _ _ r(3,4) this] Suc.prems(1,2) r(2)
    obtain rs' where IH: "bucket_loop fuel w (Suc i) (pre @ (?k, n) # rs) =
          Inr (map (\<lambda>e. (unat (fst e), snd e)) (nonzero rs), (pre @ [(?k, n)]) @ rs')" "nonzero rs' = nonzero rs" "map_ok rs'"
        "\<forall>x \<in> set rs'. Suc i \<le> unat (fst x)"
        "if rs = [] then rs' = [] else rs' \<noteq> [] \<and> fst (last rs') = fst (last rs) \<and> Suc i + length rs' = unat (fst (last rs)) + 1"
      by (auto simp: less_Suc_eq)
    have ok: "map_ok ((?k, n) # rs')" using IH(3,4) r(2) by (auto simp: map_ok_def word_less_nat_alt Suc_le_eq)
    have "bucket_loop (Suc fuel) w i (pre @ rest) =
        Inr (map (\<lambda>e. (unat (fst e), snd e)) (nonzero rest), pre @ (?k, n) # rs')"
      using IH(1) r(1,2,5) lt wrap by simp
    moreover have "\<forall>e \<in> set ((?k, n) # rs'). i \<le> unat (fst e)" using IH(4) r(2) by (auto intro: Suc_leD)
    ultimately show ?thesis
      using IH(2,5) ok r(2,5,6) False by (intro exI [of _ "(?k, n) # rs'"]) (auto split: if_splits)
  qed (use Suc.prems in simp)
qed

lemma bucket_loop_all:
  assumes "map_ok m" "m \<noteq> []" "unat (fst (last m)) + 1 < 2 ^ w" "unat (fst (last m)) + 1 \<le> fuel"
  obtains m' where "bucket_loop fuel w 0 m = Inr (map (\<lambda>e. (unat (fst e), snd e)) (nonzero m), m')"
    "nonzero m' = nonzero m" "map_ok m'" "m' \<noteq> []" "fst (last m') = fst (last m)" "length m' = unat (fst (last m)) + 1"
  using bucket_loop_from [of "[]" 0 m w fuel] assms by auto

section \<open>Properties\<close>

text \<open>The histogram of a list of values.\<close>

definition hist_of :: "u64 list \<Rightarrow> Histogram_t" where
  "hist_of vs = fold (\<lambda>v h. insert_value h v) vs hist_clear"

lemma hist_of_buckets:
  "map_ok (buckets (hist_of vs))"
  "map_of (buckets (hist_of vs)) k = (if k \<in> bucket_of ` set vs then Some (of_nat (count_list (map bucket_of vs) k)) else None)"
  using sm.tally_ok [of "map bucket_of vs"] sm.tally_find [of "map bucket_of vs" k]
  by (simp_all add: hist_of_def fold_insert_buckets hist_clear_def)

lemma map_ok_entries:
  assumes "map_ok m"
  shows "m = map (\<lambda>k. (k, the (map_of m k))) (sorted_list_of_set (dom (map_of m)))"
proof -
  have d: "distinct (map fst m)" using assms by (rule map_ok_distinct)
  have "sorted (map fst m)" using assms by (simp add: map_ok_def strict_sorted_iff)
  then have "sorted_list_of_set (dom (map_of m)) = map fst m"
    using sorted_list_of_set.idem_if_sorted_distinct [of "map fst m"] d by (simp add: dom_map_of_conv_image_fst)
  moreover have "m = map (\<lambda>k. (k, the (map_of m k))) (map fst m)"
    using d by (auto simp: comp_def intro!: map_idI [symmetric])
  ultimately show ?thesis by simp
qed

lemma count_bucket_pos:
  assumes "k \<in> bucket_of ` set vs" "length vs < 2 ^ 64"
  shows "0 < (of_nat (count_list (map bucket_of vs) k) :: u64)"
proof -
  have "count_list (map bucket_of vs) k \<le> length vs" using count_le_length [of "map bucket_of vs" k] by simp
  moreover have "count_list (map bucket_of vs) k \<noteq> 0" using assms(1) by (simp add: count_list_0_iff)
  ultimately show ?thesis using assms(2) by (simp add: word_less_nat_alt unat_of_nat)
qed

lemma hist_of_entries:
  "buckets (hist_of vs) =
     map (\<lambda>k. (k, of_nat (count_list (map bucket_of vs) k))) (sorted_list_of_set (bucket_of ` set vs))"
proof -
  have dom: "dom (map_of (buckets (hist_of vs))) = bucket_of ` set vs"
    using hist_of_buckets(2) [of vs] by (auto simp: dom_def)
  have "buckets (hist_of vs) = map (\<lambda>k. (k, the (map_of (buckets (hist_of vs)) k))) (sorted_list_of_set (bucket_of ` set vs))"
    using map_ok_entries [OF hist_of_buckets(1) [of vs]] unfolding dom .
  also have "\<dots> = map (\<lambda>k. (k, of_nat (count_list (map bucket_of vs) k))) (sorted_list_of_set (bucket_of ` set vs))"
    by (rule map_cong) (simp_all add: hist_of_buckets(2))
  finally show ?thesis .
qed

lemma nonzero_hist_of: "length vs < 2 ^ 64 \<Longrightarrow> nonzero (buckets (hist_of vs)) = buckets (hist_of vs)"
  unfolding hist_of_entries by (auto simp: filter_id_conv count_bucket_pos)

lemma sorted_le_last: "sorted xs \<Longrightarrow> x \<in> set xs \<Longrightarrow> x \<le> last xs"
  by (induction xs) auto

lemma last_sorted_list_of_set:
  assumes "finite A" "A \<noteq> {}"
  shows "last (sorted_list_of_set A) = Max A"
proof (rule Max_eqI [symmetric])
  show "last (sorted_list_of_set A) \<in> A" using last_in_set [of "sorted_list_of_set A"] assms by simp
qed (use assms sorted_le_last [of "sorted_list_of_set A"] in auto)

lemma last_bucket:
  assumes "vs \<noteq> []" "\<forall>v \<in> set vs. unat v < 1000 * n"
  shows "buckets (hist_of vs) \<noteq> []" "unat (fst (last (buckets (hist_of vs)))) < n"
proof -
  show ne: "buckets (hist_of vs) \<noteq> []" using assms(1) unfolding hist_of_entries by simp
  have "unat (bucket_of v) < n" if "v \<in> set vs" for v
  proof -
    have "unat v div 1000 < n" using assms(2) that by (simp add: less_mult_imp_div_less mult.commute)
    moreover have "unat (bucket_of v) \<le> unat v div 1000"
      by (simp add: bucket_of_def BUCKET_SIZE_def unsigned_ucast_eq unat_div_distrib)
    ultimately show ?thesis by simp
  qed
  moreover have "fst (last (buckets (hist_of vs))) \<in> bucket_of ` set vs"
    using last_in_set [OF ne] unfolding hist_of_entries by auto
  ultimately show "unat (fst (last (buckets (hist_of vs)))) < n" by auto
qed

text \<open>
  What a histogram records: after any list of values the count, the total and the maximum are
  those of the list, the minimum is the smallest value when none is zero, and the bucket of each value
  holds how many values fall into it.
\<close>

theorem histogram_summary:
  "h_count (hist_of vs) = of_nat (length vs) \<and> h_total (hist_of vs) = sum_list vs \<and> h_max (hist_of vs) = fold max vs 0 \<and>
   (vs = [] \<or> 0 \<in> set vs \<or> h_min (hist_of vs) = fold min (tl vs) (hd vs)) \<and>
   map_of (buckets (hist_of vs)) = (\<lambda>k. if count_list (map bucket_of vs) k = 0 then None
      else Some (of_nat (count_list (map bucket_of vs) k)))"
proof -
  have "h_min (hist_of vs) = fold min (tl vs) (hd vs)" if "0 \<notin> set vs" "vs \<noteq> []"
  proof (cases vs)
    case (Cons v ws)
    then show ?thesis using that fold_insert_min [of "insert_value hist_clear v" ws]
      by (simp add: hist_of_def insert_value_fields hist_clear_def)
  qed (use that in simp)
  moreover have "map_of (buckets (hist_of vs)) = (\<lambda>k. if count_list (map bucket_of vs) k = 0 then None
      else Some (of_nat (count_list (map bucket_of vs) k)))"
    by (auto simp: fun_eq_iff hist_of_buckets(2) count_list_0_iff)
  ultimately show ?thesis
    by (auto simp: hist_of_def fold_insert_count fold_insert_max hist_clear_def)
qed

text \<open>
  Reading the buckets through the indexing operator, which inserts an entry for every index that
  is absent, ends and shows the loop's body exactly the buckets that hold values, in order, with their
  counts, whether the index has 32 or 64 bits; a second pass over the enlarged map shows the same.  The
  number of iterations is the largest bucket plus one.
\<close>

theorem bucket_loop_reads_histogram:
  assumes "vs \<noteq> []" "\<forall>v \<in> set vs. unat v < 1000 * fuel" "fuel < 2 ^ 32" "32 \<le> w" "length vs < 2 ^ 64"
  shows "\<exists>m. bucket_loop fuel w 0 (buckets (hist_of vs)) =
        Inr (map (\<lambda>k. (unat k, of_nat (count_list (map bucket_of vs) k))) (sorted_list_of_set (bucket_of ` set vs)), m) \<and>
      length m = Suc (unat (Max (bucket_of ` set vs))) \<and>
      res_bind (bucket_loop fuel w 0 m) (\<lambda>(out, m'). Inr out) = res_bind (bucket_loop fuel w 0 (buckets (hist_of vs))) (\<lambda>(out, m'). Inr out)"
proof -
  let ?m = "buckets (hist_of vs)"
  note l = last_bucket [OF assms(1,2)]
  have "(2 :: nat) ^ 32 \<le> 2 ^ w" using assms(4) by (rule power_increasing) simp
  then have w: "unat (fst (last ?m)) + 1 < 2 ^ w" using l(2) assms(3) by linarith
  have f: "unat (fst (last ?m)) + 1 \<le> fuel" using l(2) by simp
  obtain m where m: "bucket_loop fuel w 0 ?m = Inr (map (\<lambda>e. (unat (fst e), snd e)) (nonzero ?m), m)"
      "nonzero m = nonzero ?m" "map_ok m" "m \<noteq> []" "fst (last m) = fst (last ?m)" "length m = unat (fst (last ?m)) + 1"
    using bucket_loop_all [OF hist_of_buckets(1) l(1) w f] by blast
  obtain m' where m': "bucket_loop fuel w 0 m = Inr (map (\<lambda>e. (unat (fst e), snd e)) (nonzero ?m), m')"
    using bucket_loop_all [OF m(3,4) w [folded m(5)] f [folded m(5)]] unfolding m(2) by blast
  have top: "fst (last ?m) = Max (bucket_of ` set vs)"
    using assms(1) by (simp add: hist_of_entries last_map last_sorted_list_of_set)
  have out: "map (\<lambda>e. (unat (fst e), snd e)) (nonzero ?m) =
      map (\<lambda>k. (unat k, of_nat (count_list (map bucket_of vs) k))) (sorted_list_of_set (bucket_of ` set vs))"
    unfolding nonzero_hist_of [OF assms(5)] unfolding hist_of_entries by (simp only: map_map comp_def fst_conv snd_conv)
  have "length m = Suc (unat (Max (bucket_of ` set vs)))" using m(6) top by simp
  with m(1) m' show ?thesis unfolding out by (intro exI [of _ m]) (simp only: res_bind_simps prod.case simp_thms)
qed

theorem bucket_loop_reads_histogram_witness:
  "\<exists>m. bucket_loop 3 32 0 (buckets (hist_of [500, 2500, 2700])) = Inr ([(0, 1), (2, 2)], m) \<and> length m = 3"
proof -
  have b: "bucket_of 500 = 0" "bucket_of 2500 = 2" "bucket_of 2700 = 2"
    by (simp_all add: bucket_of_def BUCKET_SIZE_def)
  have "sorted_list_of_set {0, 2 :: u32} = [0, 2]"
    using sorted_list_of_set.idem_if_sorted_distinct [of "[0, 2 :: u32]"] by simp
  moreover have "Max {0, 2 :: u32} = 2" by simp
  ultimately show ?thesis
    using bucket_loop_reads_histogram [of "[500, 2500, 2700]" 3 32] by (simp add: b) blast
qed

end
