(* ===== verification/Client_Log.thy ===== *)
theory Client_Log
  imports Client_Request Histogram "HOL-Library.AList"
begin

text \<open>
  What the load generator reports of its requests (\<open>sample_into\<close>, \<open>log_latency\<close>, \<open>log_throughput\<close> and
  \<open>check_hist\<close> of \<^verbatim>\<open>src/c++/apps/client/client.hh\<close>).  A stream is the list of its lines, a line the list of
  its items.  \<open>cpn\<close> is \<open>cycles_per_ns\<close>, a \<open>float\<close> that calibration has made positive; arithmetic with it
  rounds to single precision.  An \<open>unordered_map\<close> is the list of its entries in order of insertion;
  the order it is iterated in is an argument.  \<open>std::sort\<close> is a stable sort here; the order it leaves equal
  elements in is unspecified.
\<close>

section \<open>Latency of a request\<close>

text \<open>A number of cycles divided by a \<open>float\<close> and converted back; the quotient is in the range of
  \<open>uint64_t\<close>.\<close>

definition to_ns :: "rat \<Rightarrow> u64 \<Rightarrow> u64" where
  "to_ns cpn c = of_int (trunc (u64_div_float c cpn))"

definition req_latency :: "rat \<Rightarrow> ClientRequest \<Rightarrow> u64" where
  "req_latency cpn r = (if completed r = 0 then 0x7FFFFFFFFFFFFFFF else to_ns cpn (completed r - sending r))"

definition req_time :: "rat \<Rightarrow> ClientRequest \<Rightarrow> u64" where
  "req_time cpn r = to_ns cpn (sending r)"

section \<open>Sampling\<close>

text \<open>
  The indices the loop of \<open>sample_into\<close> visits in a vector of \<open>n\<close> elements.  \<open>int spacing\<close> and \<open>unsigned int i\<close>
  have 32 bits, the sum is unsigned.  A loop that has not ended after \<open>n\<close> turns has come back to an index and
  never ends.
\<close>

fun sample_idx :: "nat \<Rightarrow> u32 \<Rightarrow> u32 \<Rightarrow> nat \<Rightarrow> nat list result" where
  "sample_idx 0 spacing i n = (if unat i < n - 1 then Inl OutOfFuel else Inr [])"
| "sample_idx (Suc fuel) spacing i n =
     (if unat i < n - 1
      then res_bind (sample_idx fuel spacing (i + spacing) n) (\<lambda>is. Inr (unat i # is))
      else Inr [])"

definition sample_into :: "('a \<Rightarrow> u64) \<Rightarrow> ('a \<Rightarrow> u64) \<Rightarrow> nat \<Rightarrow> 'a list \<Rightarrow> 'a list \<Rightarrow> 'a list result" where
  "sample_into lat_get time_get n from to =
     (if from = [] then Inr to
      else if length from \<le> n then Inr (sort_key time_get (to @ from))
      else if n = 0 then Inl DivByZero
      else
        let from = sort_key lat_get from;
            spacing = of_nat (length from div n) :: u32;
            spacing = (if spacing = 0 then 1 else spacing);
            to = to @ [from ! 0] in
        res_bind (sample_idx (length from) spacing spacing (length from)) (\<lambda>is.
          let to = to @ map (\<lambda>i. from ! i) is;
              to = to @ [from ! (length from - 1)] in
          Inr (sort_key time_get to)))"

section \<open>Latencies\<close>

definition group_step :: "ClientRequest \<Rightarrow> (ReqType \<times> ClientRequest list) list \<Rightarrow> (ReqType \<times> ClientRequest list) list" where
  "group_step r m =
     (let m = (if map_of m (cr_type r) = None then AList.update (cr_type r) [] m else m) in
      AList.update (cr_type r) (the (map_of m (cr_type r)) @ [r]) m)"

definition group_by_type :: "ClientRequest list \<Rightarrow> (ReqType \<times> ClientRequest list) list" where
  "group_by_type reqs = fold group_step reqs []"

fun log_requests :: "rat \<Rightarrow> int \<Rightarrow> ClientRequest list \<Rightarrow> log_item list list result" where
  "log_requests cpn wid [] = Inr []"
| "log_requests cpn wid (r # rs) =
     res_bind (log_request cpn r) (\<lambda>row. res_bind (log_requests cpn wid rs) (\<lambda>rows. Inr ((LInt wid # row) # rows)))"

fun sample_groups :: "rat \<Rightarrow> nat \<Rightarrow> (ReqType \<times> ClientRequest list) list \<Rightarrow> ClientRequest list \<Rightarrow> ClientRequest list result" where
  "sample_groups cpn n [] to = Inr to"
| "sample_groups cpn n ((ty, rs) # gs) to =
     res_bind (sample_into (req_latency cpn) (req_time cpn) n rs to) (sample_groups cpn n gs)"

definition insert_latency :: "rat \<Rightarrow> ClientRequest \<Rightarrow> Histogram_t \<Rightarrow> Histogram_t" where
  "insert_latency cpn r h = insert_value h (to_ns cpn (completed r - sending r))"

text \<open>The two lines of a histogram; the loop of the second has an index of 32 bits.\<close>

definition hist_lines :: "nat \<Rightarrow> string \<Rightarrow> Histogram_t \<Rightarrow> (log_item list list \<times> Histogram_t) result" where
  "hist_lines fuel name h =
     res_bind (bucket_loop fuel 64 0 (buckets h)) (\<lambda>(keys, m).
     res_bind (bucket_loop fuel 32 0 m) (\<lambda>(counts, m).
       Inr ([map LStr [''TYPE'', ''MIN'', ''MAX'', ''COUNT'', ''TOTAL''] @ map (\<lambda>(i, n). LInt (int i * 1000)) keys,
             LStr name # map (\<lambda>x. LInt (uint x)) [h_min h, h_max h, h_count h, h_total h] @ map (\<lambda>(i, n). LInt (uint n)) counts],
            h\<lparr>buckets := m\<rparr>)))"

text \<open>
  The percentiles \<open>check_hist\<close> prints: the name, the part of the count and the index of the request, which
  is the last index times the first number divided by the second.
\<close>

definition percentiles :: "(string \<times> rat \<times> u64 \<times> u64) list" where
  "percentiles = [(''25th'', f64 (25/100), 25, 100), (''50th'', f64 (1/2), 1, 2), (''75th'', f64 (75/100), 75, 100),
     (''90th'', f64 (9/10), 90, 100), (''99th'', f64 (99/100), 99, 100), (''99.9th'', f64 (999/1000), 999, 1000),
     (''99.99th'', f64 (9999/10000), 9999, 10000)]"

text \<open>The products and comparisons are in double precision; a \<open>double\<close> has every \<open>uint32_t\<close>.\<close>

fun check_percentiles :: "rat \<Rightarrow> ClientRequest list \<Rightarrow> u64 \<Rightarrow> u64 \<Rightarrow> u32 \<Rightarrow> u32 \<Rightarrow> u64 \<Rightarrow> (string \<times> rat \<times> u64 \<times> u64) list
    \<Rightarrow> log_item list list result" where
  "check_percentiles cpn reqs nr cnt c i b [] = Inr []"
| "check_percentiles cpn reqs nr cnt c i b ((name, part, num, den) # ps) =
     res_bind
       (if f64 (f64 (of_int (uint cnt)) * part) \<le> f64 (of_int (uint (ucast c + b))) \<and>
           of_int (uint c) < f64 (f64 (of_int (uint cnt)) * part) then
          res_bind (get_at reqs (uint (nr * num div den))) (\<lambda>r.
            Inr [[LStr name, LNum (of_int (uint (i * 1000 + (i + 1) * 1000)) / 2),
                  LNum (u64_div_float (completed r - sending r) cpn)]])
        else Inr []) (\<lambda>rows.
       res_bind (check_percentiles cpn reqs nr cnt c i b ps) (\<lambda>rest. Inr (rows @ rest)))"

fun check_loop :: "rat \<Rightarrow> ClientRequest list \<Rightarrow> u64 \<Rightarrow> u64 \<Rightarrow> u32 \<Rightarrow> (nat \<times> u64) list \<Rightarrow> (u32 \<times> log_item list list) result" where
  "check_loop cpn reqs nr cnt c [] = Inr (c, [])"
| "check_loop cpn reqs nr cnt c ((i, b) # bs) =
     res_bind (check_percentiles cpn reqs nr cnt c (of_nat i) b percentiles) (\<lambda>rows.
     res_bind (check_loop cpn reqs nr cnt (c + ucast b) bs) (\<lambda>(c, rest). Inr (c, rows @ rest)))"

text \<open>The result carries the lines printed and the histogram, whose map the loop may enlarge.\<close>

definition check_hist :: "nat \<Rightarrow> rat \<Rightarrow> Histogram_t \<Rightarrow> ClientRequest list \<Rightarrow> u64 \<Rightarrow> (int \<times> log_item list list \<times> Histogram_t) result" where
  "check_hist fuel cpn h reqs nr =
     res_bind (get_at reqs 0) (\<lambda>r0.
     res_bind (bucket_loop fuel 32 0 (buckets h)) (\<lambda>(bs, m).
     res_bind (check_loop cpn reqs nr (h_count h) 0 bs) (\<lambda>(c, rows).
     psp_true EINVAL (ucast c = h_count h)
       (res_bind (get_at reqs (uint nr)) (\<lambda>rn.
          Inr (0, [[LInt (uint (h_min h)), LNum (u64_div_float (completed r0 - sending r0) cpn)]] @ rows @
               [[LInt (uint (h_max h)), LNum (u64_div_float (completed rn - sending rn) cpn)],
                [LInt (uint c), LInt (uint (nr + 1))]], h\<lparr>buckets := m\<rparr>))))))"

text \<open>One histogram per request type.\<close>

fun log_types :: "nat \<Rightarrow> rat \<Rightarrow> (ReqType \<times> ClientRequest list) list \<Rightarrow> Histogram_t
    \<Rightarrow> (log_item list list \<times> log_item list list \<times> Histogram_t) result" where
  "log_types fuel cpn [] h = Inr ([], [], h)"
| "log_types fuel cpn ((ty, reqs) # gs) h =
     (let h = fold (insert_latency cpn) reqs hist_clear in
      if h_count h = 0 then log_types fuel cpn gs h
      else
        res_bind (get_at req_type_str (int (ReqType_code ty))) (\<lambda>name.
        res_bind (hist_lines fuel name h) (\<lambda>(rows, h).
        psp_true EINVAL (h_count h = of_nat (length reqs))
          (res_bind (check_hist fuel cpn h reqs (of_nat (length reqs) - 1)) (\<lambda>(_, chk, h).
           res_bind (log_types fuel cpn gs h) (\<lambda>(rest, chks, h). Inr (rows @ rest, chk @ chks, h)))))))"

definition log_histograms :: "nat \<Rightarrow> rat \<Rightarrow> ((ReqType \<times> ClientRequest list) list \<Rightarrow> (ReqType \<times> ClientRequest list) list) \<Rightarrow>
    ClientRequest list \<Rightarrow> (int \<times> log_item list list \<times> log_item list list \<times> Histogram_t) result" where
  "log_histograms fuel cpn ord reqs =
     (let pruned = sort_key (req_latency cpn) (drop (length reqs div 10) reqs);
          done = filter (\<lambda>r. completed r \<noteq> 0) pruned;
          h = fold (insert_latency cpn) done hist_clear in
      if h_count h = 0 then Inr (-1, [], [], h)
      else
        res_bind (hist_lines fuel ''UNKNOWN'' h) (\<lambda>(rows, h).
        res_bind (check_hist fuel cpn h pruned (h_count h - 1)) (\<lambda>(_, chk, h).
        res_bind (log_types fuel cpn (ord (group_by_type done)) h) (\<lambda>(rest, chks, h).
          Inr (0, rows @ rest, chk @ chks, h)))))"

text \<open>The lines of the two output files, and the lines printed.\<close>

definition log_latency :: "nat \<Rightarrow> rat \<Rightarrow> ((ReqType \<times> ClientRequest list) list \<Rightarrow> (ReqType \<times> ClientRequest list) list) \<Rightarrow>
    int \<Rightarrow> ClientRequest list \<Rightarrow> int \<Rightarrow> Histogram_t
    \<Rightarrow> (int \<times> log_item list list \<times> log_item list list \<times> log_item list list \<times> Histogram_t) result" where
  "log_latency fuel cpn ord wid reqs downsample h =
     (if length reqs = 0 then Inr (ENOENT, [], [], [], h)
      else if 0 < downsample then
        res_bind (sample_groups cpn (nat downsample) (ord (group_by_type reqs)) []) (\<lambda>rs.
        res_bind (log_requests cpn wid rs) (\<lambda>rows. Inr (0, rows, [], [], h)))
      else if downsample = 0 then
        res_bind (log_requests cpn wid reqs) (\<lambda>rows. Inr (0, rows, [], [], h))
      else if downsample = -1 then
        res_bind (log_histograms fuel cpn ord reqs) (\<lambda>(r, hrows, chk, h). Inr (r, [], hrows, chk, h))
      else Inr (0, [], [], [], h))"

section \<open>Throughput\<close>

text \<open>
  The epoch of a request: the \<open>float\<close> \<open>(completed / cycles_per_ns - first_cplted) / epoch_size_ns\<close>, each
  integer converted and each operation rounded, then converted to the \<open>int\<close> of the key.
\<close>

definition epoch_of :: "rat \<Rightarrow> u64 \<Rightarrow> u64 \<Rightarrow> ClientRequest \<Rightarrow> int result" where
  "epoch_of cpn epoch_size_ns first r =
     (let x = f32 (f32 (u64_div_float (completed r) cpn - f32 (of_int (uint first))) / f32 (of_int (uint epoch_size_ns)));
          z = trunc x in
      if epoch_size_ns = 0 \<or> \<not> int_ok z then Inl SignedOverflow else Inr z)"

fun count_epochs :: "rat \<Rightarrow> u64 \<Rightarrow> u64 \<Rightarrow> ClientRequest list \<Rightarrow> ((ReqType \<times> int) \<times> u64) list
    \<Rightarrow> ((ReqType \<times> int) \<times> u64) list result" where
  "count_epochs cpn es first [] m = Inr m"
| "count_epochs cpn es first (r # rs) m =
     (if completed r = 0 then count_epochs cpn es first rs m
      else
        res_bind (epoch_of cpn es first r) (\<lambda>ep.
          let k = (cr_type r, ep);
              m = (if map_of m k = None then AList.update k 0 m else m) in
          count_epochs cpn es first rs (AList.update k (the (map_of m k) + 1) m)))"

fun epoch_rows :: "int \<Rightarrow> u64 \<Rightarrow> ((ReqType \<times> int) \<times> u64) list \<Rightarrow> log_item list list result" where
  "epoch_rows wid es [] = Inr []"
| "epoch_rows wid es (((ty, ep), n) # m) =
     res_bind (get_at req_type_str (int (ReqType_code ty))) (\<lambda>name.
     res_bind (epoch_rows wid es m) (\<lambda>rows.
       Inr ([LInt wid, LInt (uint (of_int ep * es)), LStr name, LInt (uint n)] # rows)))"

definition log_throughput :: "rat \<Rightarrow> (((ReqType \<times> int) \<times> u64) list \<Rightarrow> ((ReqType \<times> int) \<times> u64) list) \<Rightarrow> int \<Rightarrow>
    ClientRequest list \<Rightarrow> u64 \<Rightarrow> u64 \<Rightarrow> (int \<times> log_item list list) result" where
  "log_throughput cpn ord wid reqs es first =
     res_bind (count_epochs cpn es first reqs []) (\<lambda>m.
     res_bind (epoch_rows wid es (ord m)) (\<lambda>rows. Inr (0, rows)))"

section \<open>Samples\<close>

text \<open>The indices without a bound on their width; in a vector of less than \<open>2 ^ 31\<close> elements they are those of
  the loop.\<close>

function sample_steps :: "nat \<Rightarrow> nat \<Rightarrow> nat \<Rightarrow> nat list" where
  "sample_steps spacing i n = (if 0 < spacing \<and> i < n - 1 then i # sample_steps spacing (i + spacing) n else [])"
  by auto
termination by (relation "measure (\<lambda>(spacing, i, n). n - i)") auto

declare sample_steps.simps [simp del]

lemma sample_idx_steps:
  assumes "0 < unat sp" "unat sp < 2 ^ 31" "n < 2 ^ 31" "n \<le> unat i + fuel"
  shows "sample_idx fuel sp i n = Inr (sample_steps (unat sp) (unat i) n)"
  using assms(4)
proof (induction fuel arbitrary: i)
  case 0
  then show ?case by (subst sample_steps.simps) simp
next
  case (Suc fuel)
  show ?case
  proof (cases "unat i < n - 1")
    case True
    have "unat i + unat sp < 2 ^ 32" using True assms(2,3) by simp
    then have i: "unat (i + sp) = unat i + unat sp" by (subst unat_word_ariths) simp
    have "sample_idx fuel sp (i + sp) n = Inr (sample_steps (unat sp) (unat i + unat sp) n)"
      using Suc.IH [of "i + sp"] Suc.prems assms(1) i by simp
    then show ?thesis using True assms(1) by (subst sample_steps.simps) simp
  next
    case False
    then show ?thesis by (subst sample_steps.simps) simp
  qed
qed

lemma sample_steps_props:
  assumes "0 < sp"
  shows "length (sample_steps sp i n) = (if i < n - 1 then (n - 2 - i) div sp + 1 else 0) \<and>
     sorted_wrt (<) (sample_steps sp i n) \<and> (\<forall>x \<in> set (sample_steps sp i n). i \<le> x \<and> x < n - 1)"
  using assms
proof (induction sp i n rule: sample_steps.induct)
  case (1 sp i n)
  show ?case
  proof (cases "i < n - 1")
    case True
    have e: "sample_steps sp i n = i # sample_steps sp (i + sp) n" using True "1.prems" by (subst sample_steps.simps) simp
    have "(n - 2 - i) div sp = (if i + sp < n - 1 then (n - 2 - (i + sp)) div sp + 1 else 0)"
    proof (cases "i + sp < n - 1")
      case le: True
      then have "n - 2 - i = (n - 2 - (i + sp)) + sp" by simp
      then have "(n - 2 - i) div sp = (n - 2 - (i + sp)) div sp + 1" using "1.prems" by (metis div_add_self2 neq0_conv)
      then show ?thesis using le by simp
    next
      case False
      then have "n - 2 - i < sp" using True by linarith
      then show ?thesis using False by simp
    qed
    with 1 True show ?thesis unfolding e by fastforce
  next
    case False
    then have "sample_steps sp i n = []" by (subst sample_steps.simps) simp
    then show ?thesis using False by simp
  qed
qed

lemma mset_nths:
  assumes "distinct is" "\<forall>i \<in> set is. i < length xs"
  shows "mset (map (\<lambda>i. xs ! i) is) \<subseteq># mset xs"
proof -
  have "mset_set (set is) \<subseteq># mset_set {..<length xs}" using assms(2) by (intro subset_imp_msubset_mset_set) auto
  then have "image_mset ((!) xs) (mset_set (set is)) \<subseteq># image_mset ((!) xs) (mset_set {..<length xs})"
    by (rule image_mset_subseteq_mono)
  moreover have "image_mset ((!) xs) (mset_set {..<length xs}) = mset xs"
    by (metis map_nth mset_map mset_set_upto_eq_mset_upto)
  ultimately show ?thesis using assms(1) by (simp add: mset_set_set)
qed

lemma sample_size:
  fixes n len :: nat
  assumes "0 < n" "n < len"
  shows "n \<le> (len - 2) div (len div n) + 2" "(len - 2) div (len div n) + 2 \<le> 2 * n"
proof -
  define q where "q = len div n"
  define r where "r = len mod n"
  have len: "len = q * n + r" and r: "r < n" using assms(1) by (simp_all add: q_def r_def)
  have q: "0 < q" using assms by (simp add: q_def div_greater_zero_iff)
  have "n \<le> (len - 2) div q + 2"
  proof (cases "2 \<le> n")
    case True
    obtain k where k: "n = k + 2" using True by (metis add.commute le_Suc_ex)
    have "(n - 2) * q \<le> len - 2" unfolding len k using q by (simp add: algebra_simps)
    then have "n - 2 \<le> (len - 2) div q" using q by (simp add: less_eq_div_iff_mult_less_eq)
    then show ?thesis by simp
  qed simp
  moreover have "len - 2 < (2 * n - 1) * q"
  proof -
    have "n - 1 \<le> (n - 1) * q" using q by simp
    moreover have "(2 * n - 1) * q = q * n + (n - 1) * q" using assms(1) by (cases n) (simp_all add: algebra_simps)
    ultimately have "q * n + (n - 1) \<le> (2 * n - 1) * q" by simp
    then show ?thesis using len r assms by linarith
  qed
  then have "(len - 2) div q < 2 * n - 1" by (rule less_mult_imp_div_less)
  then have "(len - 2) div q + 2 \<le> 2 * n" using assms(1) by linarith
  ultimately show "n \<le> (len - 2) div (len div n) + 2" "(len - 2) div (len div n) + 2 \<le> 2 * n"
    by (simp_all add: q_def)
qed

text \<open>
  C38: Sampling more than \<open>n\<close> requests selects between \<open>n\<close> and \<open>2 n\<close> of them, each at most once,
  among them one of least and one of greatest latency, appends them to the destination and leaves it in
  the order of times.
\<close>

theorem sample_into_bounds:
  assumes "0 < n" "n < length from" "length from < 2 ^ 31"
  shows "\<exists>sel. sample_into lat_get time_get n from to = Inr (sort_key time_get (to @ sel)) \<and>
     n \<le> length sel \<and> length sel \<le> 2 * n \<and> mset sel \<subseteq># mset from \<and>
     (\<forall>x \<in> set from. lat_get (hd sel) \<le> lat_get x \<and> lat_get x \<le> lat_get (last sel))"
proof -
  define srt where "srt = sort_key lat_get from"
  define len where "len = length srt"
  define idx where "idx = 0 # sample_steps (len div n) (len div n) len @ [len - 1]"
  have len: "len = length from" "2 \<le> len" using assms by (simp_all add: len_def srt_def)
  have sp: "0 < len div n" using assms len by (simp add: div_greater_zero_iff)
  note si = sample_steps_props [OF sp, of "len div n" len]
  have idx: "distinct idx" "\<forall>i \<in> set idx. i < length srt"
    using si sp len by (auto simp: idx_def strict_sorted_iff len_def)
  have "length idx = (len - 2) div (len div n) + 2"
  proof (cases "len div n < len - 1")
    case True
    then have "len - 2 = (len - 2 - len div n) + len div n" by simp
    then have "(len - 2) div (len div n) = (len - 2 - len div n) div (len div n) + 1" using sp by (metis div_add_self2 neq0_conv)
    then show ?thesis using si True by (simp add: idx_def)
  next
    case False
    then have "(len - 2) div (len div n) = 0" using len by simp
    then show ?thesis using si False by (simp add: idx_def)
  qed
  then have bounds: "n \<le> length idx" "length idx \<le> 2 * n" using sample_size [of n len] assms len by simp_all
  let ?sel = "map (\<lambda>i. srt ! i) idx"
  have "mset ?sel \<subseteq># mset from" using mset_nths [OF idx] by (simp add: srt_def)
  moreover have "lat_get (srt ! 0) \<le> lat_get x \<and> lat_get x \<le> lat_get (srt ! (len - 1))" if x: "x \<in> set from" for x
  proof -
    obtain j where j: "j < len" "x = srt ! j" using x by (metis in_set_conv_nth len_def set_sort srt_def)
    have s: "sorted (map lat_get srt)" by (simp add: srt_def)
    have "0 < length srt" using len(2) unfolding len_def by linarith
    then have "lat_get (srt ! 0) \<le> lat_get (srt ! j)" using sorted_nth_mono [OF s, of 0 j] j by (simp add: len_def)
    moreover have "lat_get (srt ! j) \<le> lat_get (srt ! (len - 1))" using sorted_nth_mono [OF s, of j "len - 1"] j by (simp add: len_def)
    ultimately show ?thesis using j by simp
  qed
  moreover have "sample_into lat_get time_get n from to = Inr (sort_key time_get (to @ ?sel))"
  proof -
    have "len div n < 2 ^ 31" using len assms(3) by (meson div_le_dividend le_less_trans)
    then have u: "unat (of_nat (len div n) :: u32) = len div n" by (simp add: unat_of_nat)
    then have "(of_nat (len div n) :: u32) \<noteq> 0" using sp by (metis less_numeral_extra(3) unat_0)
    moreover have "sample_idx len (of_nat (len div n)) (of_nat (len div n)) len =
        Inr (sample_steps (len div n) (len div n) len)"
      using sample_idx_steps [of "of_nat (len div n)" len "of_nat (len div n)" len] u sp len assms(3)
        \<open>len div n < 2 ^ 31\<close> by simp
    ultimately show ?thesis
      using assms(1,2) len by (auto simp: sample_into_def Let_def idx_def srt_def [symmetric] len_def)
  qed
  ultimately show ?thesis using bounds by (intro exI [of _ ?sel]) (auto simp: idx_def)
qed

theorem sample_into_bounds_witness:
  "\<exists>sel. sample_into id id 2 [5, 3, 9, 1 :: u64] [4] = Inr (sort_key id ([4] @ sel)) \<and> 2 \<le> length sel \<and> length sel \<le> 4"
  using sample_into_bounds [of 2 "[5, 3, 9, 1 :: u64]" id id "[4]"] by auto

section \<open>Groups\<close>

lemma group_by_type_snoc: "group_by_type (reqs @ [r]) = group_step r (group_by_type reqs)"
  by (simp add: group_by_type_def)

lemma group_by_type_distinct: "distinct (map fst (group_by_type reqs))"
proof (induction reqs rule: rev_induct)
  case (snoc r reqs)
  then show ?case by (auto simp: group_by_type_snoc group_step_def Let_def intro!: distinct_update)
qed (simp add: group_by_type_def)

lemma group_by_type_spec:
  "map_of (group_by_type reqs) = (\<lambda>ty. if ty \<in> cr_type ` set reqs then Some (filter (\<lambda>r. cr_type r = ty) reqs) else None)"
proof (induction reqs rule: rev_induct)
  case (snoc r reqs)
  have "filter (\<lambda>r'. cr_type r' = cr_type r) reqs = []" if "cr_type r \<notin> cr_type ` set reqs"
    using that by (auto simp: filter_empty_conv image_iff)
  then show ?case by (auto simp: group_by_type_snoc group_step_def Let_def update_conv' snoc fun_eq_iff simp del: map_of_eq_Some_iff)
qed (simp add: group_by_type_def)

lemma group_by_type_entry:
  assumes "(ty, rs) \<in> set (group_by_type reqs)"
  shows "rs \<noteq> []" "set rs \<subseteq> set reqs" "length rs \<le> length reqs" "ty \<in> cr_type ` set reqs"
proof -
  have "map_of (group_by_type reqs) ty = Some rs" using group_by_type_distinct assms by (rule map_of_is_SomeI)
  then have rs: "rs = filter (\<lambda>r. cr_type r = ty) reqs" and ty: "ty \<in> cr_type ` set reqs"
    by (auto simp: group_by_type_spec simp del: map_of_eq_Some_iff split: if_splits)
  from ty show "ty \<in> cr_type ` set reqs" .
  show "rs \<noteq> []" using ty unfolding rs by (auto simp: filter_empty_conv)
  show "set rs \<subseteq> set reqs" "length rs \<le> length reqs" unfolding rs by auto
qed

section \<open>Reading a histogram repeatedly\<close>

definition entries :: "u64 list \<Rightarrow> (nat \<times> u64) list" where
  "entries vs = map (\<lambda>k. (unat k, of_nat (count_list (map bucket_of vs) k))) (sorted_list_of_set (bucket_of ` set vs))"

text \<open>Values a histogram can be read with \<open>fuel\<close> iterations of, and the maps that hold their buckets.\<close>

definition readable :: "nat \<Rightarrow> u64 list \<Rightarrow> bool" where
  "readable fuel vs \<longleftrightarrow> vs \<noteq> [] \<and> (\<forall>v \<in> set vs. unat v < 1000 * fuel) \<and> fuel < 2 ^ 32 \<and> length vs < 2 ^ 32"

definition shows_buckets :: "u64 list \<Rightarrow> (u32 \<times> u64) list \<Rightarrow> bool" where
  "shows_buckets vs m \<longleftrightarrow> map_ok m \<and> m \<noteq> [] \<and> fst (last m) = fst (last (buckets (hist_of vs))) \<and> nonzero m = buckets (hist_of vs)"

lemma shows_buckets_init: "readable fuel vs \<Longrightarrow> shows_buckets vs (buckets (hist_of vs))"
  using last_bucket(1) [of vs fuel] hist_of_buckets(1) [of vs] nonzero_hist_of [of vs]
  by (simp add: shows_buckets_def readable_def)

lemma bucket_loop_shows:
  assumes "readable fuel vs" "shows_buckets vs m" "32 \<le> w"
  obtains m' where "bucket_loop fuel w 0 m = Inr (entries vs, m')" "shows_buckets vs m'"
proof -
  let ?l = "unat (fst (last m))"
  have l: "?l < fuel" using last_bucket(2) [of vs fuel] assms(1,2) by (simp add: readable_def shows_buckets_def)
  have "(2 :: nat) ^ 32 \<le> 2 ^ w" using assms(3) by (rule power_increasing) simp
  then have "?l + 1 < 2 ^ w" "?l + 1 \<le> fuel" using l assms(1) by (auto simp: readable_def)
  then obtain m' where "bucket_loop fuel w 0 m = Inr (map (\<lambda>e. (unat (fst e), snd e)) (nonzero m), m')"
      "nonzero m' = nonzero m" "map_ok m'" "m' \<noteq> []" "fst (last m') = fst (last m)"
    using bucket_loop_all [of m w fuel] assms(2) unfolding shows_buckets_def by blast
  then show ?thesis using that [of m'] assms(2) by (simp add: shows_buckets_def entries_def hist_of_entries comp_def)
qed

definition hist_rows :: "string \<Rightarrow> u64 list \<Rightarrow> log_item list list" where
  "hist_rows name vs =
     [map LStr [''TYPE'', ''MIN'', ''MAX'', ''COUNT'', ''TOTAL''] @ map (\<lambda>(i, n). LInt (int i * 1000)) (entries vs),
      LStr name # map (\<lambda>x. LInt (uint x)) [h_min (hist_of vs), h_max (hist_of vs), of_nat (length vs), sum_list vs] @
        map (\<lambda>(i, n). LInt (uint n)) (entries vs)]"

lemma hist_of_count: "h_count (hist_of vs) = of_nat (length vs)" "h_total (hist_of vs) = sum_list vs"
  by (simp_all add: hist_of_def fold_insert_count hist_clear_def)

lemma hist_lines_ok:
  assumes "readable fuel vs" "shows_buckets vs m"
  obtains m' where "hist_lines fuel name ((hist_of vs)\<lparr>buckets := m\<rparr>) = Inr (hist_rows name vs, (hist_of vs)\<lparr>buckets := m'\<rparr>)"
    "shows_buckets vs m'"
proof -
  obtain m1 where 1: "bucket_loop fuel 64 0 m = Inr (entries vs, m1)" "shows_buckets vs m1"
    by (rule bucket_loop_shows [OF assms, of 64]) simp
  obtain m2 where 2: "bucket_loop fuel 32 0 m1 = Inr (entries vs, m2)" "shows_buckets vs m2"
    by (rule bucket_loop_shows [OF assms(1) 1(2), of 32]) simp
  show ?thesis using that [of m2] 1 2 by (simp add: hist_lines_def hist_rows_def hist_of_count)
qed

section \<open>Checking a histogram\<close>

text \<open>A count \<open>P\<close> is crossed between two cumulative counts.\<close>

definition crosses :: "nat \<Rightarrow> nat \<Rightarrow> rat \<Rightarrow> bool" where
  "crosses x y P \<longleftrightarrow> of_nat x < P \<and> P \<le> of_nat y"

definition crossed :: "u64 \<Rightarrow> nat \<Rightarrow> nat \<Rightarrow> (string \<times> rat \<times> u64 \<times> u64) list \<Rightarrow> nat" where
  "crossed cnt x y ps =
     length (filter (\<lambda>(name, part, num, den). crosses x y (f64 (f64 (of_int (uint cnt)) * part))) ps)"

lemma crossed_add:
  assumes "x \<le> y" "y \<le> z"
  shows "crossed cnt x y ps + crossed cnt y z ps = crossed cnt x z ps"
proof (induction ps)
  case (Cons p ps)
  have "(of_nat x :: rat) \<le> of_nat y" "(of_nat y :: rat) \<le> of_nat z" using assms by (simp_all only: of_nat_le_iff)
  with Cons show ?case by (auto simp: crossed_def crosses_def)
qed (simp add: crossed_def)

definition pct_ok :: "string \<times> rat \<times> u64 \<times> u64 \<Rightarrow> bool" where
  "pct_ok p \<longleftrightarrow> (case p of (name, part, num, den) \<Rightarrow> 0 < part \<and> part \<le> 1 \<and> num \<le> den \<and> 0 < den \<and> den \<le> 10000)"

lemma percentiles_ok: "list_all pct_ok percentiles"
proof -
  have "f64 (a / b) \<le> 1 \<and> 0 < f64 (a / b)" if "0 < a" "a \<le> b" for a b :: rat
    using that fl_pos [of "a / b" 53] fl_le [of "a / b" 1 53] by (simp add: f64_def)
  then show ?thesis by (simp add: percentiles_def pct_ok_def)
qed

lemma pct_index:
  assumes "pct_ok (name, part, num, den)" "unat nr < 2 ^ 32" "unat nr < n"
  shows "unat (nr * num div den) < n"
proof -
  have num: "unat num \<le> unat den" "unat den \<le> 10000" "0 < unat den"
    using assms(1) by (simp_all add: pct_ok_def word_le_nat_alt word_less_nat_alt)
  have "unat nr * unat num \<le> 2 ^ 32 * 10000" using assms(2) num by (intro mult_le_mono) simp_all
  then have m: "unat (nr * num) = unat nr * unat num" by (subst unat_word_ariths) simp
  have "unat nr * unat num div unat den \<le> unat nr * unat den div unat den" using num(1) by (intro div_le_mono) simp
  then have "unat nr * unat num div unat den \<le> unat nr" using num(3) by simp
  then show ?thesis using m assms(3) by (simp add: unat_div_distrib)
qed

lemma get_at_uint:
  assumes "unat i < length xs"
  shows "get_at xs (uint i) = Inr (xs ! unat i)"
proof -
  have "uint i < int (length xs)" using assms by (simp only: uint_nat of_nat_less_iff)
  then show ?thesis by (simp add: get_at_def)
qed

lemma of_int_uint_nat: "(of_int (uint x) :: rat) = of_nat (unat x)"
  by (simp only: uint_nat of_int_of_nat_eq)

lemma f64_of_nat: "x < 2 ^ 53 \<Longrightarrow> f64 (of_nat x) = of_nat x"
  using fl_exact [of "int x" 53] by (simp add: f64_def)

lemma check_percentiles_ok:
  assumes "list_all pct_ok ps" "unat nr < 2 ^ 32" "unat nr < length reqs" "unat c + unat b < 2 ^ 32"
  shows "\<exists>rows. check_percentiles cpn reqs nr cnt c i b ps = Inr rows \<and> length rows = crossed cnt (unat c) (unat c + unat b) ps"
  using assms(1)
proof (induction ps)
  case (Cons p ps)
  obtain name part num den where p: "p = (name, part, num, den)" by (cases p)
  let ?P = "f64 (f64 (of_int (uint cnt)) * part)"
  have "unat (nr * num div den) < length reqs"
    using pct_index [of name part num den nr "length reqs"] assms(2,3) Cons.prems p by simp
  then have r: "get_at reqs (uint (nr * num div den)) = Inr (reqs ! unat (nr * num div den))"
    by (rule get_at_uint)
  have "unat (ucast c + b :: u64) = unat c + unat b"
    using assms(4) by (subst unat_word_ariths) (simp add: unsigned_ucast_eq take_bit_nat_eq_self)
  moreover have small: "unat c + unat b < 2 ^ 53" using assms(4) by simp
  ultimately have "f64 (rat_of_int (uint (ucast c + b :: u64))) = of_nat (unat c + unat b)" "rat_of_int (uint c) = of_nat (unat c)"
    using f64_of_nat [OF small] by (simp_all only: of_int_uint_nat)
  then have g: "(?P \<le> f64 (of_int (uint (ucast c + b :: u64))) \<and> of_int (uint c) < ?P) =
      crosses (unat c) (unat c + unat b) ?P"
    unfolding crosses_def by (metis (no_types))
  obtain rows where rows: "check_percentiles cpn reqs nr cnt c i b ps = Inr rows"
      "length rows = crossed cnt (unat c) (unat c + unat b) ps" using Cons by auto
  show ?case unfolding p check_percentiles.simps g r rows(1) res_bind_simps crossed_def
    by (cases "crosses (unat c) (unat c + unat b) ?P") (simp_all add: rows(2) crossed_def)
qed (simp add: crossed_def)

primrec bucket_total :: "(nat \<times> u64) list \<Rightarrow> nat" where
  "bucket_total [] = 0"
| "bucket_total (e # bs) = unat (snd e) + bucket_total bs"

lemma bucket_total_map: "bucket_total (map f ks) = sum_list (map (\<lambda>k. unat (snd (f k))) ks)"
  by (induction ks) simp_all

lemma check_loop_ok:
  assumes "unat nr < 2 ^ 32" "unat nr < length reqs" "unat c + bucket_total bs < 2 ^ 32"
  shows "\<exists>rows. check_loop cpn reqs nr cnt c bs = Inr (c + of_nat (bucket_total bs), rows) \<and>
     length rows = crossed cnt (unat c) (unat c + bucket_total bs) percentiles"
  using assms(3)
proof (induction bs arbitrary: c)
  case Nil
  have "crossed cnt x x ps = 0" for x ps by (auto simp: crossed_def crosses_def filter_empty_conv)
  then show ?case by simp
next
  case (Cons e bs)
  obtain i b where e: "e = (i, b)" by (cases e)
  let ?S = "bucket_total bs"
  have b: "unat c + unat b < 2 ^ 32" using Cons.prems e by simp
  obtain rows where 1: "check_percentiles cpn reqs nr cnt c (of_nat i) b percentiles = Inr rows"
      "length rows = crossed cnt (unat c) (unat c + unat b) percentiles"
    using check_percentiles_ok [OF percentiles_ok assms(1,2), of c b cpn cnt "of_nat i"] b by auto
  have "unat (ucast b :: u32) = unat b" using b by (simp add: unsigned_ucast_eq take_bit_nat_eq_self)
  then have c: "unat (c + ucast b) = unat c + unat b" using b by (subst unat_word_ariths) simp
  then obtain rs where 2: "check_loop cpn reqs nr cnt (c + ucast b) bs = Inr (c + ucast b + of_nat ?S, rs)"
      "length rs = crossed cnt (unat c + unat b) (unat c + unat b + ?S) percentiles"
    using Cons.IH [of "c + ucast b"] Cons.prems e by auto
  have "length (rows @ rs) = crossed cnt (unat c) (unat c + (unat b + ?S)) percentiles"
    using 1(2) 2(2) crossed_add [of "unat c" "unat c + unat b" "unat c + unat b + ?S" cnt percentiles] by (simp add: add.assoc)
  moreover have "c + ucast b + of_nat ?S = c + of_nat (bucket_total (e # bs))" by (simp add: e)
  ultimately show ?case unfolding e check_loop.simps 1(1) 2(1) res_bind_simps by simp
qed

lemma entries_sum: "length vs < 2 ^ 64 \<Longrightarrow> bucket_total (entries vs) = length vs"
proof -
  assume l: "length vs < 2 ^ 64"
  let ?ks = "map bucket_of vs"
  have u: "unat (of_nat (count_list ?ks k) :: u64) = count_list ?ks k" for k
    using count_le_length [of ?ks k] l by (intro unat_of_nat_u64) simp
  have "bucket_total (entries vs) = sum_list (map (count_list ?ks) (sorted_list_of_set (set ?ks)))"
    by (simp add: entries_def bucket_total_map u)
  also have "\<dots> = sum (count_list ?ks) (set ?ks)"
    by (simp add: sum_list_distinct_conv_sum_set)
  also have "\<dots> = length vs" using sum_count_set [of ?ks "set ?ks"] by simp
  finally show ?thesis .
qed

text \<open>Every percentile of a positive count is crossed exactly once.\<close>

lemma crossed_all:
  assumes "0 < n" "n < 2 ^ 32"
  shows "crossed (of_nat n) 0 n percentiles = 7"
proof -
  have n: "f64 (of_int (uint (of_nat n :: u64))) = of_nat n"
  proof -
    have "n < 2 ^ 53" "unat (of_nat n :: u64) = n" using unat_of_nat_u64 [of n] assms(2) by simp_all
    then show ?thesis using f64_of_nat [of n] by (simp only: of_int_uint_nat)
  qed
  have "crosses 0 n (f64 (of_nat n * part))" if "0 < part" "part \<le> 1" for part
  proof -
    have "0 < of_nat n * part" "of_nat n * part \<le> of_int (int n)"
      using that assms(1) by (simp_all add: mult_le_cancel_left2)
    then show ?thesis using fl_pos [of "of_nat n * part" 53] fl_le [of "of_nat n * part" "int n" 53] assms(2)
      by (simp add: crosses_def f64_def)
  qed
  then have "filter (\<lambda>(name, part, num, den). crosses 0 n (f64 (f64 (of_int (uint (of_nat n :: u64))) * part))) percentiles =
      percentiles"
    using percentiles_ok unfolding n by (auto simp: filter_id_conv list_all_iff pct_ok_def)
  then show ?thesis unfolding crossed_def by (simp add: percentiles_def)
qed

lemma ucast_of_nat_u32: "n < 2 ^ 32 \<Longrightarrow> ucast (of_nat n :: u32) = (of_nat n :: u64)"
  by (simp add: unsigned_of_nat take_bit_nat_eq_self)

lemma check_hist_ok:
  assumes "readable fuel vs" "shows_buckets vs m" "length vs \<le> length reqs"
  obtains rows m' where "check_hist fuel cpn ((hist_of vs)\<lparr>buckets := m\<rparr>) reqs (of_nat (length vs) - 1) =
      Inr (0, rows, (hist_of vs)\<lparr>buckets := m'\<rparr>)" "length rows = 10" "shows_buckets vs m'"
proof -
  let ?nr = "of_nat (length vs) - 1 :: u64"
  have l: "0 < length vs" "length vs < 2 ^ 32" using assms(1) by (simp_all add: readable_def)
  then have "?nr = of_nat (length vs - 1)" by (cases vs) simp_all
  then have nr: "unat ?nr = length vs - 1" using unat_of_nat_u64 [of "length vs - 1"] l by simp
  have nr': "unat ?nr < 2 ^ 32" "unat ?nr < length reqs" unfolding nr using l assms(3) by linarith+
  have r: "get_at reqs 0 = Inr (reqs ! 0)" "get_at reqs (uint ?nr) = Inr (reqs ! (length vs - 1))"
    using l assms(3) get_at_uint [OF nr'(2)] nr by (auto simp: get_at_def)
  obtain m' where m': "bucket_loop fuel 32 0 m = Inr (entries vs, m')" "shows_buckets vs m'"
    by (rule bucket_loop_shows [OF assms(1,2), of 32]) simp
  have "bucket_total (entries vs) = length vs" using entries_sum l by simp
  then obtain rows where c: "check_loop cpn reqs ?nr (of_nat (length vs)) 0 (entries vs) = Inr (of_nat (length vs), rows)" "length rows = 7"
    using check_loop_ok [OF nr', of 0 "entries vs" cpn "of_nat (length vs)"] crossed_all [of "length vs"] l by auto
  have "ucast (of_nat (length vs) :: u32) = (of_nat (length vs) :: u64)"
    using l(2) by (simp add: ucast_of_nat_u32)
  then have "check_hist fuel cpn ((hist_of vs)\<lparr>buckets := m\<rparr>) reqs ?nr = Inr (0,
      [[LInt (uint (h_min (hist_of vs))), LNum (u64_div_float (completed (reqs ! 0) - sending (reqs ! 0)) cpn)]] @ rows @
      [[LInt (uint (h_max (hist_of vs))), LNum (u64_div_float (completed (reqs ! (length vs - 1)) - sending (reqs ! (length vs - 1))) cpn)],
       [LInt (uint (of_nat (length vs) :: u32)), LInt (uint (?nr + 1))]], (hist_of vs)\<lparr>buckets := m'\<rparr>)"
    using r m'(1) c(1) by (simp add: check_hist_def hist_of_count)
  from that [OF this _ m'(2)] c(2) show ?thesis by simp
qed

section \<open>The histograms of a run\<close>

definition lats :: "rat \<Rightarrow> ClientRequest list \<Rightarrow> u64 list" where
  "lats cpn rs = map (\<lambda>r. to_ns cpn (completed r - sending r)) rs"

text \<open>The requests that count: the first tenth is discarded, and those without an answer.\<close>

definition kept :: "rat \<Rightarrow> ClientRequest list \<Rightarrow> ClientRequest list" where
  "kept cpn reqs = filter (\<lambda>r. completed r \<noteq> 0) (sort_key (req_latency cpn) (drop (length reqs div 10) reqs))"

lemma fold_insert_latency: "fold (insert_latency cpn) rs hist_clear = hist_of (lats cpn rs)"
  unfolding hist_of_def lats_def fold_map by (rule arg_cong [where f = "\<lambda>f. fold f rs hist_clear"]) (simp add: fun_eq_iff insert_latency_def)

lemma readable_count: "readable fuel vs \<Longrightarrow> h_count (hist_of vs) \<noteq> 0"
proof -
  assume r: "readable fuel vs"
  then have "unat (of_nat (length vs) :: u64) = length vs" by (intro unat_of_nat_u64) (simp add: readable_def)
  then show ?thesis using r by (auto simp: hist_of_count readable_def)
qed

lemma readable_part:
  "readable fuel (lats cpn rs) \<Longrightarrow> set qs \<subseteq> set rs \<Longrightarrow> qs \<noteq> [] \<Longrightarrow> length qs \<le> length rs \<Longrightarrow> readable fuel (lats cpn qs)"
  by (auto simp: readable_def lats_def)

lemma log_types_ok:
  assumes "\<forall>(ty, rs) \<in> set gs. readable fuel (lats cpn rs) \<and> ReqType_code ty < 12"
  shows "\<exists>chk h'. log_types fuel cpn gs h =
      Inr (concat (map (\<lambda>(ty, rs). hist_rows (req_type_str ! ReqType_code ty) (lats cpn rs)) gs), chk, h') \<and>
    length chk = 10 * length gs"
  using assms
proof (induction gs arbitrary: h)
  case (Cons g gs)
  obtain ty rs where g: "g = (ty, rs)" by (cases g)
  let ?vs = "lats cpn rs"
  have r: "readable fuel ?vs" "ReqType_code ty < 12" using Cons.prems g by simp_all
  have l: "length ?vs = length rs" by (simp add: lats_def)
  have name: "get_at req_type_str (int (ReqType_code ty)) = Inr (req_type_str ! ReqType_code ty)"
    using r(2) by (simp add: get_at_def req_type_str_def)
  obtain m1 where 1: "hist_lines fuel (req_type_str ! ReqType_code ty) ((hist_of ?vs)\<lparr>buckets := buckets (hist_of ?vs)\<rparr>) =
      Inr (hist_rows (req_type_str ! ReqType_code ty) ?vs, (hist_of ?vs)\<lparr>buckets := m1\<rparr>)" "shows_buckets ?vs m1"
    by (rule hist_lines_ok [OF r(1) shows_buckets_init [OF r(1)]])
  obtain chk1 m2 where 2: "check_hist fuel cpn ((hist_of ?vs)\<lparr>buckets := m1\<rparr>) rs (of_nat (length ?vs) - 1) =
      Inr (0, chk1, (hist_of ?vs)\<lparr>buckets := m2\<rparr>)" "length chk1 = 10"
    by (rule check_hist_ok [OF r(1) 1(2), of rs cpn]) (simp add: l)
  obtain chk2 h2 where 3: "log_types fuel cpn gs ((hist_of ?vs)\<lparr>buckets := m2\<rparr>) =
      Inr (concat (map (\<lambda>(ty, rs). hist_rows (req_type_str ! ReqType_code ty) (lats cpn rs)) gs), chk2, h2)" "length chk2 = 10 * length gs"
    using Cons.IH Cons.prems by fastforce
  show ?case
    using 1(1) 2 3 readable_count [OF r(1)] by (simp add: g fold_insert_latency name hist_of_count l Let_def)
qed simp

lemma f32_nonneg: "0 \<le> x \<Longrightarrow> 0 \<le> f32 x"
  using fl_pos [of x 24] by (cases "x = 0") (auto simp: f32_def fl_def)

lemma to_ns_floor:
  assumes "0 < cpn"
  shows "to_ns cpn c = of_int \<lfloor>f32 (f32 (of_int (uint c)) / cpn)\<rfloor>"
proof -
  have "0 \<le> (of_int (uint c) :: rat)" by (simp only: of_int_0_le_iff uint_ge_0)
  then have "0 \<le> f32 (f32 (of_int (uint c)) / cpn)" using assms by (intro f32_nonneg divide_nonneg_pos)
  then show ?thesis by (simp add: to_ns_def u64_div_float_def trunc_def)
qed

lemma log_latency_rows:
  assumes "readable fuel (lats cpn (kept cpn reqs))" "\<forall>r \<in> set reqs. cr_type r \<noteq> RT_LAST" "\<forall>m. mset (ord m) = mset m"
  shows "\<exists>chk h'. log_latency fuel cpn ord wid reqs (-1) h =
      Inr (0, [], hist_rows ''UNKNOWN'' (lats cpn (kept cpn reqs)) @
        concat (map (\<lambda>(ty, rs). hist_rows (req_type_str ! ReqType_code ty) (lats cpn rs)) (ord (group_by_type (kept cpn reqs)))), chk, h') \<and>
    length chk = 10 * Suc (card (cr_type ` set (kept cpn reqs)))"
proof -
  let ?rs = "kept cpn reqs" and ?pruned = "sort_key (req_latency cpn) (drop (length reqs div 10) reqs)"
  let ?vs = "lats cpn ?rs"
  note r = assms(1)
  have "length ?rs \<le> length ?pruned" unfolding kept_def by (rule length_filter_le)
  then have l: "length ?vs \<le> length ?pruned" by (simp add: lats_def)
  have ne: "reqs \<noteq> []" using r by (auto simp: readable_def lats_def kept_def)
  have sub: "set ?rs \<subseteq> set reqs" by (auto simp: kept_def dest: in_set_dropD)
  obtain m1 where 1: "hist_lines fuel ''UNKNOWN'' ((hist_of ?vs)\<lparr>buckets := buckets (hist_of ?vs)\<rparr>) =
      Inr (hist_rows ''UNKNOWN'' ?vs, (hist_of ?vs)\<lparr>buckets := m1\<rparr>)" "shows_buckets ?vs m1"
    by (rule hist_lines_ok [OF r shows_buckets_init [OF r]])
  obtain chk1 m2 where 2: "check_hist fuel cpn ((hist_of ?vs)\<lparr>buckets := m1\<rparr>) ?pruned (of_nat (length ?vs) - 1) =
      Inr (0, chk1, (hist_of ?vs)\<lparr>buckets := m2\<rparr>)" "length chk1 = 10"
    by (rule check_hist_ok [OF r 1(2) l])
  let ?gs = "ord (group_by_type ?rs)"
  have gs: "set ?gs = set (group_by_type ?rs)" using assms(3) by (metis set_mset_mset)
  have "readable fuel (lats cpn rs) \<and> ReqType_code ty < 12" if e: "(ty, rs) \<in> set ?gs" for ty rs
  proof
    note g = group_by_type_entry [OF e [unfolded gs]]
    show "readable fuel (lats cpn rs)" by (rule readable_part [OF r g(2,1,3)])
    have "ty \<noteq> RT_LAST" using g(4) assms(2) sub by (metis imageE subsetD)
    then show "ReqType_code ty < 12" by (cases ty) simp_all
  qed
  then have "\<forall>(ty, rs) \<in> set ?gs. readable fuel (lats cpn rs) \<and> ReqType_code ty < 12" by blast
  from log_types_ok [OF this, of "(hist_of ?vs)\<lparr>buckets := m2\<rparr>"] obtain chk2 h2 where
    3: "log_types fuel cpn ?gs ((hist_of ?vs)\<lparr>buckets := m2\<rparr>) =
        Inr (concat (map (\<lambda>(ty, rs). hist_rows (req_type_str ! ReqType_code ty) (lats cpn rs)) ?gs), chk2, h2)"
      "length chk2 = 10 * length ?gs" by blast
  have "length ?gs = length (group_by_type ?rs)" using assms(3) by (metis size_mset)
  also have "\<dots> = card (dom (map_of (group_by_type ?rs)))"
    using distinct_card [OF group_by_type_distinct, of ?rs] by (simp add: dom_map_of_conv_image_fst)
  also have "dom (map_of (group_by_type ?rs)) = cr_type ` set ?rs" by (auto simp: group_by_type_spec dom_def)
  finally have n: "length ?gs = card (cr_type ` set ?rs)" .
  have "log_histograms fuel cpn ord reqs = Inr (0, hist_rows ''UNKNOWN'' ?vs @
      concat (map (\<lambda>(ty, rs). hist_rows (req_type_str ! ReqType_code ty) (lats cpn rs)) ?gs), chk1 @ chk2, h2)"
    using 1(1) 2(1) 3(1) readable_count [OF r]
    by (simp add: log_histograms_def Let_def kept_def [symmetric] fold_insert_latency hist_of_count)
  then show ?thesis using ne 2(2) 3(2) n by (simp add: log_latency_def)
qed

text \<open>
  C36: With the histogram option, logging does not abort.  The first tenth of the requests is discarded.
  When some request of the rest was answered, and their latencies in nanoseconds (the \<open>float\<close> quotient of
  cycles, truncated) are in the range the loops over the buckets can read, the report has the histogram of
  the latencies of all answered requests of the rest and one of each request type that occurs among them, in
  the order the map is iterated; every consistency check of \<open>check_hist\<close> passes, and each check prints its
  ten lines, with every percentile exactly once.
\<close>

theorem log_latency_histograms:
  fixes ord :: "(ReqType \<times> ClientRequest list) list \<Rightarrow> (ReqType \<times> ClientRequest list) list"
  defines "lat \<equiv> \<lambda>cpn r. of_int \<lfloor>f32 (f32 (of_int (uint (completed r - sending r))) / cpn)\<rfloor> :: u64"
  assumes "0 < cpn" "readable fuel (map (lat cpn) (kept cpn reqs))" "\<forall>r \<in> set reqs. cr_type r \<noteq> RT_LAST"
    and "\<forall>m. mset (ord m) = mset m"
  shows "\<exists>chk h'. log_latency fuel cpn ord wid reqs (-1) h =
      Inr (0, [], hist_rows ''UNKNOWN'' (map (lat cpn) (kept cpn reqs)) @
        concat (map (\<lambda>(ty, rs). hist_rows (req_type_str ! ReqType_code ty) (map (lat cpn) rs)) (ord (group_by_type (kept cpn reqs)))), chk, h') \<and>
    length chk = 10 * Suc (card (cr_type ` set (kept cpn reqs)))"
proof -
  have lat: "map (lat cpn) rs = lats cpn rs" for rs
    using assms(2) by (simp add: lat_def lats_def to_ns_floor)
  show ?thesis unfolding lat by (rule log_latency_rows [OF _ assms(4,5)]) (use assms(3) lat in simp)
qed

text \<open>A run of four requests of which the last was not answered; three cycles per nanosecond.\<close>

definition ex_request :: "u32 \<Rightarrow> ReqType \<Rightarrow> u64 \<Rightarrow> u64 \<Rightarrow> ClientRequest" where
  "ex_request i ty s c =
     \<lparr>cr_id = i, cr_mbuf = NULL, run_ns = 0, cr_type = ty, sending = s, completed = c, cr_schedule_id = 0\<rparr>"

definition ex_run :: "ClientRequest list" where
  "ex_run = [ex_request 0 RT_SHORT 1 4, ex_request 1 RT_SHORT 1000 4000, ex_request 2 RT_LONG 2000 20000,
     ex_request 3 RT_SHORT 3000 0]"

lemma ex_to_ns: "to_ns 3 3 = 1" "to_ns 3 3000 = 1000" "to_ns 3 18000 = 6000"
  by code_simp+

lemma ex_run_kept: "kept 3 ex_run = [ex_request 0 RT_SHORT 1 4, ex_request 1 RT_SHORT 1000 4000, ex_request 2 RT_LONG 2000 20000]"
  by (simp add: kept_def ex_run_def ex_request_def req_latency_def ex_to_ns)

lemma ex_run_lats: "lats 3 (kept 3 ex_run) = [1, 1000, 6000]"
  by (simp add: ex_run_kept lats_def ex_request_def ex_to_ns)

theorem log_latency_histograms_witness:
  "\<exists>rows chk h. log_latency 7 3 id 0 ex_run (-1) hist_clear = Inr (0, [], rows, chk, h) \<and> length chk = 30"
proof -
  have l: "map (\<lambda>r. of_int \<lfloor>f32 (f32 (of_int (uint (completed r - sending r))) / 3)\<rfloor>) rs = lats 3 rs" for rs
    by (simp only: lats_def to_ns_floor [OF zero_less_numeral])
  have "(0 :: rat) < 3" "\<forall>r \<in> set ex_run. cr_type r \<noteq> RT_LAST" "\<forall>m. mset (id m) = mset m"
    by (simp_all add: ex_run_def ex_request_def)
  moreover have "readable 7 (lats 3 (kept 3 ex_run))" by (simp add: ex_run_lats readable_def)
  moreover have "cr_type ` set (kept 3 ex_run) = {RT_SHORT, RT_LONG}" by (simp add: ex_run_kept ex_request_def)
  ultimately show ?thesis using log_latency_histograms [of 3 7 ex_run id 0 hist_clear] unfolding l by auto
qed

section \<open>Throughput per epoch\<close>

interpretation um: key_store "map_of :: ('k \<times> 'v :: comm_semiring_1) list \<Rightarrow> 'k \<Rightarrow> 'v option" AList.update "[]" "\<lambda>m. distinct (map fst m)"
  by unfold_locales (simp_all add: distinct_update update_conv')

lemma count_epochs_tally:
  assumes "\<forall>r \<in> set reqs. completed r \<noteq> 0 \<longrightarrow> epoch_of cpn es first r = Inr (ep r)"
  shows "count_epochs cpn es first reqs m =
     Inr (tally map_of AList.update (map (\<lambda>r. (cr_type r, ep r)) (filter (\<lambda>r. completed r \<noteq> 0) reqs)) m)"
  using assms
proof (induction reqs arbitrary: m)
  case (Cons r reqs)
  let ?k = "(cr_type r, ep r)"
  let ?m = "if map_of m ?k = None then AList.update ?k 0 m else m"
  have "AList.update ?k (the (map_of ?m ?k) + 1) ?m =
      AList.update ?k ((case map_of m ?k of Some v \<Rightarrow> v | None \<Rightarrow> 0) + 1) m"
    by (auto simp: update_conv' update_last split: option.split simp del: map_of_eq_Some_iff)
  then show ?case using Cons by (simp add: tally_def Let_def)
qed (simp add: tally_def)

lemma epoch_rows_ok:
  assumes "\<forall>e \<in> set m. fst (fst e) \<noteq> RT_LAST"
  shows "epoch_rows wid es m = Inr (map (\<lambda>((ty, ep), n).
     [LInt wid, LInt (uint (of_int ep * es)), LStr (req_type_str ! ReqType_code ty), LInt (uint n)]) m)"
  using assms
proof (induction m)
  case (Cons e m)
  obtain ty ep n where e: "e = ((ty, ep), n)" by (metis prod.exhaust)
  have "ReqType_code ty < length req_type_str" using Cons.prems e by (cases ty) (simp_all add: req_type_str_def)
  then show ?case using Cons e by (simp add: get_at_def)
qed simp

lemma log_throughput_tally:
  assumes "\<forall>r \<in> set reqs. completed r \<noteq> 0 \<longrightarrow> epoch_of cpn es first r = Inr (ep r)" "\<forall>r \<in> set reqs. cr_type r \<noteq> RT_LAST"
    and "\<forall>m. mset (ord m) = mset m"
  shows "\<exists>m. log_throughput cpn ord wid reqs es first = Inr (0, map (\<lambda>((ty, e), n).
        [LInt wid, LInt (uint (of_int e * es)), LStr (req_type_str ! ReqType_code ty), LInt (uint n)]) (ord m)) \<and>
      distinct (map fst m) \<and>
      (\<forall>ty e. map_of m (ty, e) =
         (let rs = filter (\<lambda>r. completed r \<noteq> 0 \<and> cr_type r = ty \<and> ep r = e) reqs in
          if rs = [] then None else Some (of_nat (length rs))))"
proof -
  let ?ks = "map (\<lambda>r. (cr_type r, ep r)) (filter (\<lambda>r. completed r \<noteq> 0) reqs)"
  let ?m = "tally map_of AList.update ?ks [] :: ((ReqType \<times> int) \<times> u64) list"
  have d: "distinct (map fst ?m)" by (rule um.tally_ok)
  have cnt: "count_list ?ks (ty, e) = length (filter (\<lambda>r. completed r \<noteq> 0 \<and> cr_type r = ty \<and> ep r = e) reqs)" for ty e
    by (induction reqs) auto
  have look: "map_of ?m k = (if k \<in> set ?ks then Some (of_nat (count_list ?ks k)) else None)" for k
    by (rule um.tally_find)
  have "map_of ?m k = (if count_list ?ks k = 0 then None else Some (of_nat (count_list ?ks k)))" for k
    unfolding look by (cases "k \<in> set ?ks") (simp_all only: count_list_0_iff if_True if_False simp_thms)
  then have m: "map_of ?m (ty, e) = (let rs = filter (\<lambda>r. completed r \<noteq> 0 \<and> cr_type r = ty \<and> ep r = e) reqs in
      if rs = [] then None else Some (of_nat (length rs)))" for ty e
    by (simp only: cnt Let_def length_0_conv)
  have "\<forall>e \<in> set (ord ?m). fst (fst e) \<noteq> RT_LAST"
  proof
    fix e assume "e \<in> set (ord ?m)"
    then have "e \<in> set ?m" unfolding mset_eq_setD [OF spec [OF assms(3)]] .
    then have "map_of ?m (fst e) = Some (snd e)" by (intro map_of_is_SomeI [OF d]) (simp only: prod.collapse)
    then have "fst e \<in> set ?ks" unfolding look by (rule contrapos_pp) (simp only: if_False option.distinct not_False_eq_True)
    then show "fst (fst e) \<noteq> RT_LAST" using assms(2) by auto
  qed
  then show ?thesis using d m
    by (intro exI [of _ ?m]) (simp add: log_throughput_def count_epochs_tally [OF assms(1)] epoch_rows_ok)
qed

text \<open>
  C37: The throughput file has one line for each request type and epoch in which a request was answered, with
  the number of those requests, in the order the map is iterated.  The epoch of a request is its completion in
  nanoseconds less the first completion, divided by the length of an epoch, where every conversion and every
  operation is rounded to single precision and the last result is truncated.  The epoch length is not zero and
  the epochs fit an \<open>int\<close>; otherwise the conversion is undefined.
\<close>

theorem log_throughput_counts:
  fixes ord :: "((ReqType \<times> int) \<times> u64) list \<Rightarrow> ((ReqType \<times> int) \<times> u64) list"
  defines "epoch \<equiv> \<lambda>cpn es first r. trunc (f32 (f32 (f32 (f32 (of_int (uint (completed r))) / cpn) -
      f32 (of_int (uint first))) / f32 (of_int (uint es))))"
  assumes "0 < cpn" "es \<noteq> 0" "\<forall>r \<in> set reqs. completed r \<noteq> 0 \<longrightarrow> int_ok (epoch cpn es first r)"
    and "\<forall>r \<in> set reqs. cr_type r \<noteq> RT_LAST" "\<forall>m. mset (ord m) = mset m"
  shows "\<exists>m. log_throughput cpn ord wid reqs es first = Inr (0, map (\<lambda>((ty, e), n).
        [LInt wid, LInt (uint (of_int e * es)), LStr (req_type_str ! ReqType_code ty), LInt (uint n)]) (ord m)) \<and>
      distinct (map fst m) \<and>
      (\<forall>ty e. map_of m (ty, e) =
         (let rs = filter (\<lambda>r. completed r \<noteq> 0 \<and> cr_type r = ty \<and> epoch cpn es first r = e) reqs in
          if rs = [] then None else Some (of_nat (length rs))))"
proof (rule log_throughput_tally [OF _ assms(5,6)])
  show "\<forall>r \<in> set reqs. completed r \<noteq> 0 \<longrightarrow> epoch_of cpn es first r = Inr (epoch cpn es first r)"
    using assms(3,4) by (simp add: epoch_of_def epoch_def u64_div_float_def Let_def)
qed

definition ex_run_tp :: "ClientRequest list" where
  "ex_run_tp = [ex_request 0 RT_SHORT 1 25, ex_request 1 RT_LONG 2 31, ex_request 2 RT_SHORT 3 27, ex_request 3 RT_SHORT 4 0]"

text \<open>One cycle per nanosecond, epochs of ten nanoseconds from the fifth on.\<close>

theorem log_throughput_counts_witness:
  "\<exists>m. log_throughput 1 id 5 ex_run_tp 10 5 = Inr (0, map (\<lambda>((ty, e), n :: u64).
        [LInt 5, LInt (uint (of_int e * 10 :: u64)), LStr (req_type_str ! ReqType_code ty), LInt (uint n)]) m) \<and>
     map_of m (RT_SHORT, 2) = Some 2 \<and> map_of m (RT_LONG, 2) = Some 1"
proof -
  define epoch where "epoch r = trunc (f32 (f32 (f32 (f32 (of_int (uint (completed r))) / 1) -
      f32 (of_int (uint (5 :: u64)))) / f32 (of_int (uint (10 :: u64)))))" for r :: ClientRequest
  have e: "epoch (ex_request i ty t 25) = 2" "epoch (ex_request i ty t 31) = 2" "epoch (ex_request i ty t 27) = 2" for i ty t
    unfolding epoch_def ex_request_def ClientRequest.simps by code_simp+
  have a: "\<forall>r \<in> set ex_run_tp. completed r \<noteq> 0 \<longrightarrow> int_ok (epoch r)"
    by (simp add: ex_run_tp_def e int_ok_def) (simp add: ex_request_def)
  have b: "\<forall>r \<in> set ex_run_tp. cr_type r \<noteq> RT_LAST" by (simp add: ex_run_tp_def ex_request_def)
  have c: "\<forall>m. mset (id m) = mset m" by simp
  have "(0 :: rat) < 1" "(10 :: u64) \<noteq> 0" by simp_all
  from log_throughput_counts [OF this, of ex_run_tp 5 id 5, folded epoch_def, OF a b c]
  obtain m where m: "log_throughput 1 id 5 ex_run_tp 10 5 = Inr (0, map (\<lambda>((ty, e), n :: u64).
        [LInt 5, LInt (uint (of_int e * 10 :: u64)), LStr (req_type_str ! ReqType_code ty), LInt (uint n)]) (id m))"
      "\<forall>ty e. map_of m (ty, e) = (let rs = filter (\<lambda>r. completed r \<noteq> 0 \<and> cr_type r = ty \<and> epoch r = e) ex_run_tp in
          if rs = [] then None else Some (of_nat (length rs)))" by blast
  have f: "filter (\<lambda>r. completed r \<noteq> 0 \<and> cr_type r = ty \<and> epoch r = 2) ex_run_tp =
      filter (\<lambda>r. completed r \<noteq> 0 \<and> cr_type r = ty) ex_run_tp" for ty
    by (simp add: ex_run_tp_def e) (simp add: ex_request_def)
  have "map_of m (RT_SHORT, 2) = Some 2" "map_of m (RT_LONG, 2) = Some 1"
    unfolding m(2) [rule_format] f by (simp_all add: ex_run_tp_def ex_request_def)
  with m(1) show ?thesis by (intro exI [of _ m]) simp
qed

text \<open>
  After \<open>2 ^ 50\<close> nanoseconds a \<open>float\<close> has only every \<open>2 ^ 27\<close>th of them: completions 60 milliseconds apart
  fall into the same epoch of one millisecond.
\<close>

lemma epochs_merge:
  "epoch_of 1 1000000 0 (ex_request 0 RT_SHORT 0 1125899906842624) = Inr 1125899904"
  "epoch_of 1 1000000 0 (ex_request 1 RT_SHORT 0 1125899966842624) = Inr 1125899904"
  by code_simp+

end
