(* ===== verification/Client_Play.thy ===== *)
theory Client_Play
  imports Client_Log Dpdk_Port
begin

text \<open>
  The load generator's worker, \<open>class Client\<close> of \<^verbatim>\<open>src/c++/apps/client/client.hh\<close>: it plays its schedules,
  sending each request at its time and matching the responses to the requests.  Everything that comes from
  outside (the clock, the time stamp counter, the packets received and accepted by the NIC, the packet
  buffers allocated) is an argument \<open>client_env\<close>, a sequence indexed by a counter of such calls that the
  state carries.  A request is named by its index in the vector \<open>requests\<close>.
\<close>

section \<open>State\<close>

record Client =
  cl_base :: Worker
  cl_hist :: Histogram_t
  cl_requests :: "ClientRequest list"
  send_offset :: u32
  cl_schedules :: "Schedule list"
  send_time_it :: nat
  next_send_time :: tp
  start_offset :: int
  next_cr :: "nat option"
  max_concurrency :: int

text \<open>The constructor; \<open>mem\<close> is the memory of the object.\<close>

definition Client_new :: "Client \<Rightarrow> int list \<Rightarrow> u32 \<Rightarrow> int \<Rightarrow> Schedule list \<Rightarrow> ClientRequest list \<Rightarrow> Client \<times> u32" where
  "Client_new mem pids total_workers m scheds reqs =
     (let (b, total_workers) = Worker_new pids WT_CLIENT total_workers in
      (mem\<lparr>cl_base := b, cl_requests := reqs, send_offset := 0, cl_schedules := scheds, max_concurrency := m\<rparr>, total_workers))"

record client_env =
  ce_now :: "nat \<Rightarrow> tp"
  ce_tsc :: "nat \<Rightarrow> u64"
  ce_rx :: "nat \<Rightarrow> (ptr \<times> mbuf) list"
  ce_alloc :: "nat \<Rightarrow> ptr"
  ce_tx :: "nat \<Rightarrow> ptr list \<Rightarrow> nat"
  ce_room :: nat

text \<open>
  The state of a worker in \<open>play_schedule\<close>: the object, the schedule, the packet buffers and the pool they
  are returned to, the counter of external calls, the packets given to the NIC, and the local variables.
\<close>

record play =
  p_cl :: Client
  p_sched :: Schedule
  p_ms :: mbuf_store
  p_pool :: "ptr list"
  p_k :: nat
  p_out :: "ptr list"
  p_iter :: tp
  p_status :: int
  p_inflight :: int
  p_complete :: bool

abbreviation p_udp :: "play \<Rightarrow> UdpContext option" where "p_udp st \<equiv> w_udp_ctx (cl_base (p_cl st))"

definition set_udp :: "UdpContext \<Rightarrow> play \<Rightarrow> play" where
  "set_udp u st = st\<lparr>p_cl := (p_cl st)\<lparr>cl_base := (cl_base (p_cl st))\<lparr>w_udp_ctx := Some u\<rparr>\<rparr>\<rparr>"

definition set_request :: "nat \<Rightarrow> ClientRequest \<Rightarrow> play \<Rightarrow> play" where
  "set_request i r st = st\<lparr>p_cl := (p_cl st)\<lparr>cl_requests := (cl_requests (p_cl st))[i := r]\<rparr>\<rparr>"

definition set_terminate :: "play \<Rightarrow> play" where
  "set_terminate st = st\<lparr>p_cl := (p_cl st)\<lparr>cl_base := (cl_base (p_cl st))\<lparr>w_terminate := True\<rparr>\<rparr>\<rparr>"

section \<open>Operations\<close>

definition client_setup :: "Client \<Rightarrow> int result" where
  "client_setup c = psp_true EPERM (w_udp_ctx (cl_base c) \<noteq> None) (Inr 0)"

definition client_process_request :: "u64 \<Rightarrow> int" where "client_process_request pay = ENOTSUP"
definition client_dequeue :: "u64 \<Rightarrow> int" where "client_dequeue pay = 0"

definition send_request :: "client_env \<Rightarrow> nat \<Rightarrow> play \<Rightarrow> (int \<times> play) result" where
  "send_request E i st =
     (case p_udp st of None \<Rightarrow> Inl NullDeref
      | Some u \<Rightarrow>
          if push_head u - push_tail u = OUTBOUND_Q_LEN then Inr (EAGAIN, st)
          else
            res_bind (get_at (cl_requests (p_cl st)) (int i)) (\<lambda>cr.
              let u = u\<lparr>outbound_queue := (outbound_queue u)(unat (push_head u AND (OUTBOUND_Q_LEN - 1)) := cr_mbuf cr),
                        push_head := push_head u + 1\<rparr> in
              res_bind (send_packets u (p_ms st) (ce_tx E (p_k st))) (\<lambda>(r, sent, u, ms).
                psp_ok r (Inr (0, set_request i (cr\<lparr>sending := ce_tsc E (p_k st)\<rparr>)
                  (set_udp u (st\<lparr>p_ms := ms, p_k := p_k st + 1, p_out := p_out st @ sent\<rparr>)))))))"

text \<open>\<open>send_time_it\<close> is the index of the element it points to.\<close>

definition gen_next_send_time :: "play \<Rightarrow> play result" where
  "gen_next_send_time st =
     res_bind (get_at (send_times (p_sched st)) (int (send_time_it (p_cl st)))) (\<lambda>t.
       Inr (st\<lparr>p_cl := (p_cl st)\<lparr>next_send_time := t + start_offset (p_cl st), send_time_it := send_time_it (p_cl st) + 1\<rparr>\<rparr>))"

text \<open>The mark of the worker in the number of a request, \<open>worker_id << 27\<close>.\<close>

definition id_tag :: "int \<Rightarrow> u32" where
  "id_tag wid = push_bit 27 (of_int wid)"

definition put64 :: "nat \<Rightarrow> u64 \<Rightarrow> (nat \<Rightarrow> u8) \<Rightarrow> nat \<Rightarrow> u8" where
  "put64 i v b = put32 (i + 4) (ucast (drop_bit 32 v)) (put32 i (ucast v) b)"

text \<open>The bytes of \<open>struct IXMessage\<close>, which is packed, in the order of its members.\<close>

definition put_ix :: "nat \<Rightarrow> u16 \<Rightarrow> u16 \<Rightarrow> u32 \<Rightarrow> u64 \<Rightarrow> (nat \<Rightarrow> u8) \<Rightarrow> nat \<Rightarrow> u8" where
  "put_ix i ty wid rid run b =
     (let b = put16 i ty b;
          b = put16 (i + 2) 42 b;
          b = put32 (i + 4) 0 b;
          b = put32 (i + 8) 0 b;
          b = put32 (i + 12) 0 b;
          b = put16 (i + 16) wid b;
          b = put32 (i + 18) rid b;
          b = put32 (i + 22) 42 b;
          b = put64 (i + 26) run b in
      put64 (i + 34) 0 b)"

definition fill_bytes :: "nat \<Rightarrow> nat \<Rightarrow> u8 \<Rightarrow> (nat \<Rightarrow> u8) \<Rightarrow> nat \<Rightarrow> u8" where
  "fill_bytes i n v b = (\<lambda>k. if i \<le> k \<and> k < i + n then v else b k)"

text \<open>\<open>room\<close> is the number of bytes from the start of the data to the end of the buffer.\<close>

definition write_request :: "nat \<Rightarrow> Schedule \<Rightarrow> int \<Rightarrow> ClientRequest \<Rightarrow> mbuf \<Rightarrow> mbuf result" where
  "write_request room s wid cr m =
     (case ptype s of
        IX \<Rightarrow> Inr (m\<lparr>pkt_data := put_ix NET_HDR_SIZE (of_nat (ReqType_code (cr_type cr))) (of_int wid) (cr_id cr) (ucast (run_ns cr)) (pkt_data m),
                    l4_len := 42\<rparr>)
      | RAW \<Rightarrow>
          if pkt_size s < 4 \<or> room < NET_HDR_SIZE + unat (pkt_size s) then Inl OutOfBounds
          else Inr (m\<lparr>pkt_data := fill_bytes (NET_HDR_SIZE + 4) (unat (pkt_size s - 4)) 1 (put32 NET_HDR_SIZE (cr_id cr) (pkt_data m)),
                      l4_len := ucast (pkt_size s)\<rparr>)
      | PSP_MB \<Rightarrow>
          (let b = put32 NET_HDR_SIZE (cr_id cr) (pkt_data m);
               b = put32 (NET_HDR_SIZE + 4) (of_nat (ReqType_code (cr_type cr))) b;
               b = put32 (NET_HDR_SIZE + 8) 4 b;
               b = put32 (NET_HDR_SIZE + 12) (run_ns cr) b in
           Inr (m\<lparr>pkt_data := b, l4_len := 16\<rparr>))
      | PT_UNKNOWN \<Rightarrow> PSP_UNREACHABLE)"

definition gen_next_req :: "client_env \<Rightarrow> play \<Rightarrow> (int \<times> play) result" where
  "gen_next_req E st =
     (case next_cr (p_cl st) of Some _ \<Rightarrow> Inr (0, st)
      | None \<Rightarrow>
          let i = unat (send_index (p_sched st) + send_offset (p_cl st)) in
          res_bind (get_at (cl_requests (p_cl st)) (int i)) (\<lambda>cr.
            let wid = w_id (cl_base (p_cl st));
                cr = cr\<lparr>cr_id := cr_id cr XOR id_tag wid\<rparr>;
                st = set_request i cr (st\<lparr>p_cl := (p_cl st)\<lparr>next_cr := Some i\<rparr>\<rparr>) in
            psp_true EINVAL (cr_mbuf cr = NULL)
              (case p_udp st of None \<Rightarrow> Inl NullDeref
               | Some u \<Rightarrow>
                   let (r, mb, payload_addr) = get_mbuf (p_ms st) (ce_alloc E (p_k st)) (cr_mbuf cr) NULL;
                       st = st\<lparr>p_k := p_k st + 1\<rparr> in
                   if r = ENOMEM then Inr (EAGAIN, st)
                   else
                     res_bind (write_request (ce_room E) (p_sched st) wid cr (p_ms st mb)) (\<lambda>m.
                       Inr (0, set_request i (cr\<lparr>cr_mbuf := mb\<rparr>) (st\<lparr>p_ms := (p_ms st)(mb := m)\<rparr>))))))"

section \<open>Playing a schedule\<close>

definition poll_due :: "play \<Rightarrow> bool" where
  "poll_due st \<longleftrightarrow> p_status st = EAGAIN \<and> p_iter st < next_send_time (p_cl st)"

text \<open>One turn of the polling loop after the test of the duration; the NIC is asked only when there is room.\<close>

definition poll_once :: "client_env \<Rightarrow> play \<Rightarrow> play result" where
  "poll_once E st =
     (case p_udp st of None \<Rightarrow> Inl NullDeref
      | Some u \<Rightarrow>
          let rx = (if pop_head u - pop_tail u < INBOUND_Q_LEN - of_nat MAX_RX_BURST then ce_rx E (p_k st) else []) in
          res_bind (recv_packets u (map fst rx)) (\<lambda>(r, u).
            let s = p_sched st in
            Inr (set_udp u (st\<lparr>p_ms := fold (\<lambda>(p, m) ms. ms(p := m)) rx (p_ms st), p_status := r, p_iter := ce_now E (p_k st),
              p_sched := s\<lparr>ev_count := ev_count s + 1\<rparr>, p_k := p_k st + 1\<rparr>))))"

definition out_of_time :: "play \<Rightarrow> bool" where
  "out_of_time st \<longleftrightarrow> max_duration (p_sched st) * 10 ^ 9 \<le> p_iter st - start_time (p_sched st)"

fun poll_loop :: "nat \<Rightarrow> client_env \<Rightarrow> play \<Rightarrow> play result" where
  "poll_loop 0 E st = Inl OutOfFuel"
| "poll_loop (Suc n) E st =
     (if out_of_time st then Inr (set_terminate st)
      else res_bind (poll_once E st) (\<lambda>st. if poll_due st then poll_loop n E st else Inr st))"

text \<open>\<open>inflight = send_index - recv_requests\<close>, converted to \<open>int\<close>.\<close>

definition count_inflight :: "play \<Rightarrow> play" where
  "count_inflight st = st\<lparr>p_inflight := sint (send_index (p_sched st) - recv_requests (p_sched st))\<rparr>"

definition skip :: "play \<Rightarrow> play" where
  "skip st = st\<lparr>p_sched := (p_sched st)\<lparr>n_skipped := n_skipped (p_sched st) + 1\<rparr>\<rparr>"

definition send_due :: "play \<Rightarrow> bool" where
  "send_due st \<longleftrightarrow> next_send_time (p_cl st) \<le> p_iter st \<and> p_iter st \<le> end_time (p_sched st) \<and>
     send_index (p_sched st) < n_requests (p_sched st)"

text \<open>The end of a turn of the sending loop.\<close>

definition next_send :: "play \<Rightarrow> play result" where
  "next_send st =
     res_bind (gen_next_send_time st) (\<lambda>st.
       let st = (if end_time (p_sched st) \<le> next_send_time (p_cl st) then st\<lparr>p_complete := True\<rparr> else st) in
       Inr (count_inflight st))"

text \<open>A turn of the sending loop; the boolean says that it goes on.\<close>

definition send_once :: "client_env \<Rightarrow> play \<Rightarrow> (bool \<times> play) result" where
  "send_once E st =
     (let s = p_sched st; st = st\<lparr>p_sched := s\<lparr>attempts := attempts s + 1\<rparr>\<rparr> in
      if max_concurrency (p_cl st) < 0 \<or> p_inflight st < max_concurrency (p_cl st) then
        res_bind (gen_next_req E st) (\<lambda>(r, st).
          if r = 0 then
            (case next_cr (p_cl st) of None \<Rightarrow> psp_true EINVAL False (Inr (False, st))
             | Some i \<Rightarrow>
                 res_bind (send_request E i st) (\<lambda>(rtn, st).
                   if rtn = 0 then
                     let s = p_sched st;
                         st = st\<lparr>p_sched := s\<lparr>send_index := send_index s + 1\<rparr>, p_cl := (p_cl st)\<lparr>next_cr := None\<rparr>\<rparr> in
                     res_bind (next_send st) (\<lambda>st. Inr (True, st))
                   else if rtn = EAGAIN then Inr (False, skip st)
                   else PSP_UNREACHABLE))
          else Inr (False, skip st))
      else res_bind (next_send (skip st)) (\<lambda>st. Inr (True, st)))"

fun send_loop_due :: "nat \<Rightarrow> client_env \<Rightarrow> play \<Rightarrow> play result" where
  "send_loop_due 0 E st = (if send_due st then Inl OutOfFuel else Inr st)"
| "send_loop_due (Suc n) E st =
     (if send_due st then res_bind (send_once E st) (\<lambda>(go_on, st). if go_on then send_loop_due n E st else Inr st)
      else Inr st)"

text \<open>The number of the request a response carries.\<close>

definition response_id :: "pkt_type \<Rightarrow> mbuf \<Rightarrow> u32" where
  "response_id pt m =
     (case pt of IX \<Rightarrow> get32 (pkt_data m) (NET_HDR_SIZE + 18)
      | _ \<Rightarrow> get32 (pkt_data m) NET_HDR_SIZE)"

text \<open>The loop over the responses; \<open>n\<close> is the room left in the batch, the result counts the responses.\<close>

fun dequeue_loop :: "nat \<Rightarrow> u64 \<Rightarrow> play \<Rightarrow> (nat \<times> play) result" where
  "dequeue_loop 0 pop_time st = Inr (0, st)"
| "dequeue_loop (Suc n) pop_time st =
     (case p_udp st of None \<Rightarrow> Inl NullDeref
      | Some u \<Rightarrow>
          if pop_tail u < pop_head u then
            let req = inbound_queue u (unat (pop_tail u AND (INBOUND_Q_LEN - 1)));
                st = set_udp (u\<lparr>pop_tail := pop_tail u + 1\<rparr>) st in
            if req = NULL then Inl NullDeref
            else
              let i = unat (response_id (ptype (p_sched st)) (p_ms st req) XOR id_tag (w_id (cl_base (p_cl st)))) in
              res_bind (get_at (cl_requests (p_cl st)) (int i)) (\<lambda>cr.
                let (r, pool) = free_mbuf (p_pool st) req;
                    st = set_request i (cr\<lparr>completed := pop_time\<rparr>) (st\<lparr>p_pool := pool\<rparr>) in
                psp_ok r (res_bind (dequeue_loop n pop_time st) (\<lambda>(batch, st). Inr (batch + 1, st))))
          else Inr (0, st))"

definition dequeue_responses :: "client_env \<Rightarrow> play \<Rightarrow> play result" where
  "dequeue_responses E st =
     (if p_status st = 0 then
        res_bind (dequeue_loop MAX_RX_BURST (ce_tsc E (p_k st)) (st\<lparr>p_k := p_k st + 1\<rparr>)) (\<lambda>(batch, st).
          let s = p_sched st in Inr (st\<lparr>p_sched := s\<lparr>recv_requests := recv_requests s + of_nat batch\<rparr>\<rparr>))
      else Inr st)"

definition playing :: "play \<Rightarrow> bool" where
  "playing st \<longleftrightarrow> recv_requests (p_sched st) < n_requests (p_sched st) \<and> \<not> w_terminate (cl_base (p_cl st))"

text \<open>A turn of the main loop; \<open>n\<close> is the fuel of the loops in it.\<close>

definition play_once :: "nat \<Rightarrow> client_env \<Rightarrow> play \<Rightarrow> play result" where
  "play_once n E st =
     res_bind (poll_loop n E (st\<lparr>p_status := EAGAIN\<rparr>)) (\<lambda>st.
     res_bind (send_loop_due n E (count_inflight st)) (\<lambda>st.
       if p_inflight st = 0 \<and> (p_complete st \<or> end_time (p_sched st) < p_iter st) then Inr (set_terminate st)
       else dequeue_responses E st))"

fun play_loop :: "nat \<Rightarrow> nat \<Rightarrow> client_env \<Rightarrow> play \<Rightarrow> play result" where
  "play_loop n 0 E st = (if playing st then Inl OutOfFuel else Inr st)"
| "play_loop n (Suc f) E st = (if playing st then res_bind (play_once n E st) (play_loop n f E) else Inr st)"

definition take_now :: "client_env \<Rightarrow> play \<Rightarrow> tp \<times> play" where
  "take_now E st = (ce_now E (p_k st), st\<lparr>p_k := p_k st + 1\<rparr>)"

definition play_schedule :: "nat \<Rightarrow> client_env \<Rightarrow> play \<Rightarrow> (int \<times> play) result" where
  "play_schedule n E st =
     (let (t0, st) = take_now E st; times = send_times (p_sched st) in
      if times = [] then Inl OutOfBounds
      else
        let off = t0 - times ! 0;
            s = (p_sched st)\<lparr>start_time := t0, end_time := last times + off\<rparr>;
            st = st\<lparr>p_sched := s, p_cl := (p_cl st)\<lparr>start_offset := off, send_time_it := 0, next_cr := None\<rparr>\<rparr> in
        res_bind (gen_next_send_time st) (\<lambda>st.
          let (t, st) = take_now E st;
              st = st\<lparr>p_complete := False, p_iter := t, p_status := EAGAIN,
                      p_cl := (p_cl st)\<lparr>cl_base := (cl_base (p_cl st))\<lparr>w_terminate := False\<rparr>\<rparr>\<rparr> in
          res_bind (play_loop n n E st) (\<lambda>st.
          res_bind (if p_complete st then Inr (end_time (p_sched st))
                    else res_bind (get_at (send_times (p_sched st)) (int (send_time_it (p_cl st)))) (\<lambda>t. Inr (t + start_offset (p_cl st)))) (\<lambda>t.
            let s = p_sched st;
                (te, st) = take_now E (st\<lparr>p_sched := s\<lparr>last_send_time := t\<rparr>\<rparr>);
                s = (p_sched st)\<lparr>end_time := te\<rparr> in
            Inr (0, st\<lparr>p_sched := s, p_cl := (p_cl st)\<lparr>send_offset := send_offset (p_cl st) + n_requests s\<rparr>\<rparr>)))))"

text \<open>The worker's function: every schedule in order, each written back to the object.\<close>

fun play_all :: "nat \<Rightarrow> client_env \<Rightarrow> nat list \<Rightarrow> play \<Rightarrow> play result" where
  "play_all n E [] st = Inr st"
| "play_all n E (j # js) st =
     res_bind (get_at (cl_schedules (p_cl st)) (int j)) (\<lambda>s.
     res_bind (play_schedule n E (st\<lparr>p_sched := s\<rparr>)) (\<lambda>(r, st).
     psp_ok r (play_all n E js (st\<lparr>p_cl := (p_cl st)\<lparr>cl_schedules := (cl_schedules (p_cl st))[j := p_sched st]\<rparr>\<rparr>))))"

definition client_work :: "nat \<Rightarrow> client_env \<Rightarrow> play \<Rightarrow> (int \<times> play) result" where
  "client_work n E st =
     res_bind (play_all n E [0..<length (cl_schedules (p_cl st))] st) (\<lambda>st. Inr (0, set_terminate st))"

section \<open>Requests and responses\<close>

lemma get32_out_bytes: "42 \<le> i \<Longrightarrow> get32 (out_bytes u d b) i = get32 b i"
  by (simp add: get32_def out_bytes_fields(9))

lemma get32_put64: "j + 3 < i \<or> i + 7 < j \<Longrightarrow> get32 (put64 i v b) j = get32 b j"
  by (auto simp: put64_def)

lemma get32_fill: "j + 3 < i \<Longrightarrow> get32 (fill_bytes i n v b) j = get32 b j"
  by (simp add: get32_def fill_bytes_def)

lemma write_request_id:
  assumes "write_request room s wid cr m = Inr m'"
  shows "response_id (ptype s) m' = cr_id cr" "ptype s \<noteq> PT_UNKNOWN"
  using assms
  by (auto simp: write_request_def response_id_def put_ix_def NET_HDR_SIZE_def get32_put64 get32_fill PSP_UNREACHABLE_def psp_panic_def Let_def
      split: pkt_type.splits if_splits)

text \<open>
  A packet that arrives: the bytes of its length are those sent; the bytes behind them and the other fields of
  the receiver's buffer are whatever that buffer holds.
\<close>

definition arrives :: "mbuf \<Rightarrow> mbuf \<Rightarrow> bool" where
  "arrives m r \<longleftrightarrow> data_len r = data_len m \<and> (\<forall>i < unat (data_len m). pkt_data r i = pkt_data m i)"

lemma arrives_get32: "arrives m r \<Longrightarrow> i + 4 \<le> unat (data_len m) \<Longrightarrow> get32 (pkt_data r) i = get32 (pkt_data m) i"
  by (simp add: arrives_def get32_def)

lemma write_request_len:
  assumes "write_request room s wid cr m = Inr m'" "ptype s \<noteq> IX" "ptype s = RAW \<longrightarrow> pkt_size s < 256"
  shows "4 \<le> unat (l4_len m')"
proof -
  have "unat (ucast (pkt_size s) :: u8) = unat (pkt_size s)" if "ptype s = RAW"
    using that assms(3) by (simp add: unsigned_ucast_eq take_bit_nat_eq_self word_less_nat_alt)
  then show ?thesis using assms(1,2)
    by (auto simp: write_request_def PSP_UNREACHABLE_def psp_panic_def Let_def not_less word_le_nat_alt
        split: pkt_type.splits if_splits)
qed

text \<open>The length of a packet whose word behind the message is zero.\<close>

lemma prepare_sent:
  assumes "pkt \<noteq> NULL" "get32 (pkt_data (ms pkt)) (NET_HDR_SIZE + unat (l4_len (ms pkt))) = 0"
  obtains ms' where "prepare_outbound_packet u ms pkt = Inr (0, pkt, ms')" "unat (data_len (ms' pkt)) = 42 + unat (l4_len (ms pkt))"
    "\<And>i. 42 \<le> i \<Longrightarrow> get32 (pkt_data (ms' pkt)) i = get32 (pkt_data (ms pkt)) i"
proof -
  let ?l = "l4_len (ms pkt)"
  have l: "unat ?l < 256" using unsigned_less [of ?l, where 'a = nat] by simp
  have "unat (42 + ucast ?l :: u32) = 42 + unat ?l"
    using l by (subst unat_word_ariths) (simp add: unsigned_ucast_eq take_bit_nat_eq_self)
  then have "unat (ucast (42 + ucast ?l :: u32) :: u16) = 42 + unat ?l"
    using l by (simp add: unsigned_ucast_eq take_bit_nat_eq_self)
  then have "\<exists>ms'. prepare_outbound_packet u ms pkt = Inr (0, pkt, ms') \<and> unat (data_len (ms' pkt)) = 42 + unat ?l \<and>
      (\<forall>i. 42 \<le> i \<longrightarrow> get32 (pkt_data (ms' pkt)) i = get32 (pkt_data (ms pkt)) i)"
    using assms by (simp add: prepare_outbound_packet_def Let_def get32_out_bytes NET_HDR_SIZE_def)
  then show ?thesis using that by blast
qed

lemma served_sent:
  assumes "pay \<noteq> NULL"
  obtains mb' ms' where "mb_process_request mb ms pay = Inr (0, mb', ms')" "l4_len (ms' pay) = 12"
    "get32 (pkt_data (ms' pay)) 54 = 0" "get32 (pkt_data (ms' pay)) 42 = get32 (pkt_data (ms pay)) 42"
  using assms by (simp add: mb_process_request_def Let_def NET_HDR_SIZE_def REQ_OFF_def TYPE_OFF_def ID_OFF_def)

lemma send_null_panics:
  assumes "p_udp st = Some u" "push_head u = push_tail u" "push_tail u < push_tail u + 1"
    and "get_at (cl_requests (p_cl st)) (int i) = Inr cr" "cr_mbuf cr = NULL"
  shows "send_request E i st = Inl Panic"
proof -
  have "send_loop MAX_TX_BURST (u\<lparr>outbound_queue := (outbound_queue u)(unat (push_head u AND 127) := NULL),
      push_head := push_head u + 1\<rparr>) ms = Inl Panic" for ms
    using assms(2,3) by (simp add: MAX_TX_BURST_def eval_nat_numeral OUTBOUND_Q_LEN_def prepare_outbound_packet_def)
  then show ?thesis using assms by (simp add: send_request_def OUTBOUND_Q_LEN_def send_packets_def)
qed

section \<open>Properties\<close>

text \<open>
  C26: A response finds the request it answers.  A request in the microbenchmark format, or a raw one of less
  than 256 bytes, carries its number marked with the worker.  When the buffer is zero behind the message, the
  packet leaves with the headers and the message and nothing else.  A server that receives these bytes, in a
  buffer that holds anything behind them, handles the request and answers with 54 bytes; and from every
  buffer these 54 bytes arrive in the client reads the number of the request back.
\<close>

theorem response_matches_request:
  assumes "write_request room s wid (cr\<lparr>cr_id := cr_id cr XOR id_tag wid\<rparr>) m = Inr m'" "pay \<noteq> NULL"
    and "ptype s = PSP_MB \<or> ptype s = RAW \<and> pkt_size s < 256"
    and "get32 (pkt_data m') (NET_HDR_SIZE + unat (l4_len m')) = 0"
  shows "\<exists>ms1. prepare_outbound_packet client (ms(pay := m')) pay = Inr (0, pay, ms1) \<and>
     unat (data_len (ms1 pay)) = 42 + unat (l4_len m') \<and>
     (\<forall>srv p. p \<noteq> NULL \<longrightarrow> arrives (ms1 pay) (srv p) \<longrightarrow>
        (\<exists>mb' ms2 ms3. mb_process_request mb srv p = Inr (0, mb', ms2) \<and>
           prepare_outbound_packet server ms2 p = Inr (0, p, ms3) \<and> data_len (ms3 p) = 54 \<and>
           (\<forall>r. arrives (ms3 p) r \<longrightarrow> response_id (ptype s) r XOR id_tag wid = cr_id cr)))"
proof -
  have id: "response_id (ptype s) r = get32 (pkt_data r) 42" for r
    using assms(3) by (auto simp: response_id_def NET_HDR_SIZE_def)
  have "4 \<le> unat (l4_len m')" using write_request_len [OF assms(1)] assms(3) by auto
  obtain ms1 where 1: "prepare_outbound_packet client (ms(pay := m')) pay = Inr (0, pay, ms1)"
      "unat (data_len (ms1 pay)) = 42 + unat (l4_len m')" "get32 (pkt_data (ms1 pay)) 42 = get32 (pkt_data m') 42"
    by (rule prepare_sent [of pay "ms(pay := m')" client]) (use assms(2,4) in simp_all)
  have "\<exists>mb' ms2 ms3. mb_process_request mb srv p = Inr (0, mb', ms2) \<and>
      prepare_outbound_packet server ms2 p = Inr (0, p, ms3) \<and> data_len (ms3 p) = 54 \<and>
      (\<forall>r. arrives (ms3 p) r \<longrightarrow> response_id (ptype s) r XOR id_tag wid = cr_id cr)"
    if p: "p \<noteq> NULL" and arr: "arrives (ms1 pay) (srv p)" for srv p
  proof -
    obtain mb' ms2 where 2: "mb_process_request mb srv p = Inr (0, mb', ms2)" "l4_len (ms2 p) = 12"
        "get32 (pkt_data (ms2 p)) 54 = 0" "get32 (pkt_data (ms2 p)) 42 = get32 (pkt_data (srv p)) 42"
      by (rule served_sent [OF p])
    obtain ms3 where 3: "prepare_outbound_packet server ms2 p = Inr (0, p, ms3)" "unat (data_len (ms3 p)) = 54"
        "get32 (pkt_data (ms3 p)) 42 = get32 (pkt_data (ms2 p)) 42"
      by (rule prepare_sent [of p ms2 server]) (use p 2(2,3) in \<open>simp_all add: NET_HDR_SIZE_def\<close>)
    have "get32 (pkt_data (srv p)) 42 = get32 (pkt_data m') 42"
      using arrives_get32 [OF arr, of 42] 1(2,3) \<open>4 \<le> unat (l4_len m')\<close> by simp
    then have "get32 (pkt_data (ms3 p)) 42 = cr_id cr XOR id_tag wid"
      using 2(4) 3(3) write_request_id(1) [OF assms(1)] by (simp add: id)
    then have "response_id (ptype s) r XOR id_tag wid = cr_id cr" if "arrives (ms3 p) r" for r
      using arrives_get32 [OF that, of 42] 3(2) by (simp add: id xor.assoc)
    moreover have "data_len (ms3 p) = 54" using 3(2) by (simp add: word_unat_eq_iff)
    ultimately show ?thesis using 2(1) 3(1) by blast
  qed
  then show ?thesis using 1(1,2) by blast
qed

theorem response_matches_request_witness:
  "\<exists>ms1 mb' ms2 ms3 m'. write_request 2048 ex_sched 3 ((ex_request 5 RT_SHORT 0 0)\<lparr>cr_id := 5 XOR id_tag 3\<rparr>) ex_mbuf = Inr m' \<and>
     prepare_outbound_packet ex_udp ((\<lambda>_. ex_mbuf)(4096 := m')) 4096 = Inr (0, 4096, ms1) \<and>
     unat (data_len (ms1 4096)) = 58 \<and>
     mb_process_request \<lparr>mb_requests = 0, mb_shorts = 0, mb_longs = 0\<rparr> ms1 4096 = Inr (0, mb', ms2) \<and>
     prepare_outbound_packet ex_udp ms2 4096 = Inr (0, 4096, ms3) \<and> response_id PSP_MB (ms3 4096) XOR id_tag 3 = 5"
proof -
  have cr: "ex_request 5 RT_SHORT 0 0\<lparr>cr_id := cr_id (ex_request 5 RT_SHORT 0 0) XOR id_tag 3\<rparr> =
      (ex_request 5 RT_SHORT 0 0)\<lparr>cr_id := 5 XOR id_tag 3\<rparr>" and id: "cr_id (ex_request 5 RT_SHORT 0 0) = 5"
    by (simp_all add: ex_request_def)
  have pt: "ptype ex_sched = PSP_MB" by (simp add: ex_sched_def)
  then obtain m' where m: "write_request 2048 ex_sched 3 ((ex_request 5 RT_SHORT 0 0)\<lparr>cr_id := 5 XOR id_tag 3\<rparr>) ex_mbuf = Inr m'"
      "l4_len m' = 16" "get32 (pkt_data m') 58 = 0"
    by (simp add: write_request_def Let_def NET_HDR_SIZE_def) (simp add: get32_def put32_def ex_mbuf_def)
  have p: "(4096 :: ptr) \<noteq> NULL" by simp
  have z: "get32 (pkt_data m') (NET_HDR_SIZE + unat (l4_len m')) = 0" using m(2,3) by (simp add: NET_HDR_SIZE_def)
  have refl: "arrives x x" for x by (simp add: arrives_def)
  obtain ms1 where ms1: "prepare_outbound_packet ex_udp ((\<lambda>_. ex_mbuf)(4096 := m')) 4096 = Inr (0, 4096, ms1)"
      "unat (data_len (ms1 4096)) = 58"
      "\<exists>mb' ms2 ms3. mb_process_request \<lparr>mb_requests = 0, mb_shorts = 0, mb_longs = 0\<rparr> ms1 4096 = Inr (0, mb', ms2) \<and>
         prepare_outbound_packet ex_udp ms2 4096 = Inr (0, 4096, ms3) \<and> data_len (ms3 4096) = 54 \<and>
         (\<forall>r. arrives (ms3 4096) r \<longrightarrow> response_id PSP_MB r XOR id_tag 3 = 5)"
    using response_matches_request [OF m(1) [folded cr] p _ z, of ex_udp "\<lambda>_. ex_mbuf"
        "\<lparr>mb_requests = 0, mb_shorts = 0, mb_longs = 0\<rparr>" ex_udp] m(2) p refl unfolding pt id by auto
  then show ?thesis using m(1) refl by blast
qed

text \<open>
  The server's answer does not return the number of a request in the IX format: it is at bytes 60 to 63, and
  the answer has 54.  The client reads what the buffer it receives the answer in holds there.
\<close>

lemma ix_id_not_returned:
  assumes "p \<noteq> NULL"
  shows "\<exists>mb' ms2 ms3. mb_process_request mb srv p = Inr (0, mb', ms2) \<and> prepare_outbound_packet server ms2 p = Inr (0, p, ms3) \<and>
     (\<forall>x. \<exists>r. arrives (ms3 p) r \<and> response_id IX r = x)"
proof -
  obtain mb' ms2 where 2: "mb_process_request mb srv p = Inr (0, mb', ms2)" "l4_len (ms2 p) = 12" "get32 (pkt_data (ms2 p)) 54 = 0"
    by (rule served_sent [OF assms])
  obtain ms3 where 3: "prepare_outbound_packet server ms2 p = Inr (0, p, ms3)" "unat (data_len (ms3 p)) = 54"
    by (rule prepare_sent [of p ms2 server]) (use assms 2(2,3) in \<open>simp_all add: NET_HDR_SIZE_def\<close>)
  have "\<exists>r. arrives (ms3 p) r \<and> response_id IX r = x" for x
  proof -
    let ?r = "(ms3 p)\<lparr>pkt_data := put32 60 x (pkt_data (ms3 p))\<rparr>"
    have "arrives (ms3 p) ?r" using 3(2) by (simp add: arrives_def put32_def)
    moreover have "response_id IX ?r = x" by (simp add: response_id_def NET_HDR_SIZE_def)
    ultimately show ?thesis by blast
  qed
  then show ?thesis using 2(1) 3(1) by blast
qed


definition ex_client :: Client where
  "ex_client = \<lparr>cl_base = (ex_worker 3)\<lparr>w_udp_ctx := Some (ex_udp\<lparr>push_head := 0\<rparr>)\<rparr>, cl_hist = hist_clear, cl_requests = [ex_request 0 RT_SHORT 0 0],
     send_offset = 0, cl_schedules = [], send_time_it = 1, next_send_time = 0, start_offset = 0, next_cr = None, max_concurrency = -1\<rparr>"

definition ex_play :: play where
  "ex_play = \<lparr>p_cl = ex_client, p_sched = ex_sched\<lparr>n_requests := 1, send_times := [0], end_time := 10 ^ 9\<rparr>, p_ms = (\<lambda>_. ex_mbuf), p_pool = [], p_k = 0,
     p_out = [], p_iter = 5, p_status = EAGAIN, p_inflight = 0, p_complete = False\<rparr>"

definition ex_env_no_mbuf :: client_env where
  "ex_env_no_mbuf = \<lparr>ce_now = int, ce_tsc = of_nat, ce_rx = (\<lambda>_. []), ce_alloc = (\<lambda>_. NULL), ce_tx = (\<lambda>_. length), ce_room = 2048\<rparr>"


end
