(* ===== verification/Client_Loops.thy ===== *)
theory Client_Loops
  imports Client_Play
begin

text \<open>
  The loops of the load generator (\<open>play_schedule\<close> of \<^verbatim>\<open>src/c++/apps/client/client.hh\<close>): what a turn of the sending
  loop changes, that the number of requests in flight stays bounded, that the schedule is read within its
  bounds, and that a schedule ends once the clock passes its maximal duration.
\<close>

section \<open>Results other than exhausted fuel\<close>

named_theorems ends_intros \<open>rules for results that are not exhausted fuel\<close>

definition ends :: "'a result \<Rightarrow> bool" where
  "ends r \<longleftrightarrow> r \<noteq> Inl OutOfFuel"

lemma ends_simps [simp]: "ends (Inr x)" "ends (Inl e) \<longleftrightarrow> e \<noteq> OutOfFuel"
  by (simp_all add: ends_def)

lemma ends_bind [ends_intros]: "ends m \<Longrightarrow> (\<And>x. m = Inr x \<Longrightarrow> ends (f x)) \<Longrightarrow> ends (res_bind m f)"
  by (cases m) simp_all

lemma ends_checks [ends_intros]:
  "ends k \<Longrightarrow> ends (psp_true e c k)" "ends k \<Longrightarrow> ends (psp_ok r k)" "ends (get_at xs i)" "ends (PSP_UNREACHABLE :: 'a result)"
  by (simp_all add: psp_true_if psp_ok_if get_at_def PSP_UNREACHABLE_def psp_panic_def)

lemma ends_send_packets: "ends (send_packets u ms tx)"
proof -
  have "ends (send_loop n u ms)" for n u ms
    by (induction n u ms rule: send_loop.induct)
      (auto simp: prepare_outbound_packet_def Let_def intro!: ends_intros)
  then show ?thesis unfolding send_packets_def by (auto intro!: ends_intros simp: Let_def)
qed

lemma ends_recv_packets: "ends (recv_packets u rx)"
proof -
  have "ends (parse_packets u ps)" for u ps
    by (induction u ps rule: parse_packets.induct) (auto simp: parse_packet_def intro!: ends_intros)
  then show ?thesis unfolding recv_packets_def by (auto intro!: ends_intros)
qed

lemma ends_request: "ends (send_request E i st)" "ends (gen_next_req E st)"
proof -
  show "ends (send_request E i st)"
    by (auto simp: send_request_def Let_def split: option.split intro!: ends_intros ends_send_packets)
  have "ends (write_request room s wid cr m)" for room s wid cr m
    by (auto simp: write_request_def Let_def split: pkt_type.split intro!: ends_intros)
  then show "ends (gen_next_req E st)"
    by (auto simp: gen_next_req_def Let_def split: option.split prod.split intro!: ends_intros)
qed

lemma ends_send_once: "ends (send_once E st)"
  by (auto simp: send_once_def next_send_def gen_next_send_time_def Let_def split: option.split
      intro!: ends_intros ends_request)

lemma ends_poll_once: "ends (poll_once E st)"
  by (auto simp: poll_once_def Let_def split: option.split intro!: ends_intros ends_recv_packets)

lemma ends_dequeue: "ends (dequeue_responses E st)"
proof -
  have "ends (dequeue_loop n t st)" for n t st
    by (induction n t st rule: dequeue_loop.induct)
      (auto simp: Let_def free_mbuf_def split: option.split intro!: ends_intros)
  then show ?thesis unfolding dequeue_responses_def by (auto simp: Let_def intro!: ends_intros)
qed

section \<open>What the operations change\<close>

text \<open>Making and sending a request leaves the schedule, the times and the local variables alone.\<close>

definition quiet :: "play \<Rightarrow> play \<Rightarrow> bool" where
  "quiet st st' \<longleftrightarrow> p_sched st' = p_sched st \<and> p_iter st' = p_iter st \<and> p_k st \<le> p_k st' \<and> p_status st' = p_status st \<and>
     p_inflight st' = p_inflight st \<and> p_complete st' = p_complete st \<and>
     send_time_it (p_cl st') = send_time_it (p_cl st) \<and> next_send_time (p_cl st') = next_send_time (p_cl st) \<and>
     start_offset (p_cl st') = start_offset (p_cl st) \<and> max_concurrency (p_cl st') = max_concurrency (p_cl st) \<and>
     w_terminate (cl_base (p_cl st')) = w_terminate (cl_base (p_cl st))"

lemma quiet_updates [simp]:
  "quiet st st" "quiet st (set_udp u st') \<longleftrightarrow> quiet st st'" "quiet st (set_request i r st') \<longleftrightarrow> quiet st st'"
  by (simp_all add: quiet_def set_udp_def set_request_def)

lemma send_request_quiet: "send_request E i st = Inr (r, st') \<Longrightarrow> quiet st st'"
  by (auto simp: send_request_def Let_def res_bind_eq_Inr psp_ok_if split: option.splits if_splits) (simp add: quiet_def)

lemma gen_next_req_quiet: "gen_next_req E st = Inr (r, st') \<Longrightarrow> quiet st st'"
  by (auto simp: gen_next_req_def Let_def res_bind_eq_Inr psp_true_if split: option.splits if_splits prod.splits)
    (auto simp: quiet_def set_request_def)

text \<open>A turn of a loop keeps what the schedule prescribes and the clock reading.\<close>

definition turn :: "play \<Rightarrow> play \<Rightarrow> bool" where
  "turn st st' \<longleftrightarrow> send_times (p_sched st') = send_times (p_sched st) \<and> start_time (p_sched st') = start_time (p_sched st) \<and>
     end_time (p_sched st') = end_time (p_sched st) \<and> max_duration (p_sched st') = max_duration (p_sched st) \<and>
     n_requests (p_sched st') = n_requests (p_sched st) \<and> recv_requests (p_sched st') = recv_requests (p_sched st) \<and>
     p_iter st' = p_iter st \<and> p_k st \<le> p_k st' \<and> p_status st' = p_status st \<and>
     start_offset (p_cl st') = start_offset (p_cl st) \<and> max_concurrency (p_cl st') = max_concurrency (p_cl st) \<and>
     w_terminate (cl_base (p_cl st')) = w_terminate (cl_base (p_cl st))"

lemma turn_refl [simp]: "turn st st"
  by (simp add: turn_def)

lemma turn_trans: "turn a b \<Longrightarrow> turn b c \<Longrightarrow> turn a c"
  unfolding turn_def by auto

text \<open>The next element of the schedule has been read, and the requests in flight counted.\<close>

definition advanced :: "play \<Rightarrow> play \<Rightarrow> bool" where
  "advanced st st' \<longleftrightarrow> send_time_it (p_cl st) < length (send_times (p_sched st)) \<and>
     send_time_it (p_cl st') = Suc (send_time_it (p_cl st)) \<and>
     next_send_time (p_cl st') = send_times (p_sched st) ! send_time_it (p_cl st) + start_offset (p_cl st) \<and>
     p_inflight st' = sint (send_index (p_sched st') - recv_requests (p_sched st'))"

lemma next_send_advanced:
  "next_send st = Inr st' \<Longrightarrow> turn st st' \<and> advanced st st' \<and> send_index (p_sched st') = send_index (p_sched st)"
  by (auto simp: next_send_def gen_next_send_time_def count_inflight_def turn_def advanced_def get_at_def Let_def res_bind_eq_Inr
      split: if_splits)

definition may_send :: "play \<Rightarrow> bool" where
  "may_send st \<longleftrightarrow> max_concurrency (p_cl st) < 0 \<or> p_inflight st < max_concurrency (p_cl st)"

lemma quiet_turn: "quiet st st' \<Longrightarrow> turn st st'"
  by (auto simp: quiet_def turn_def)

text \<open>The effect of a turn of the sending loop that goes on, or not.\<close>

definition send_effect :: "bool \<Rightarrow> play \<Rightarrow> play \<Rightarrow> bool" where
  "send_effect go st st' \<longleftrightarrow>
     turn st st' \<and>
     (if go then advanced st st' \<and>
        (send_index (p_sched st') = send_index (p_sched st) \<or> may_send st \<and> send_index (p_sched st') = send_index (p_sched st) + 1)
      else send_index (p_sched st') = send_index (p_sched st) \<and> send_time_it (p_cl st') = send_time_it (p_cl st) \<and>
        next_send_time (p_cl st') = next_send_time (p_cl st) \<and> p_inflight st' = p_inflight st)"

lemma send_once_effect:
  assumes "send_once E st = Inr (go, st')"
  shows "send_effect go st st'"
proof -
  let ?st = "st\<lparr>p_sched := (p_sched st)\<lparr>attempts := attempts (p_sched st) + 1\<rparr>\<rparr>"
  have m: "max_concurrency (p_cl st) < 0 \<or> p_inflight st < max_concurrency (p_cl st) \<longleftrightarrow> may_send st" by (simp add: may_send_def)
  show ?thesis
  proof (cases "may_send st")
    case False
    then have go: "next_send (skip ?st) = Inr st'" "go" using assms m by (auto simp: send_once_def Let_def res_bind_eq_Inr)
    then show ?thesis using next_send_advanced [OF go(1)] by (auto simp: send_effect_def turn_def advanced_def skip_def)
  next
    case True
    then obtain r st1 where 1: "gen_next_req E ?st = Inr (r, st1)" "quiet ?st st1"
      using assms m gen_next_req_quiet by (auto simp: send_once_def Let_def res_bind_eq_Inr)
    show ?thesis
    proof (cases "r = 0")
      case False
      then have "go = False" "st' = skip st1" using assms 1 True m by (auto simp: send_once_def Let_def)
      then show ?thesis using 1(2) by (auto simp: send_effect_def quiet_def turn_def skip_def)
    next
      case r0: True
      then obtain i rtn st2 where 2: "next_cr (p_cl st1) = Some i" "send_request E i st1 = Inr (rtn, st2)" "quiet st1 st2"
        using assms 1 True m send_request_quiet by (auto simp: send_once_def Let_def res_bind_eq_Inr split: option.splits)
      show ?thesis
      proof (cases "rtn = 0")
        case False
        then have "go = False" "st' = skip st2"
          using assms 1 2 True m r0 by (auto simp: send_once_def Let_def PSP_UNREACHABLE_def psp_panic_def split: if_splits)
        then show ?thesis using 1(2) 2(3) by (auto simp: send_effect_def quiet_def turn_def skip_def)
      next
        case rtn0: True
        let ?st2 = "st2\<lparr>p_sched := (p_sched st2)\<lparr>send_index := send_index (p_sched st2) + 1\<rparr>, p_cl := (p_cl st2)\<lparr>next_cr := None\<rparr>\<rparr>"
        have go: "next_send ?st2 = Inr st'" "go" using assms 1 2 True m r0 rtn0 by (auto simp: send_once_def Let_def res_bind_eq_Inr)
        then show ?thesis using next_send_advanced [OF go(1)] 1(2) 2(3) True by (auto simp: send_effect_def quiet_def turn_def advanced_def)
      qed
    qed
  qed
qed

section \<open>The sending loop\<close>

lemma send_loop_step:
  assumes "send_loop_due (Suc n) E st = Inr st'"
  shows "st' = st \<and> \<not> send_due st \<or> (\<exists>go st1. send_due st \<and> send_once E st = Inr (go, st1) \<and>
       (if go then send_loop_due n E st1 = Inr st' else st' = st1))"
proof (cases "send_due st")
  case True
  then obtain x where "send_once E st = Inr x" "(case x of (go_on, st) \<Rightarrow> if go_on then send_loop_due n E st else Inr st) = Inr st'"
    using assms unfolding send_loop_due.simps res_bind_eq_Inr by (simp only: if_True res_bind_eq_Inr) blast
  then show ?thesis using True by (cases x) (auto simp del: send_loop_due.simps split: if_splits)
qed (use assms in simp)

lemma send_loop_turn: "send_loop_due n E st = Inr st' \<Longrightarrow> turn st st'"
proof (induction n arbitrary: st)
  case (Suc n)
  from send_loop_step [OF Suc.prems] show ?case
    using Suc.IH send_once_effect turn_trans unfolding send_effect_def by (metis turn_refl)
qed (simp split: if_splits)

lemma send_loop_it:
  "send_loop_due n E st = Inr st' \<Longrightarrow> send_time_it (p_cl st) \<le> length (send_times (p_sched st)) \<Longrightarrow>
     send_time_it (p_cl st') \<le> length (send_times (p_sched st'))"
proof (induction n arbitrary: st)
  case (Suc n)
  from send_loop_step [OF Suc.prems(1)] show ?case
  proof (elim disjE exE conjE)
    fix go st1
    assume s: "send_once E st = Inr (go, st1)" "if go then send_loop_due n E st1 = Inr st' else st' = st1"
    have "send_time_it (p_cl st1) \<le> length (send_times (p_sched st1))"
      using send_once_effect [OF s(1)] Suc.prems(2) by (auto simp: send_effect_def turn_def advanced_def split: if_splits)
    then show ?thesis using s(2) Suc.IH by (auto split: if_splits)
  qed (use Suc.prems in simp)
qed (simp split: if_splits)

text \<open>The loop makes at most one turn for each element of the schedule that is left, and one more.\<close>

lemma send_loop_ends:
  "length (send_times (p_sched st)) - send_time_it (p_cl st) < n \<Longrightarrow> ends (send_loop_due n E st)"
proof (induction n arbitrary: st)
  case (Suc n)
  have "ends (if go then send_loop_due n E st1 else Inr st1)" if "send_once E st = Inr (go, st1)" for go st1
    using send_once_effect [OF that] Suc by (auto simp: send_effect_def turn_def advanced_def)
  then show ?case using ends_send_once by (auto intro!: ends_bind)
qed simp

lemma sint_Suc:
  assumes "sint (x :: u32) < 2 ^ 31 - 1"
  shows "sint (x + 1) = sint x + 1"
proof -
  have "- (2 ^ 31) \<le> sint x" using sint_ge [of x] by simp
  then show ?thesis using assms by (simp add: sint_word_ariths signed_take_bit_int_eq_self)
qed

lemma send_loop_inflight:
  assumes "max_concurrency (p_cl st) < 2 ^ 31" "0 \<le> max_concurrency (p_cl st)"
    and "p_inflight st = sint (send_index (p_sched st) - recv_requests (p_sched st))" "send_loop_due n E st = Inr st'"
  shows "p_inflight st' = sint (send_index (p_sched st') - recv_requests (p_sched st')) \<and>
     p_inflight st' \<le> max (p_inflight st) (max_concurrency (p_cl st))"
  using assms
proof (induction n arbitrary: st)
  case (Suc n)
  let ?M = "max_concurrency (p_cl st)"
  from send_loop_step [OF Suc.prems(4)] show ?case
  proof (elim disjE exE conjE)
    fix go st1
    assume s: "send_once E st = Inr (go, st1)" "if go then send_loop_due n E st1 = Inr st' else st' = st1"
    note e = send_once_effect [OF s(1), unfolded send_effect_def]
    have t: "max_concurrency (p_cl st1) = ?M" "recv_requests (p_sched st1) = recv_requests (p_sched st)" using e by (simp_all add: turn_def)
    have "sint (send_index (p_sched st) + 1 - recv_requests (p_sched st)) = p_inflight st + 1" if "may_send st"
      using sint_Suc [of "send_index (p_sched st) - recv_requests (p_sched st)"] that Suc.prems(1-3)
      by (simp add: may_send_def algebra_simps)
    then have 1: "p_inflight st1 = sint (send_index (p_sched st1) - recv_requests (p_sched st1))" "p_inflight st1 \<le> max (p_inflight st) ?M"
      using e t Suc.prems(2,3) by (auto simp: advanced_def may_send_def split: if_splits)
    then show ?thesis using s(2) Suc.IH [of st1] t Suc.prems(1,2) by (auto split: if_splits)
  qed (use Suc.prems in simp)
qed (simp split: if_splits)

section \<open>The polling loop\<close>

text \<open>What every part of the main loop keeps; the iterator does not pass the end of the schedule.\<close>

definition calm :: "play \<Rightarrow> play \<Rightarrow> bool" where
  "calm st st' \<longleftrightarrow> send_times (p_sched st') = send_times (p_sched st) \<and> start_time (p_sched st') = start_time (p_sched st) \<and>
     max_duration (p_sched st') = max_duration (p_sched st) \<and> p_k st \<le> p_k st' \<and>
     (w_terminate (cl_base (p_cl st)) \<longrightarrow> w_terminate (cl_base (p_cl st')))"

definition it_ok :: "play \<Rightarrow> bool" where
  "it_ok st \<longleftrightarrow> send_time_it (p_cl st) \<le> length (send_times (p_sched st))"

lemma calm_trans: "calm a b \<Longrightarrow> calm b c \<Longrightarrow> calm a c"
  unfolding calm_def by auto

lemma turn_calm: "turn st st' \<Longrightarrow> calm st st' \<and> p_iter st' = p_iter st"
  by (auto simp: turn_def calm_def)

lemma poll_once_effect:
  "poll_once E st = Inr st' \<Longrightarrow> calm st st' \<and> p_k st' = Suc (p_k st) \<and> p_iter st' = ce_now E (p_k st) \<and>
     send_time_it (p_cl st') = send_time_it (p_cl st)"
  by (auto simp: poll_once_def Let_def res_bind_eq_Inr calm_def set_udp_def split: option.splits)

lemma poll_loop_effect:
  "poll_loop n E st = Inr st' \<Longrightarrow> calm st st' \<and> send_time_it (p_cl st') = send_time_it (p_cl st) \<and>
     (if out_of_time st then w_terminate (cl_base (p_cl st')) else p_k st < p_k st' \<and> p_iter st' = ce_now E (p_k st' - 1))"
proof (induction n arbitrary: st)
  case (Suc n)
  show ?case
  proof (cases "out_of_time st")
    case True
    then show ?thesis using Suc.prems by (auto simp: calm_def set_terminate_def)
  next
    case False
    then obtain st1 where 1: "poll_once E st = Inr st1" "(if poll_due st1 then poll_loop n E st1 else Inr st1) = Inr st'"
      using Suc.prems unfolding poll_loop.simps by (simp only: if_False res_bind_eq_Inr) blast
    note e = poll_once_effect [OF 1(1)]
    show ?thesis
    proof (cases "poll_due st1 \<and> \<not> out_of_time st1")
      case True
      then have "poll_loop n E st1 = Inr st'" using 1(2) by simp
      from Suc.IH [OF this] True e False show ?thesis using calm_trans by auto
    next
      case stop: False
      have "st' = st1 \<or> st' = set_terminate st1" using 1(2) stop by (cases n) (auto split: if_splits)
      then show ?thesis using e False by (auto simp: calm_def set_terminate_def)
    qed
  qed
qed simp

text \<open>The clock: from call \<open>T\<close> on it shows the end of the schedule's maximal duration.\<close>

definition late :: "nat \<Rightarrow> client_env \<Rightarrow> play \<Rightarrow> bool" where
  "late T E st \<longleftrightarrow> (\<forall>k \<ge> T. start_time (p_sched st) + max_duration (p_sched st) * 10 ^ 9 \<le> ce_now E k)"

lemma late_calm: "late T E st \<Longrightarrow> calm st st' \<Longrightarrow> late T E st'"
  by (simp add: late_def calm_def)

lemma late_out_of_time: "late T E st \<Longrightarrow> T \<le> k \<Longrightarrow> p_iter st = ce_now E k \<Longrightarrow> out_of_time st"
  by (auto simp: late_def out_of_time_def)

lemma poll_loop_ends: "late T E st \<Longrightarrow> T - p_k st + 2 \<le> n \<Longrightarrow> ends (poll_loop n E st)"
proof (induction n arbitrary: st)
  case (Suc n)
  have "ends (if poll_due st1 then poll_loop n E st1 else Inr st1)" if 1: "poll_once E st = Inr st1" for st1
  proof -
    note e = poll_once_effect [OF 1]
    have l: "late T E st1" using late_calm Suc.prems(1) e by blast
    show ?thesis
    proof (cases "p_k st < T")
      case True
      then show ?thesis using Suc.IH [OF l] Suc.prems(2) e by simp
    next
      case False
      then have "out_of_time st1" using late_out_of_time [OF l, of "p_k st"] e by simp
      then show ?thesis using Suc.prems(2) by (cases n) simp_all
    qed
  qed
  then show ?case using ends_poll_once [of E st] by (auto intro!: ends_bind)
qed simp

section \<open>The main loop\<close>

lemma dequeue_loop_turn: "dequeue_loop n t st = Inr (b, st') \<Longrightarrow> turn st st' \<and> send_time_it (p_cl st') = send_time_it (p_cl st)"
proof (induction n t st arbitrary: b rule: dequeue_loop.induct)
  case (2 n t st)
  show ?case
  proof (cases "\<exists>u. p_udp st = Some u \<and> pop_tail u < pop_head u")
    case True
    then obtain u where u: "p_udp st = Some u" "pop_tail u < pop_head u" by blast
    let ?req = "inbound_queue u (unat (pop_tail u AND (INBOUND_Q_LEN - 1)))"
    let ?st = "set_udp (u\<lparr>pop_tail := pop_tail u + 1\<rparr>) st"
    let ?i = "unat (response_id (ptype (p_sched ?st)) (p_ms ?st ?req) XOR id_tag (w_id (cl_base (p_cl ?st))))"
    obtain cr b' where "get_at (cl_requests (p_cl ?st)) (int ?i) = Inr cr" "?req \<noteq> NULL"
        and rec: "dequeue_loop n t (set_request ?i (cr\<lparr>completed := t\<rparr>) (?st\<lparr>p_pool := snd (free_mbuf (p_pool ?st) ?req)\<rparr>)) = Inr (b', st')"
      using "2.prems" u by (auto simp: Let_def res_bind_eq_Inr free_mbuf_def split: if_splits)
    then have "turn (set_request ?i (cr\<lparr>completed := t\<rparr>) (?st\<lparr>p_pool := snd (free_mbuf (p_pool ?st) ?req)\<rparr>)) st' \<and>
        send_time_it (p_cl st') = send_time_it (p_cl st)"
      using "2.IH" [OF u _ refl] by (auto simp: free_mbuf_def set_request_def set_udp_def)
    then show ?thesis by (simp add: turn_def set_request_def set_udp_def)
  qed (use "2.prems" in \<open>auto split: option.splits\<close>)
qed simp

lemma dequeue_effect:
  assumes "dequeue_responses E st = Inr st'"
  shows "calm st st' \<and> p_iter st' = p_iter st \<and> send_time_it (p_cl st') = send_time_it (p_cl st)"
proof (cases "p_status st = 0")
  case True
  then obtain b st1 where 1: "dequeue_loop MAX_RX_BURST (ce_tsc E (p_k st)) (st\<lparr>p_k := p_k st + 1\<rparr>) = Inr (b, st1)"
      "st' = st1\<lparr>p_sched := (p_sched st1)\<lparr>recv_requests := recv_requests (p_sched st1) + of_nat b\<rparr>\<rparr>"
    using assms by (auto simp: dequeue_responses_def Let_def res_bind_eq_Inr)
  show ?thesis using dequeue_loop_turn [OF 1(1)] by (auto simp: 1(2) turn_def calm_def)
qed (use assms in \<open>simp add: dequeue_responses_def calm_def\<close>)

text \<open>The variant: the calls until the clock shows the end, and the turn that notices it.\<close>

definition turns_left :: "nat \<Rightarrow> play \<Rightarrow> nat" where
  "turns_left T st = (if out_of_time st then 1 else T - p_k st + 2)"

lemma play_once_effect:
  assumes "play_once n E st = Inr st'" "late T E st" "it_ok st"
  shows "calm st st'" "it_ok st'" "w_terminate (cl_base (p_cl st')) \<or> turns_left T st' < turns_left T st"
proof -
  let ?st = "st\<lparr>p_status := EAGAIN\<rparr>"
  obtain st1 st2 where 1: "poll_loop n E ?st = Inr st1" and 2: "send_loop_due n E (count_inflight st1) = Inr st2"
    and 3: "(if p_inflight st2 = 0 \<and> (p_complete st2 \<or> end_time (p_sched st2) < p_iter st2) then Inr (set_terminate st2)
       else dequeue_responses E st2) = Inr st'"
    using assms(1) unfolding play_once_def res_bind_eq_Inr by blast
  have st: "calm ?st = calm st" "out_of_time ?st = out_of_time st" "p_k ?st = p_k st" "p_cl ?st = p_cl st"
    by (simp_all add: fun_eq_iff calm_def out_of_time_def)
  have e1: "calm st st1" "send_time_it (p_cl st1) = send_time_it (p_cl st)"
      "if out_of_time st then w_terminate (cl_base (p_cl st1)) else p_k st < p_k st1 \<and> p_iter st1 = ce_now E (p_k st1 - 1)"
    using poll_loop_effect [OF 1] unfolding st by simp_all
  have e2: "calm st1 st2" "p_iter st2 = p_iter st1"
    using turn_calm [OF send_loop_turn [OF 2]] by (simp_all add: calm_def count_inflight_def)
  have it1: "it_ok st1" using assms(3) e1 by (simp add: it_ok_def calm_def)
  have it2: "it_ok st2" using send_loop_it [OF 2] it1 by (simp add: it_ok_def count_inflight_def)
  have e3: "calm st2 st'" "p_iter st' = p_iter st2" "send_time_it (p_cl st') = send_time_it (p_cl st2)"
    using 3 dequeue_effect by (auto simp: calm_def set_terminate_def split: if_splits)
  show c: "calm st st'" using e1 e2 e3 calm_trans by blast
  show "it_ok st'" using it2 e3 by (simp add: it_ok_def calm_def)
  show "w_terminate (cl_base (p_cl st')) \<or> turns_left T st' < turns_left T st"
  proof (cases "out_of_time st")
    case True
    then show ?thesis using e1 e2 e3 by (auto simp: calm_def)
  next
    case False
    have k: "p_k st < p_k st1" "p_k st1 \<le> p_k st'" using e1 e2 e3 False by (auto simp: calm_def)
    have "p_iter st' = ce_now E (p_k st1 - 1)" using e1 e2 e3 False by simp
    then have "p_k st1 - 1 < T" if "\<not> out_of_time st'"
      using late_out_of_time [OF late_calm [OF assms(2) c], of "p_k st1 - 1"] that by linarith
    then show ?thesis using False k by (auto simp: turns_left_def)
  qed
qed

lemma play_once_ends:
  assumes "late T E st" "T + 2 \<le> n" "length (send_times (p_sched st)) < n"
  shows "ends (play_once n E st)"
  unfolding play_once_def
proof (intro ends_bind)
  show "ends (poll_loop n E (st\<lparr>p_status := EAGAIN\<rparr>))"
    using poll_loop_ends [of T E "st\<lparr>p_status := EAGAIN\<rparr>" n] assms by (simp add: late_def)
  fix st1 assume "poll_loop n E (st\<lparr>p_status := EAGAIN\<rparr>) = Inr st1"
  then have "send_times (p_sched (count_inflight st1)) = send_times (p_sched st)"
    using poll_loop_effect by (fastforce simp: calm_def count_inflight_def)
  then show "ends (send_loop_due n E (count_inflight st1))" using send_loop_ends [of "count_inflight st1" n E] assms(3) by simp
qed (auto intro: ends_dequeue)

lemma play_loop_ends:
  assumes "late T E st" "T + 2 \<le> n" "length (send_times (p_sched st)) < n" "it_ok st" "turns_left T st \<le> f"
  shows "ends (play_loop n f E st)"
  using assms
proof (induction f arbitrary: st)
  case 0
  then show ?case by (simp add: turns_left_def split: if_splits)
next
  case (Suc f)
  have "ends (play_loop n f E st1)" if 1: "play_once n E st = Inr st1" for st1
  proof (cases "w_terminate (cl_base (p_cl st1))")
    case True
    then have "\<not> playing st1" by (simp add: playing_def)
    then show ?thesis by (cases f) simp_all
  next
    case False
    note e = play_once_effect [OF 1 Suc.prems(1,4)]
    have "turns_left T st1 \<le> f" using e(3) False Suc.prems(5) by simp
    moreover have "length (send_times (p_sched st1)) < n" using e(1) Suc.prems(3) by (simp add: calm_def)
    ultimately show ?thesis using Suc.IH [OF late_calm [OF Suc.prems(1) e(1)]] e(2) Suc.prems(2) by blast
  qed
  then show ?case using play_once_ends [OF Suc.prems(1-3)] by (auto intro!: ends_bind)
qed

section \<open>Properties\<close>

text \<open>
  C27: Playing a schedule ends: once the clock shows, from some reading on, that the maximal duration
  has passed, no loop runs forever, whatever is received and whatever the NIC accepts.  The fuel is the
  number of external calls until that reading plus two, and one more than the length of the schedule.
\<close>

theorem play_schedule_ends:
  assumes "\<forall>k \<ge> T. ce_now E (p_k st) + max_duration (p_sched st) * 10 ^ 9 \<le> ce_now E k"
    and "T + 2 \<le> n" "length (send_times (p_sched st)) < n"
  shows "play_schedule n E st \<noteq> Inl OutOfFuel"
proof -
  have main: "ends (play_loop n n E st')" if "late T E st'" "length (send_times (p_sched st')) < n" "it_ok st'" for st'
  proof (rule play_loop_ends [OF that(1) assms(2) that(2,3)])
    show "turns_left T st' \<le> n" using assms(2) by (auto simp: turns_left_def)
  qed
  have "ends (play_schedule n E st)"
    using assms(1,3)
    by (auto simp: play_schedule_def take_now_def gen_next_send_time_def get_at_def late_def it_ok_def Let_def Suc_le_eq
        intro!: ends_intros main)
  then show ?thesis by (simp add: ends_def)
qed

text \<open>
  C28: The number of requests in flight never grows beyond the configured maximum: after any number of
  turns of the sending loop it is at most that maximum, or at most what it was when the loop began.
\<close>

theorem concurrency_bounded:
  assumes "0 \<le> max_concurrency (p_cl st)" "max_concurrency (p_cl st) < 2 ^ 31" "send_loop_due n E (count_inflight st) = Inr st'"
  shows "p_inflight st' = sint (send_index (p_sched st') - recv_requests (p_sched st')) \<and>
     p_inflight st' \<le> max (sint (send_index (p_sched st) - recv_requests (p_sched st))) (max_concurrency (p_cl st))"
  using send_loop_inflight [of "count_inflight st" n E st'] assms by (simp add: count_inflight_def)

text \<open>One second per reading of the clock; nothing is received.\<close>

definition ex_client_env :: client_env where
  "ex_client_env = \<lparr>ce_now = (\<lambda>k. int k * 10 ^ 9), ce_tsc = of_nat, ce_rx = (\<lambda>_. []), ce_alloc = (\<lambda>_. 4096), ce_tx = (\<lambda>_. length), ce_room = 2048\<rparr>"

theorem play_schedule_ends_witness: "play_schedule 8 ex_client_env ex_play \<noteq> Inl OutOfFuel"
  by (rule play_schedule_ends [where T = 6]) (simp_all add: ex_client_env_def ex_play_def ex_sched_def)

text \<open>One request is due and one may be in flight.\<close>

definition ex_due :: play where
  "ex_due = ex_play\<lparr>p_sched := (p_sched ex_play)\<lparr>send_times := [0, 10], end_time := 10\<rparr>, p_cl := ex_client\<lparr>max_concurrency := 1\<rparr>\<rparr>"

lemma send_loop_idle: "\<not> push_tail u < push_head u \<Longrightarrow> send_loop n u ms = Inr ([], u, ms)"
  by (cases n) simp_all

theorem concurrency_bounded_witness:
  "\<exists>st'. send_loop_due (Suc (Suc 0)) ex_client_env (count_inflight ex_due) = Inr st' \<and> send_index (p_sched st') = 1 \<and> p_inflight st' \<le> 1"
proof -
  obtain n where burst: "MAX_TX_BURST = Suc n" by (cases MAX_TX_BURST) (simp_all add: MAX_TX_BURST_def)
  obtain st' where st': "send_loop_due (Suc (Suc 0)) ex_client_env (count_inflight ex_due) = Inr st'" "send_index (p_sched st') = 1"
    by (simp add: send_due_def count_inflight_def ex_due_def ex_play_def ex_client_def ex_client_env_def ex_udp_def ex_sched_def ex_request_def
        send_once_def gen_next_req_def get_at_def set_request_def get_mbuf_def write_request_def send_request_def OUTBOUND_Q_LEN_def send_packets_def
        burst send_loop_idle prepare_outbound_packet_def next_send_def gen_next_send_time_def set_udp_def Let_def)
  have "p_inflight st' \<le> 1"
    using concurrency_bounded [OF _ _ st'(1)] by (simp add: ex_due_def ex_play_def ex_sched_def)
  with st' show ?thesis by blast
qed

text \<open>
  The iterator over the send times: it points behind the element that gave the next send time, and the
  end of the schedule is its last element.
\<close>

definition iterator_ok :: "play \<Rightarrow> bool" where
  "iterator_ok st \<longleftrightarrow>
     (let ts = send_times (p_sched st); i = send_time_it (p_cl st) in
      sorted ts \<and> 0 < i \<and> i \<le> length ts \<and> next_send_time (p_cl st) = ts ! (i - 1) + start_offset (p_cl st) \<and>
      end_time (p_sched st) = last ts + start_offset (p_cl st))"

text \<open>
  C29: The sending loop reads the schedule within its bounds as long as the clock reading it works
  with is before the end of the schedule: in every turn the iterator points to an element, and the turn
  keeps it consistent with the next send time.
\<close>

theorem schedule_read_in_bounds:
  assumes "iterator_ok st" "send_due st" "p_iter st < end_time (p_sched st)"
  shows "send_time_it (p_cl st) < length (send_times (p_sched st)) \<and>
     (\<forall>E go st'. send_once E st = Inr (go, st') \<longrightarrow> iterator_ok st')"
proof (intro conjI allI impI)
  let ?ts = "send_times (p_sched st)" and ?i = "send_time_it (p_cl st)"
  have ok: "0 < ?i" "?i \<le> length ?ts" "?ts ! (?i - 1) + start_offset (p_cl st) < last ?ts + start_offset (p_cl st)"
    using assms by (auto simp: iterator_ok_def send_due_def Let_def)
  have "?i \<noteq> length ?ts"
  proof
    assume e: "?i = length ?ts"
    then have "last ?ts = ?ts ! (?i - 1)" using ok(1) by (simp add: last_conv_nth)
    then show False using ok(3) by simp
  qed
  then show "?i < length ?ts" using ok(2) by simp
  fix E go st' assume "send_once E st = Inr (go, st')"
  from send_once_effect [OF this] assms(1) show "iterator_ok st'"
    by (cases go) (auto simp: send_effect_def turn_def advanced_def iterator_ok_def Let_def)
qed

theorem schedule_read_in_bounds_witness:
  "\<exists>go st'. send_once ex_client_env ex_due = Inr (go, st') \<and> iterator_ok st' \<and>
     send_time_it (p_cl ex_due) < length (send_times (p_sched ex_due))"
proof -
  obtain n where burst: "MAX_TX_BURST = Suc n" by (cases MAX_TX_BURST) (simp_all add: MAX_TX_BURST_def)
  obtain go st' where "send_once ex_client_env ex_due = Inr (go, st')"
    by (simp add: send_due_def count_inflight_def ex_due_def ex_play_def ex_client_def ex_client_env_def ex_udp_def ex_sched_def ex_request_def
        send_once_def gen_next_req_def get_at_def set_request_def get_mbuf_def write_request_def send_request_def OUTBOUND_Q_LEN_def send_packets_def
        burst send_loop_idle prepare_outbound_packet_def next_send_def gen_next_send_time_def set_udp_def Let_def)
  moreover have "iterator_ok ex_due" "send_due ex_due" "p_iter ex_due < end_time (p_sched ex_due)"
    by (simp_all add: iterator_ok_def send_due_def ex_due_def ex_play_def ex_client_def ex_sched_def)
  ultimately show ?thesis using schedule_read_in_bounds [of ex_due] by blast
qed

text \<open>At the last instant the last request is sent and the element behind the end is read.\<close>

lemma last_instant_reads_past_end:
  assumes "iterator_ok st" "send_time_it (p_cl st) = length (send_times (p_sched st))"
  shows "next_send st = Inl OutOfBounds"
  using assms by (simp add: next_send_def gen_next_send_time_def get_at_def)

end
