(* ===== verification/Client_Main.thy ===== *)
theory Client_Main
  imports Client_Play Psp_Config
begin

text \<open>
  The load generator's program (\<^verbatim>\<open>src/c++/apps/client/client.cc\<close>, \<^verbatim>\<open>src/c++/apps/client/common.hh\<close>): reading the
  configuration, building the network contexts, schedules and workers, starting them and writing the
  reports.  The parsed configuration and command line are records; reading an absent entry of the
  configuration raises an exception that nothing catches.  Files, random numbers, the clock and the
  addresses of objects are arguments, collected in \<open>main_env\<close>.
\<close>

section \<open>Configuration\<close>

record sched_cfg =
  sc_rate :: "rat option"
  sc_duration :: "u64 option"
  sc_uniform :: "bool option"
  sc_ptype :: "string option"
  sc_pkt_size :: "u64 option"
  sc_cmd_ratios :: "rat list option"
  sc_cmd_lists :: "string list option"
  sc_cmd_mean_ns :: "u32 list option"

record client_cfg =
  cc_log_dir :: "string option"
  cc_eal_init :: "string list option"
  cc_cpus :: "u32 list option"
  cc_remote_mac :: "string option"
  cc_mac :: "string option"
  cc_device_id :: "u16 option"
  cc_net_workers :: "string option list option"
  cc_schedules :: "sched_cfg list option"

record client_args =
  ca_duration :: u64
  ca_rate :: rat
  ca_max_concurrency :: int
  ca_remote_ports :: "u16 list"
  ca_remote_hosts :: "string list"
  ca_cmd_lists :: "string list"
  ca_cmd_ratios :: "rat list"
  ca_uniform :: bool
  ca_mb_reqs :: bool
  ca_ix_reqs :: bool
  ca_pkt_size :: u64
  ca_req_offset :: u16
  ca_downsample :: int
  ca_collect_logs :: bool

text \<open>The draws and the clock of the schedule with number \<open>i\<close> of worker \<open>n\<close> are \<open>k_u E n i\<close>, \<open>k_e E n i\<close> and \<open>k_now E n i\<close>.\<close>

record main_env =
  k_psp :: psp_env
  k_files :: "string \<Rightarrow> string list option"
  k_u :: "nat \<Rightarrow> nat \<Rightarrow> nat \<Rightarrow> rat"
  k_e :: "nat \<Rightarrow> nat \<Rightarrow> nat \<Rightarrow> rat"
  k_now :: "nat \<Rightarrow> nat \<Rightarrow> tp"
  k_fuel :: nat
  k_sched_mem :: Schedule
  k_client_mem :: Client

section \<open>Commands\<close>

text \<open>A file that cannot be opened ends the process.\<close>

definition read_cmds :: "main_env \<Rightarrow> string list \<Rightarrow> string \<Rightarrow> string list result" where
  "read_cmds K reqs cmd_list =
     (case k_files K cmd_list of None \<Rightarrow> Inl (Exit 1) | Some cmds \<Rightarrow> Inr (reqs @ cmds))"

text \<open>\<open>std::stoi\<close>: white space, a sign, digits; an exception when there is no digit or the value does not fit.\<close>

definition is_digit :: "char \<Rightarrow> bool" where
  "is_digit c \<longleftrightarrow> 48 \<le> (of_char c :: int) \<and> (of_char c :: int) \<le> 57"

fun digits_val :: "int \<Rightarrow> string \<Rightarrow> int" where
  "digits_val acc [] = acc"
| "digits_val acc (c # cs) = (if is_digit c then digits_val (acc * 10 + (of_char c - 48)) cs else acc)"

definition stoi :: "string \<Rightarrow> int result" where
  "stoi str =
     (let cs = dropWhile (\<lambda>c. c \<in> {CHR '' '', CHR 0x09, CHR 0x0A, CHR 0x0B, CHR 0x0C, CHR 0x0D}) str;
          (neg, cs) = (case cs of [] \<Rightarrow> (False, cs) | c # ds \<Rightarrow> if c = CHR ''-'' then (True, ds) else if c = CHR ''+'' then (False, ds) else (False, cs));
          v = (if neg then - digits_val 0 cs else digits_val 0 cs) in
      if (case cs of [] \<Rightarrow> True | c # _ \<Rightarrow> \<not> is_digit c) then Inl Panic
      else if int_ok v then Inr v else Inl Panic)"

fun read_lists :: "main_env \<Rightarrow> string list \<Rightarrow> string list list result" where
  "read_lists K [] = Inr []"
| "read_lists K (f # fs) =
     res_bind (read_cmds K [] f) (\<lambda>cmds. psp_true EINVAL (length cmds > 0)
       (res_bind (read_lists K fs) (\<lambda>rest. Inr (cmds # rest))))"

fun service_times :: "string list list \<Rightarrow> u32 list result" where
  "service_times [] = Inr []"
| "service_times (r # rs) =
     res_bind (get_at r 0) (\<lambda>c. res_bind (stoi c) (\<lambda>v. res_bind (service_times rs) (\<lambda>vs. Inr (of_int v # vs))))"

section \<open>Schedules and workers from the configuration\<close>

definition cfg_commands :: "main_env \<Rightarrow> sched_cfg \<Rightarrow> Schedule \<Rightarrow> Schedule result" where
  "cfg_commands K c s =
     (case sc_cmd_lists c of
        Some fs \<Rightarrow>
          psp_true EINVAL (length fs = length (cmd_ratios s))
            (res_bind (read_lists K fs) (\<lambda>strs.
               let s = s\<lparr>requests_str := strs\<rparr> in
               if ptype s = IX \<or> ptype s = PSP_MB then
                 res_bind (service_times strs) (\<lambda>us. Inr (s\<lparr>reqs_us := reqs_us s @ us\<rparr>))
               else Inr s))
      | None \<Rightarrow>
          (case sc_cmd_mean_ns c of
             None \<Rightarrow> psp_true ENOENT False (Inr s)
           | Some ms \<Rightarrow> psp_true EINVAL (length ms = length (cmd_ratios s)) (Inr (s\<lparr>reqs_us := reqs_us s @ ms\<rparr>))))"

definition cfg_pkt_size :: "sched_cfg \<Rightarrow> Schedule \<Rightarrow> Schedule result" where
  "cfg_pkt_size c s =
     (if ptype s = RAW then
        (case sc_pkt_size c of None \<Rightarrow> psp_true EINVAL False (Inr s) | Some z \<Rightarrow> Inr (s\<lparr>pkt_size := z\<rparr>))
      else Inr s)"

definition cfg_schedule :: "main_env \<Rightarrow> nat \<Rightarrow> nat \<Rightarrow> sched_cfg \<Rightarrow> Schedule result" where
  "cfg_schedule K n_net i c =
     (let s = Schedule_new (k_sched_mem K) (of_nat i) in
      res_bind (field (sc_rate c)) (\<lambda>r.
      res_bind (field (sc_duration c)) (\<lambda>d.
      res_bind (field (sc_uniform c)) (\<lambda>un.
      res_bind (field (sc_ptype c)) (\<lambda>pt.
        let s = s\<lparr>rate := r / of_nat n_net, duration := sint d, max_duration := sint (d + 5), is_uniform := un, ptype := str_to_ptype pt\<rparr> in
        res_bind (cfg_pkt_size c s) (\<lambda>s.
        res_bind (field (sc_cmd_ratios c)) (\<lambda>qs. cfg_commands K c (s\<lparr>cmd_ratios := qs\<rparr>))))))))"

text \<open>All schedules of worker \<open>n\<close>, whose requests go into one vector.\<close>

fun cfg_schedules :: "main_env \<Rightarrow> u16 \<Rightarrow> nat \<Rightarrow> nat \<Rightarrow> nat \<Rightarrow> sched_cfg list \<Rightarrow> ClientRequest list
    \<Rightarrow> (Schedule list \<times> ClientRequest list) result" where
  "cfg_schedules K off n_net n i [] reqs = Inr ([], reqs)"
| "cfg_schedules K off n_net n i (c # cs) reqs =
     res_bind (cfg_schedule K n_net i c) (\<lambda>s.
     res_bind (gen_schedule (k_fuel K) off (k_now K n i) (k_u K n i) (k_e K n i) s reqs) (\<lambda>(r, s, reqs).
     res_bind (cfg_schedules K off n_net n (i + 1) cs reqs) (\<lambda>(ss, reqs). Inr (s # ss, reqs))))"

fun cfg_workers :: "main_env \<Rightarrow> u16 \<Rightarrow> nat \<Rightarrow> sched_cfg list \<Rightarrow> int \<Rightarrow> nat list \<Rightarrow> u32 \<Rightarrow> (Client list \<times> u32) result" where
  "cfg_workers K off n_net cs m [] tot = Inr ([], tot)"
| "cfg_workers K off n_net cs m (n # ns) tot =
     res_bind (cfg_schedules K off n_net n 0 cs []) (\<lambda>(ss, reqs).
       let (w, tot) = Client_new (k_client_mem K) (e_pids (k_psp K)) tot m ss reqs in
       res_bind (cfg_workers K off n_net cs m ns tot) (\<lambda>(ws, tot). Inr (w # ws, tot)))"

section \<open>Network contexts\<close>

definition cyclic :: "'a list \<Rightarrow> nat \<Rightarrow> 'a result" where
  "cyclic xs i = (if xs = [] then Inl DivByZero else Inr (xs ! (i mod length xs)))"

fun cfg_nets :: "main_env \<Rightarrow> client_args \<Rightarrow> string \<Rightarrow> string \<Rightarrow> u16 \<Rightarrow> string option list \<Rightarrow> nat \<Rightarrow> ptr
    \<Rightarrow> (UdpContext list \<times> ptr) result" where
  "cfg_nets K A mac remote port_id [] i pool = Inr ([], pool)"
| "cfg_nets K A mac remote port_id (ip # ips) i pool =
     (let P = k_psp K; port = of_nat (32768 + i mod (65535 - 32768)) in
      res_bind (field ip) (\<lambda>ip.
      res_bind (UdpContext_new (e_dpdk P) (e_pool_create P) (e_cache_size P) (e_udp_mem P) (of_nat i) (e_aton P ip) port port_id
                  pool (e_pool_var P) (e_mac P mac)) (\<lambda>(u, pool).
      res_bind (cyclic (ca_remote_hosts A) i) (\<lambda>rip.
      res_bind (cyclic (ca_remote_ports A) i) (\<lambda>rport.
        let u = u\<lparr>remote_port := rport, remote_ip := e_aton P rip, remote_mac := e_mac P remote\<rparr> in
        res_bind (cfg_nets K A mac remote port_id ips (i + 1) pool) (\<lambda>(us, pool). Inr (u # us, pool)))))))"

record parsed =
  pa_log_dir :: string
  pa_ctxs :: "UdpContext list"
  pa_cpus :: "u32 list"
  pa_mempool :: ptr
  pa_clients :: "Client list"
  pa_total :: u32

text \<open>\<open>None\<close> is a file that does not parse.\<close>

definition parse_config :: "main_env \<Rightarrow> client_args \<Rightarrow> client_cfg option \<Rightarrow> (int \<times> parsed) result" where
  "parse_config K A cfg =
     (case cfg of None \<Rightarrow> Inl (Exit 1)
      | Some c \<Rightarrow>
          let dir = (case cc_log_dir c of Some d \<Rightarrow> d | None \<Rightarrow> ''./'') in
          case cc_cpus c of None \<Rightarrow> Inl (Exit ENODEV)
          | Some cpus \<Rightarrow>
              res_bind (field (cc_remote_mac c)) (\<lambda>remote.
              res_bind (field (cc_mac c)) (\<lambda>mac.
              res_bind (field (cc_device_id c)) (\<lambda>port_id.
              case cc_net_workers c of None \<Rightarrow> Inl (Exit ENODEV)
              | Some ips \<Rightarrow>
                  res_bind (cfg_nets K A mac remote port_id ips 0 NULL) (\<lambda>(us, pool).
                  res_bind (case cc_schedules c of None \<Rightarrow> Inr ([], 0)
                            | Some cs \<Rightarrow> cfg_workers K (ca_req_offset A) (length ips) cs (ca_max_concurrency A) [0..<length ips] 0) (\<lambda>(ws, tot).
                    Inr (0, \<lparr>pa_log_dir = dir, pa_ctxs = us, pa_cpus = cpus, pa_mempool = pool, pa_clients = ws, pa_total = tot\<rparr>)))))))"

section \<open>The program\<close>

text \<open>Without schedules in the configuration, one schedule per context is built from the command line.\<close>

definition cli_schedule :: "main_env \<Rightarrow> client_args \<Rightarrow> nat \<Rightarrow> Schedule result" where
  "cli_schedule K A n_ctx =
     (let s = Schedule_new (k_sched_mem K) 0 in
      psp_true EINVAL (length (ca_cmd_lists A) = length (ca_cmd_ratios A))
        (res_bind (read_lists K (ca_cmd_lists A)) (\<lambda>strs.
           let s = s\<lparr>requests_str := strs, cmd_ratios := ca_cmd_ratios A, rate := ca_rate A / of_nat n_ctx,
                     duration := sint (ca_duration A), max_duration := sint (ca_duration A + 5), is_uniform := ca_uniform A\<rparr> in
           res_bind (if ca_ix_reqs A then Inr (s\<lparr>ptype := IX\<rparr>)
                     else if ca_mb_reqs A then Inr (s\<lparr>ptype := PSP_MB\<rparr>)
                     else psp_true EINVAL (ca_pkt_size A > 0) (Inr (s\<lparr>ptype := RAW, pkt_size := ca_pkt_size A\<rparr>))) (\<lambda>s.
             if ca_mb_reqs A \<or> ca_ix_reqs A then
               res_bind (service_times strs) (\<lambda>us. Inr (s\<lparr>reqs_us := reqs_us s @ us\<rparr>))
             else Inr s))))"

definition attach :: "Client \<Rightarrow> u32 \<Rightarrow> UdpContext \<Rightarrow> Client" where
  "attach w cpu u = w\<lparr>cl_base := (cl_base w)\<lparr>w_eal_thread := True, w_cpu_id := cpu, w_udp_ctx := Some u\<rparr>\<rparr>"

fun cli_workers :: "main_env \<Rightarrow> client_args \<Rightarrow> nat \<Rightarrow> u32 list \<Rightarrow> UdpContext list \<Rightarrow> nat \<Rightarrow> u32 \<Rightarrow> (Client list \<times> u32) result" where
  "cli_workers K A n_ctx cpus [] i tot = Inr ([], tot)"
| "cli_workers K A n_ctx cpus (u # us) i tot =
     res_bind (cli_schedule K A n_ctx) (\<lambda>s.
     res_bind (gen_schedule (k_fuel K) (ca_req_offset A) (k_now K i 0) (k_u K i 0) (k_e K i 0) s []) (\<lambda>(r, s, reqs).
       let (w, tot) = Client_new (k_client_mem K) (e_pids (k_psp K)) tot (ca_max_concurrency A) [s] reqs in
       res_bind (get_at cpus (int i)) (\<lambda>cpu.
       res_bind (cli_workers K A n_ctx cpus us (i + 1) tot) (\<lambda>(ws, tot). Inr (attach w cpu u # ws, tot)))))"

fun attach_all :: "Client list \<Rightarrow> u32 list \<Rightarrow> UdpContext list \<Rightarrow> nat \<Rightarrow> Client list result" where
  "attach_all [] cpus us i = Inr []"
| "attach_all (w # ws) cpus us i =
     res_bind (get_at cpus (int i)) (\<lambda>cpu.
     res_bind (get_at us (int i)) (\<lambda>u.
     res_bind (attach_all ws cpus us (i + 1)) (\<lambda>rest. Inr (attach w cpu u # rest))))"

text \<open>From the start of \<open>main\<close> to the configured port: the workers and the contexts.\<close>

definition client_init :: "main_env \<Rightarrow> client_args \<Rightarrow> client_cfg option \<Rightarrow> (Client list \<times> UdpContext list) result" where
  "client_init K A cfg =
     (let P = k_psp K in
      res_bind (fst (dpdk_net_init (e_dpdk P) (e_cstr P) (e_argv P) (case cfg of Some c \<Rightarrow> cc_eal_init c | None \<Rightarrow> None) [])) (\<lambda>r. psp_ok r (
      res_bind (parse_config K A cfg) (\<lambda>(r, pa). psp_ok r (
      res_bind (if pa_clients pa = [] then
                  res_bind (cli_workers K A (length (pa_ctxs pa)) (pa_cpus pa) (pa_ctxs pa) 0 (pa_total pa)) (\<lambda>(ws, _). Inr ws)
                else attach_all (pa_clients pa) (pa_cpus pa) (pa_ctxs pa) 0) (\<lambda>ws.
      res_bind (fst (init_dpdk_port (e_dpdk P) (e_stderr P) 0 (pa_mempool pa) (of_nat (length (pa_ctxs pa))) (of_nat (length (pa_ctxs pa))) [])) (\<lambda>r.
        if r \<noteq> 0 then Inl (Exit 1) else Inr (ws, pa_ctxs pa))))))))"

text \<open>The flow rules of all contexts; the status of each is ignored.\<close>

definition set_fdirs :: "(flow_item list \<Rightarrow> flow_action list \<Rightarrow> int) \<Rightarrow> (flow_item list \<Rightarrow> flow_action list \<Rightarrow> ptr) \<Rightarrow>
    UdpContext list \<Rightarrow> ptr list list" where
  "set_fdirs validate create us = map (\<lambda>u. snd (set_fdir validate create u [])) us"

text \<open>
  Launching stops at the first worker that fails to start, which is told to stop.  \<open>th w\<close> is what the thread
  library returns and what is observed of the flags of worker \<open>w\<close>.
\<close>

fun launch_all :: "(nat \<Rightarrow> int \<times> int \<times> (bool \<times> bool) list) \<Rightarrow> nat \<Rightarrow> Worker list \<Rightarrow> Worker list result" where
  "launch_all th i [] = Inr []"
| "launch_all th i (w # ws) =
     (let (wait, remote, obs) = th i in
      res_bind (launch w wait remote obs) (\<lambda>(r, w).
        if r \<noteq> 0 then Inr (stop w # ws)
        else res_bind (launch_all th (i + 1) ws) (\<lambda>ws. Inr (w # ws))))"

definition client_stop_all :: "Worker list \<Rightarrow> Worker list" where
  "client_stop_all ws = map stop ws"

definition join_all :: "(nat \<Rightarrow> int) \<Rightarrow> Worker list \<Rightarrow> Worker list" where
  "join_all wait ws = map (\<lambda>(i, w). snd (join_worker w (wait i))) (zip [0..<length ws] ws)"

section \<open>Reports\<close>

text \<open>Sums of floating-point numbers of which some may not be finite (\<open>None\<close>).\<close>

definition fadd :: "rat option \<Rightarrow> rat option \<Rightarrow> rat option" where
  "fadd x y = (case (x, y) of (Some a, Some b) \<Rightarrow> Some (a + b) | _ \<Rightarrow> None)"

type_synonym rates = "(nat \<times> rat option \<times> rat option) list"

definition add_rate :: "nat \<Rightarrow> Schedule \<Rightarrow> rates \<Rightarrow> rates" where
  "add_rate i s m =
     (let offered = getOfferedLoad s; achieved = getRequestsPerSecond s in
      case map_of m i of
        None \<Rightarrow> map_put i (offered, achieved) m
      | Some (off, ach) \<Rightarrow> map_put i (fadd off offered, fadd ach achieved) m)"

fun add_rates :: "nat \<Rightarrow> Schedule list \<Rightarrow> rates \<Rightarrow> rates" where
  "add_rates i [] m = m"
| "add_rates i (s # ss) m = add_rates (i + 1) ss (add_rate i s m)"

fun throughput_rows :: "rat \<Rightarrow> (((ReqType \<times> int) \<times> u64) list \<Rightarrow> ((ReqType \<times> int) \<times> u64) list) \<Rightarrow> u64 \<Rightarrow> Client list \<Rightarrow> rates
    \<Rightarrow> (log_item list list \<times> rates) result" where
  "throughput_rows cpn ord es [] m = Inr ([], m)"
| "throughput_rows cpn ord es (w # ws) m =
     res_bind (get_at (cl_schedules w) 0) (\<lambda>s.
     res_bind (get_at (send_times s) 0) (\<lambda>t.
     res_bind (log_throughput cpn ord (w_id (cl_base w)) (cl_requests w) es (since_epoch t)) (\<lambda>(_, rows).
     res_bind (throughput_rows cpn ord es ws (add_rates 0 (cl_schedules w) m)) (\<lambda>(rest, m). Inr (rows @ rest, m)))))"

definition fitem :: "rat option \<Rightarrow> log_item" where
  "fitem x = (case x of Some q \<Rightarrow> LNum q | None \<Rightarrow> LNotFinite)"

definition log_worker_throughputs :: "rat \<Rightarrow> (((ReqType \<times> int) \<times> u64) list \<Rightarrow> ((ReqType \<times> int) \<times> u64) list) \<Rightarrow> Client list \<Rightarrow> u64
    \<Rightarrow> (int \<times> log_item list list \<times> log_item list list) result" where
  "log_worker_throughputs cpn ord ws es =
     res_bind (throughput_rows cpn ord es ws []) (\<lambda>(rows, m).
       Inr (0, map LStr [''W_ID'', ''TIME'', ''TYPE'', ''N''] # rows,
            map LStr [''OFFERED'', ''ACHIEVED''] # map (\<lambda>(i, off, ach). [fitem off, fitem ach]) m))"

fun latency_rows :: "nat \<Rightarrow> rat \<Rightarrow> ((ReqType \<times> ClientRequest list) list \<Rightarrow> (ReqType \<times> ClientRequest list) list) \<Rightarrow> Client list \<Rightarrow> int
    \<Rightarrow> (log_item list list \<times> log_item list list) result" where
  "latency_rows fuel cpn ord [] downsample = Inr ([], [])"
| "latency_rows fuel cpn ord (w # ws) downsample =
     res_bind (log_latency fuel cpn ord (w_id (cl_base w)) (cl_requests w) downsample (cl_hist w)) (\<lambda>(_, rows, hrows, _, _).
     res_bind (latency_rows fuel cpn ord ws downsample) (\<lambda>(rest, hrest). Inr (rows @ rest, hrows @ hrest)))"

definition log_worker_latencies :: "nat \<Rightarrow> rat \<Rightarrow> ((ReqType \<times> ClientRequest list) list \<Rightarrow> (ReqType \<times> ClientRequest list) list) \<Rightarrow>
    Client list \<Rightarrow> int \<Rightarrow> (int \<times> log_item list list \<times> log_item list list) result" where
  "log_worker_latencies fuel cpn ord ws downsample =
     res_bind (latency_rows fuel cpn ord ws downsample) (\<lambda>(rows, hrows).
       Inr (0, map LStr (''W_ID'' # LOG_COLUMNS) # rows, hrows))"

section \<open>The layout of the requests\<close>

text \<open>Block \<open>new\<close> of the requests belongs to schedule \<open>s\<close> and begins at index \<open>base\<close>.\<close>

definition block_ok :: "Schedule \<Rightarrow> nat \<Rightarrow> ClientRequest list \<Rightarrow> bool" where
  "block_ok s base new \<longleftrightarrow> n_requests s = of_nat (length new) \<and> length (send_times s) = length new \<and>
     (\<forall>k < length new. cr_id (new ! k) = of_nat (base + k) \<and> cr_mbuf (new ! k) = NULL \<and> cr_schedule_id (new ! k) = schedule_id s)"

lemma gen_one_block:
  assumes "gen_one off (of_nat base) start u e g = Inr g'" "g_reqs g = reqs @ new" "length reqs = base" "block_ok (g_sched g) base new"
  shows "\<exists>r. g_reqs g' = reqs @ new @ [r] \<and> block_ok (g_sched g') base (new @ [r]) \<and> schedule_id (g_sched g') = schedule_id (g_sched g)"
  using assms
  by (auto simp: gen_one_def Let_def res_bind_eq_Inr psp_true_if block_ok_def new_request_def nth_append less_Suc_eq
      split: option.splits if_splits)

lemma gen_loop_block:
  assumes "gen_loop fuel off (of_nat base) start tend u e k g = Inr g'" "g_reqs g = reqs @ new" "length reqs = base" "block_ok (g_sched g) base new"
  shows "\<exists>new'. g_reqs g' = reqs @ new' \<and> block_ok (g_sched g') base new' \<and> schedule_id (g_sched g') = schedule_id (g_sched g)"
  using assms
proof (induction fuel arbitrary: k g new)
  case (Suc fuel)
  show ?case
  proof (cases "g_time g \<le> tend")
    case True
    then obtain g1 where g1: "gen_one off (of_nat base) start (u k) (e k) g = Inr g1" "gen_loop fuel off (of_nat base) start tend u e (k + 1) g1 = Inr g'"
      using Suc.prems(1) by (auto simp: res_bind_eq_Inr)
    obtain r where "g_reqs g1 = reqs @ new @ [r]" "block_ok (g_sched g1) base (new @ [r])" "schedule_id (g_sched g1) = schedule_id (g_sched g)"
      using gen_one_block [OF g1(1) Suc.prems(2-4)] by blast
    then show ?thesis using Suc.IH [OF g1(2) _ Suc.prems(3)] by auto
  qed (use Suc.prems in auto)
qed (auto split: if_splits)

lemma gen_schedule_block:
  assumes "gen_schedule fuel off now u e s reqs = Inr (r, s', reqs')" "n_requests s = 0" "send_times s = []"
  obtains new where "reqs' = reqs @ new" "block_ok s' (length reqs) new" "schedule_id s' = schedule_id s"
proof -
  obtain tend g where g: "gen_loop fuel (unat off) (of_nat (length reqs)) now tend u e 0
      \<lparr>g_sched = s, g_reqs = reqs, g_time = 0, g_counts = replicate (ReqType_code RT_LAST) 0\<rparr> = Inr g" "s' = g_sched g" "reqs' = g_reqs g"
    using assms(1) by (auto simp: gen_schedule_def res_bind_eq_Inr)
  have "block_ok s (length reqs) []" using assms(2,3) by (simp add: block_ok_def)
  then show ?thesis using gen_loop_block [OF g(1), of reqs "[]"] g(2,3) that by auto
qed

definition fresh_sched :: "nat \<Rightarrow> Schedule \<Rightarrow> bool" where
  "fresh_sched i s \<longleftrightarrow> n_requests s = 0 \<and> send_times s = [] \<and> schedule_id s = of_nat i"

lemma cfg_commands_fresh:
  assumes "cfg_commands K c s = Inr s'" "fresh_sched i s"
  shows "fresh_sched i s'"
proof (cases "sc_cmd_lists c")
  case None
  then show ?thesis using assms by (auto simp: cfg_commands_def fresh_sched_def psp_true_if split: option.splits if_splits)
next
  case (Some fs)
  then obtain strs where "(let s = s\<lparr>requests_str := strs\<rparr> in if ptype s = IX \<or> ptype s = PSP_MB then
      res_bind (service_times strs) (\<lambda>us. Inr (s\<lparr>reqs_us := reqs_us s @ us\<rparr>)) else Inr s) = Inr s'"
    using assms(1) by (simp only: cfg_commands_def option.case psp_true_if res_bind_eq_Inr split: if_splits) blast+
  then show ?thesis using assms(2) by (cases "ptype s = IX \<or> ptype s = PSP_MB") (auto simp: fresh_sched_def res_bind_eq_Inr)
qed

lemma cfg_schedule_fresh:
  assumes "cfg_schedule K n_net i c = Inr s"
  shows "fresh_sched i s"
proof -
  obtain r and d :: u64 and un pt s1 qs where 1: "cfg_pkt_size c ((Schedule_new (k_sched_mem K) (of_nat i))\<lparr>rate := r / of_nat n_net,
        duration := sint d, max_duration := sint (d + 5), is_uniform := un, ptype := str_to_ptype pt\<rparr>) = Inr s1"
      "cfg_commands K c (s1\<lparr>cmd_ratios := qs\<rparr>) = Inr s"
    using assms unfolding cfg_schedule_def Let_def res_bind_eq_Inr by blast
  have "fresh_sched i (s1\<lparr>cmd_ratios := qs\<rparr>)"
    using 1(1) by (auto simp: cfg_pkt_size_def fresh_sched_def Schedule_new_def psp_true_if split: option.splits if_splits)
  then show ?thesis using cfg_commands_fresh 1(2) by blast
qed

fun blocks_ok :: "nat \<Rightarrow> Schedule list \<Rightarrow> nat \<Rightarrow> ClientRequest list list \<Rightarrow> bool" where
  "blocks_ok i [] base [] \<longleftrightarrow> True"
| "blocks_ok i (s # ss) base (b # bs) \<longleftrightarrow> block_ok s base b \<and> schedule_id s = of_nat i \<and> blocks_ok (i + 1) ss (base + length b) bs"
| "blocks_ok i ss base bs \<longleftrightarrow> False"

lemma cfg_schedules_blocks:
  "cfg_schedules K off n_net n i cs reqs = Inr (ss, reqs') \<Longrightarrow> \<exists>bs. reqs' = reqs @ concat bs \<and> blocks_ok i ss (length reqs) bs \<and> length ss = length cs"
proof (induction cs arbitrary: i reqs ss)
  case Nil
  then show ?case by (auto intro: exI [of _ "[]"])
next
  case (Cons c cs)
  then obtain s r s' reqs1 ss1 where 1: "cfg_schedule K n_net i c = Inr s"
      "gen_schedule (k_fuel K) off (k_now K n i) (k_u K n i) (k_e K n i) s reqs = Inr (r, s', reqs1)"
      "cfg_schedules K off n_net n (i + 1) cs reqs1 = Inr (ss1, reqs')" "ss = s' # ss1"
    by (auto simp: res_bind_eq_Inr)
  note f = cfg_schedule_fresh [OF 1(1)]
  obtain new where new: "reqs1 = reqs @ new" "block_ok s' (length reqs) new" "schedule_id s' = of_nat i"
    using gen_schedule_block [OF 1(2)] f unfolding fresh_sched_def by metis
  obtain bs where "reqs' = reqs1 @ concat bs" "blocks_ok (i + 1) ss1 (length reqs1) bs" "length ss1 = length cs"
    using Cons.IH [OF 1(3)] by blast
  then show ?case using new 1(4) by (intro exI [of _ "new # bs"]) simp
qed

lemma unat_of_nat_small32: "n < 2 ^ 32 \<Longrightarrow> unat (of_nat n :: u32) = n"
  by (simp add: unat_of_nat)

lemma blocks_ok_at:
  assumes "blocks_ok i ss base bs" "length pre = base" "j < length ss" "k < unat (n_requests (ss ! j))" "base + length (concat bs) < 2 ^ 32"
    and "of_nat base = (tot :: u32)"
  shows "let p = unat (of_nat k + (tot + sum_list (map n_requests (take j ss)))) in
     p < base + length (concat bs) \<and> cr_id ((pre @ concat bs) ! p) = of_nat p \<and> cr_mbuf ((pre @ concat bs) ! p) = NULL \<and>
     cr_schedule_id ((pre @ concat bs) ! p) = of_nat (i + j)"
  using assms
proof (induction i ss base bs arbitrary: pre j tot rule: blocks_ok.induct)
  case (2 i s ss base b bs)
  have b: "block_ok s base b" "schedule_id s = of_nat i" "blocks_ok (i + 1) ss (base + length b) bs" using "2.prems"(1) by simp_all
  have len: "unat (n_requests s) = length b" using b(1) "2.prems"(5) by (simp add: block_ok_def unat_of_nat)
  show ?case
  proof (cases j)
    case 0
    then have k: "k < length b" using "2.prems"(4) len by simp
    then have "unat (of_nat k + tot) = base + k"
      using "2.prems"(5,6) unat_of_nat_small32 [of "base + k"] by (auto simp: algebra_simps)
    then show ?thesis using 0 b(1,2) k "2.prems"(2) by (simp add: block_ok_def nth_append)
  next
    case (Suc j')
    have "of_nat (base + length b) = tot + n_requests s" using b(1) "2.prems"(6) by (simp add: block_ok_def)
    then show ?thesis
      using "2.IH" [of "pre @ b" j' "tot + n_requests s"] b(3) "2.prems" Suc by (simp add: add.assoc Let_def)
  qed
qed simp_all

section \<open>Properties\<close>

text \<open>
  C31: The vector of requests of a worker is laid out as playing its schedules expects: for every
  request \<open>k\<close> of schedule \<open>j\<close>, the index \<open>send_index + send_offset\<close>, where \<open>send_offset\<close> has grown by the number
  of requests of each earlier schedule, is within the vector and is the number of a request of that
  schedule which has no packet buffer yet.
\<close>

theorem config_requests_layout:
  assumes "cfg_schedules K off n_net n 0 cs [] = Inr (ss, reqs)" "length reqs < 2 ^ 32"
  shows "length ss = length cs \<and>
     (\<forall>j < length ss. \<forall>k < unat (n_requests (ss ! j)).
        let p = unat (of_nat k + sum_list (map n_requests (take j ss))) in
        p < length reqs \<and> cr_id (reqs ! p) = of_nat p \<and> cr_mbuf (reqs ! p) = NULL \<and> cr_schedule_id (reqs ! p) = of_nat j)"
proof -
  obtain bs where bs: "reqs = concat bs" "blocks_ok 0 ss 0 bs" "length ss = length cs"
    using cfg_schedules_blocks [OF assms(1)] by auto
  then show ?thesis using blocks_ok_at [of 0 ss 0 bs "[]" _ _ 0] assms(2) by simp
qed

text \<open>Two schedules of one instant each, so that each has one request.\<close>

definition ex_sched_cfg :: sched_cfg where
  "ex_sched_cfg = \<lparr>sc_rate = Some 1, sc_duration = Some 0, sc_uniform = Some True, sc_ptype = Some ''PSP_MB'', sc_pkt_size = None,
     sc_cmd_ratios = Some [1], sc_cmd_lists = None, sc_cmd_mean_ns = Some [7]\<rparr>"

definition ex_main_env :: main_env where
  "ex_main_env = \<lparr>k_psp = ex_env, k_files = (\<lambda>_. None), k_u = (\<lambda>_ _ _. 0), k_e = (\<lambda>_ _ _. 0), k_now = (\<lambda>_ _. 0), k_fuel = 1,
     k_sched_mem = ex_sched, k_client_mem = ex_client\<rparr>"

lemma ex_cfg_schedule:
  "cfg_schedule ex_main_env 1 i ex_sched_cfg = Inr (Schedule_new ex_sched (of_nat i)
     \<lparr>rate := 1, duration := 0, max_duration := 5, is_uniform := True, ptype := PSP_MB, cmd_ratios := [1], reqs_us := [7]\<rparr>)"
  by (simp add: cfg_schedule_def cfg_pkt_size_def cfg_commands_def ex_sched_cfg_def ex_main_env_def field_def str_to_ptype_def Schedule_new_def Let_def)

theorem config_requests_layout_witness:
  "\<exists>ss reqs. cfg_schedules ex_main_env 1 1 0 0 [ex_sched_cfg, ex_sched_cfg] [] = Inr (ss, reqs) \<and> length reqs = 2 \<and>
     cr_id (reqs ! 1) = 1 \<and> cr_schedule_id (reqs ! 1) = 1"
proof -
  let ?s = "\<lambda>i. Schedule_new ex_sched (of_nat i)
     \<lparr>rate := 1, duration := 0, max_duration := 5, is_uniform := True, ptype := PSP_MB, cmd_ratios := [1], reqs_us := [7]\<rparr>"
  have gen: "\<exists>s r. gen_schedule (Suc 0) 1 0 (\<lambda>_. 0) (\<lambda>_. 0) (?s i) reqs = Inr (0, s, reqs @ [r]) \<and> n_requests s = 1"
    if "length reqs < 2" for i reqs
    using that by (cases reqs) (auto simp: gen_schedule_def gen_one_def count_type_def next_time_def run_time_def get_at_def set_at_def
        double_u64_def int_ok_def Schedule_new_def Let_def)
  obtain s0 r0 where 0: "gen_schedule (Suc 0) 1 0 (\<lambda>_. 0) (\<lambda>_. 0) (?s 0) [] = Inr (0, s0, [r0])" "n_requests s0 = 1"
    using gen [of "[]" 0] by auto
  obtain s1 r1 where 1: "gen_schedule (Suc 0) 1 0 (\<lambda>_. 0) (\<lambda>_. 0) (?s 1) [r0] = Inr (0, s1, [r0, r1])" "n_requests s1 = 1"
    using gen [of "[r0]" 1] by auto
  have c: "cfg_schedules ex_main_env 1 1 0 0 [ex_sched_cfg, ex_sched_cfg] [] = Inr ([s0, s1], [r0, r1])"
    using 0(1) 1(1) ex_cfg_schedule [of 0] ex_cfg_schedule [of 1] by (simp add: ex_main_env_def)
  have "length [r0, r1] < 2 ^ 32" by simp
  from config_requests_layout [OF c this] 0(2) 1(2) have "cr_id r1 = 1 \<and> cr_schedule_id r1 = 1"
    by (auto simp: All_less_Suc2)
  with c show ?thesis by (intro exI [of _ "[s0, s1]"] exI [of _ "[r0, r1]"]) simp
qed

end
