(* ===== verification/Checksum.thy ===== *)
theory Checksum
  imports Psp_Prelude
begin

text \<open>
  The Internet checksum of \<^verbatim>\<open>include/asm/chksum.h\<close>, which is inline assembly: the instructions on the
  sum register and the carry flag, in the order of the code, and the proof that they compute the 16-bit
  one's complement sum of RFC 1071.  The bytes from \<open>buf\<close> on are a function of their offset; the length,
  an \<open>int\<close>, is a 32-bit word, as the instructions take it.
\<close>

section \<open>Instructions\<close>

text \<open>
  Addition with carry, which sets the carry flag; \<open>add\<close> is the same with a cleared flag.  The instructions
  between two additions (\<open>lea\<close>, \<open>dec\<close>, \<open>mov\<close>, jumps) leave the flag alone; \<open>cmp\<close> with zero and \<open>test\<close> clear it.
\<close>

definition adc :: "'a :: len word \<Rightarrow> 'a word \<Rightarrow> bool \<Rightarrow> 'a word \<times> bool" where
  "adc a b c = (a + b + of_bool c, 2 ^ LENGTH('a) \<le> unat a + unat b + of_bool c)"

text \<open>\<open>add\<close> followed by \<open>adc $0\<close>.\<close>

definition add_carry :: "'a :: len word \<Rightarrow> 'a word \<Rightarrow> 'a word" where
  "add_carry a b = (let (s, c) = adc a b False in fst (adc s 0 c))"

text \<open>A load of \<open>n\<close> bytes from offset \<open>p\<close>, zero-extended; the machine is little-endian.\<close>

primrec le_val :: "u8 list \<Rightarrow> nat" where
  "le_val [] = 0"
| "le_val (b # bs) = unat b + 256 * le_val bs"

definition load_bytes :: "nat \<Rightarrow> (nat \<Rightarrow> u8) \<Rightarrow> nat \<Rightarrow> u64" where
  "load_bytes n buf p = of_nat (le_val (map buf [p..<p + n]))"

section \<open>The code\<close>

text \<open>The loop over chunks of eight bytes; the counter in \<open>edx\<close> is not zero when it is entered.\<close>

fun adc_loop :: "nat \<Rightarrow> (nat \<Rightarrow> u8) \<Rightarrow> nat \<Rightarrow> u64 \<Rightarrow> bool \<Rightarrow> u64 \<times> bool \<times> nat" where
  "adc_loop 0 buf p s c = (s, c, p)"
| "adc_loop (Suc n) buf p s c =
     (let (s, c) = adc s (load_bytes 8 buf p) c in adc_loop n buf (p + 8) s c)"

text \<open>The chunk of \<open>n\<close> bytes that is left when bit \<open>k\<close> of the length is set.\<close>

definition add_rest :: "nat \<Rightarrow> nat \<Rightarrow> u32 \<Rightarrow> (nat \<Rightarrow> u8) \<Rightarrow> u64 \<times> nat \<Rightarrow> u64 \<times> nat" where
  "add_rest k n len buf sp =
     (case sp of (s, p) \<Rightarrow> if bit len k then (add_carry s (load_bytes n buf p), p + n) else (s, p))"

text \<open>The last lines: the halves of the 64-bit sum are added at 32 bits, those of that sum at 16 bits.\<close>

definition fold_sum :: "u64 \<Rightarrow> u16" where
  "fold_sum s =
     (let s32 = add_carry (ucast (drop_bit 32 s)) (ucast s) :: u32 in
      add_carry (ucast (drop_bit 16 s32)) (ucast s32))"

definition chksum_internet :: "(nat \<Rightarrow> u8) \<Rightarrow> u32 \<Rightarrow> u16" where
  "chksum_internet buf len =
     (let edx = drop_bit 3 len;
          sp = (if edx = 0 then (0, 0)
                else let (s, c, p) = adc_loop (unat edx) buf 0 0 False in (fst (adc s 0 c), p));
          sp = add_rest 2 4 len buf sp;
          sp = add_rest 1 2 len buf sp;
          sp = add_rest 0 1 len buf sp in
      NOT (fold_sum (fst sp)))"

section \<open>The sum of RFC 1071\<close>

text \<open>The sum of the 16-bit words of the data, an odd byte at the end being padded with a zero.\<close>

fun word_sum :: "u8 list \<Rightarrow> nat" where
  "word_sum [] = 0"
| "word_sum [a] = unat a"
| "word_sum (a # b # bs) = unat a + 256 * unat b + word_sum bs"

text \<open>The one's complement sum: carries are added back in, so zero stands for the sum of zeros only.\<close>

definition ones_sum :: "nat \<Rightarrow> nat" where
  "ones_sum n = (if n = 0 then 0 else (n - 1) mod 65535 + 1)"

text \<open>Numbers with the same one's complement sum.\<close>

definition oc_eq :: "nat \<Rightarrow> nat \<Rightarrow> bool" where
  "oc_eq a b \<longleftrightarrow> a mod 65535 = b mod 65535 \<and> (a = 0 \<longleftrightarrow> b = 0)"

lemma oc_eq_refl [simp]: "oc_eq a a"
  by (simp add: oc_eq_def)

lemma oc_eq_trans [trans]: "oc_eq a b \<Longrightarrow> oc_eq b c \<Longrightarrow> oc_eq a c"
  by (simp add: oc_eq_def)

lemma oc_eq_add: "oc_eq a b \<Longrightarrow> oc_eq c d \<Longrightarrow> oc_eq (a + c) (b + d)"
  by (auto simp: oc_eq_def intro: mod_add_cong)

text \<open>A power of \<open>2 ^ 16\<close> is one more than a multiple of 65535: what overflows counts as one.\<close>

lemma pow_carry: "(2 ^ (16 * k)) mod 65535 = (1 :: nat)"
  using power_mod [of 65536 "65535 :: nat" k] by (simp add: power_mult)

lemma oc_eq_carry: "oc_eq (2 ^ (16 * k) * a + b) (a + b)"
proof -
  have "(2 ^ (16 * k) * a + b) mod 65535 = ((2 ^ (16 * k) mod 65535) * a + b) mod 65535"
    by (metis mod_add_left_eq mod_mult_left_eq)
  then show ?thesis by (simp add: oc_eq_def pow_carry)
qed

lemma oc_eq_small:
  assumes "oc_eq a n" "a < 65536"
  shows "a = ones_sum n"
proof (cases "n = 0")
  case False
  then have a: "0 < a" "a mod 65535 = n mod 65535" using assms(1) by (auto simp: oc_eq_def)
  have "(a - 1) mod 65535 = (n - 1) mod 65535"
    using a False by (cases a; cases n) (auto simp: mod_Suc split: if_splits)
  moreover have "a - 1 < 65535" using assms(2) a(1) by simp
  ultimately show ?thesis using a(1) False by (simp add: ones_sum_def)
qed (use assms in \<open>simp add: oc_eq_def ones_sum_def\<close>)

lemma unat_bound: "unat (a :: 'a :: len word) < 2 ^ LENGTH('a)"
  by (rule unsigned_less)

lemma le_val_less: "le_val bs < 256 ^ length bs"
proof (induction bs)
  case (Cons b bs)
  have "unat b < 256" using unat_bound [of b] by simp
  with Cons show ?case by simp
qed simp

lemma le_val_words: "oc_eq (le_val bs) (word_sum bs)"
proof (induction bs rule: word_sum.induct)
  case (3 a b bs)
  have "le_val (a # b # bs) = 2 ^ (16 * 1) * le_val bs + (unat a + 256 * unat b)" by simp
  also have "oc_eq (2 ^ (16 * 1) * le_val bs + (unat a + 256 * unat b)) (le_val bs + (unat a + 256 * unat b))" by (rule oc_eq_carry)
  also have "oc_eq (le_val bs + (unat a + 256 * unat b)) (word_sum bs + (unat a + 256 * unat b))"
    by (rule oc_eq_add [OF 3 oc_eq_refl])
  finally show ?case by (simp add: ac_simps)
qed simp_all

lemma word_sum_append: "even (length xs) \<Longrightarrow> word_sum (xs @ ys) = word_sum xs + word_sum ys"
  by (induction xs rule: word_sum.induct) simp_all

lemma unat_load: "n \<le> 8 \<Longrightarrow> unat (load_bytes n buf p) = le_val (map buf [p..<p + n])"
proof -
  assume n: "n \<le> 8"
  have "le_val (map buf [p..<p + n]) < 256 ^ n" using le_val_less [of "map buf [p..<p + n]"] by simp
  also have "(256 :: nat) ^ n \<le> 256 ^ 8" by (rule power_increasing) (use n in simp_all)
  finally show ?thesis by (simp add: load_bytes_def unat_of_nat)
qed

lemma load_words: "n \<le> 8 \<Longrightarrow> oc_eq (unat (load_bytes n buf p)) (word_sum (map buf [p..<p + n]))"
  by (simp add: unat_load le_val_words)

section \<open>Sums at a width\<close>

lemma unat_adc:
  fixes a b :: "'a :: len word"
  assumes "adc a b c = (s, c')"
  shows "unat a + unat b + of_bool c = unat s + 2 ^ LENGTH('a) * of_bool c'"
proof -
  let ?t = "unat a + unat b + of_bool c"
  have s: "s = of_nat ?t" and c': "c' \<longleftrightarrow> 2 ^ LENGTH('a) \<le> ?t" using assms by (auto simp: adc_def)
  have "?t < 2 * 2 ^ LENGTH('a)" using unat_bound [of a] unat_bound [of b] by (cases c; simp only: of_bool_eq; linarith)
  then have "?t div 2 ^ LENGTH('a) = of_bool c'" using c' by (auto simp: div_nat_eqI)
  moreover have "unat s = ?t mod 2 ^ LENGTH('a)" by (simp only: s unat_of_nat)
  ultimately show ?thesis by (metis add.commute mult.commute mod_mult_div_eq mult_div_mod_eq)
qed

lemma adc_zero:
  fixes s :: "'a :: len word"
  assumes "unat s + of_bool c < 2 ^ LENGTH('a)"
  shows "unat (fst (adc s 0 c)) = unat s + of_bool c"
proof -
  obtain s' c' where e: "adc s 0 c = (s', c')" by fastforce
  show ?thesis using unat_adc [OF e] assms by (cases c') (simp_all add: e)
qed

text \<open>A carry leaves room for it: the sum that overflowed is not the greatest one.\<close>

lemma adc_room:
  fixes a b :: "'a :: len word"
  assumes "adc a b c = (s, c')" "unat a + of_bool c < 2 ^ LENGTH('a)"
  shows "unat s + of_bool c' < 2 ^ LENGTH('a)"
  using unat_adc [OF assms(1)] assms(2) unat_bound [of b] unat_bound [of s]
  by (cases c'; simp only: of_bool_eq mult_1_right mult_0_right; linarith)

lemma adc_oc:
  fixes a b :: "'a :: len word"
  assumes "adc a b c = (s, c')" "LENGTH('a) = 16 * k"
  shows "oc_eq (unat s + of_bool c') (unat a + of_bool c + unat b)"
  using oc_eq_carry [of k "of_bool c'" "unat s"] unat_adc [OF assms(1)]
  unfolding assms(2) by (simp add: oc_eq_def ac_simps)

lemma add_carry_oc:
  fixes a b :: "'a :: len word"
  assumes "LENGTH('a) = 16 * k"
  shows "oc_eq (unat (add_carry a b)) (unat a + unat b)"
proof -
  obtain s c where sc: "adc a b False = (s, c)" by fastforce
  have "unat (add_carry a b) = unat s + of_bool c"
    using adc_zero [OF adc_room [OF sc]] by (simp add: add_carry_def sc)
  then show ?thesis using adc_oc [OF sc assms] by simp
qed

lemma unat_high:
  "LENGTH('a) = n + LENGTH('b) \<Longrightarrow> unat (ucast (drop_bit n (a :: 'a :: len word)) :: 'b :: len word) = unat a div 2 ^ n"
proof -
  assume l: "LENGTH('a) = n + LENGTH('b)"
  have "unat a div 2 ^ n < 2 ^ LENGTH('b)"
    using unat_bound [of a] unfolding l power_add by (simp only: less_mult_imp_div_less mult.commute)
  then show ?thesis by (simp only: unsigned_ucast_eq unat_drop_bit take_bit_eq_mod mod_less)
qed

lemma fold_sum_oc: "oc_eq (unat (fold_sum s)) (unat s)"
proof -
  define s32 where "s32 = (add_carry (ucast (drop_bit 32 s)) (ucast s) :: u32)"
  have hi: "unat (ucast (drop_bit 32 s) :: u32) = unat s div 2 ^ 32"
    by (rule unat_high) simp
  have hi16: "unat (ucast (drop_bit 16 s32) :: u16) = unat s32 div 2 ^ 16"
    by (rule unat_high) simp
  have "oc_eq (unat (fold_sum s)) (unat s32 div 2 ^ 16 + unat s32 mod 2 ^ 16)"
    using add_carry_oc [of 1 "ucast (drop_bit 16 s32)" "ucast s32 :: u16"]
    unfolding hi16 by (simp add: fold_sum_def s32_def [symmetric] unsigned_ucast_eq take_bit_eq_mod)
  also have "oc_eq (unat s32 div 2 ^ 16 + unat s32 mod 2 ^ 16) (2 ^ (16 * 1) * (unat s32 div 2 ^ 16) + unat s32 mod 2 ^ 16)"
    using oc_eq_carry [of 1 "unat s32 div 2 ^ 16" "unat s32 mod 2 ^ 16"] by (simp add: oc_eq_def)
  also have "2 ^ (16 * 1) * (unat s32 div 2 ^ 16) + unat s32 mod 2 ^ 16 = unat s32" by simp
  also have "oc_eq (unat s32) (unat s div 2 ^ 32 + unat s mod 2 ^ 32)"
    using add_carry_oc [of 2 "ucast (drop_bit 32 s)" "ucast s :: u32"]
    unfolding hi by (simp add: s32_def [symmetric] unsigned_ucast_eq take_bit_eq_mod)
  also have "oc_eq (unat s div 2 ^ 32 + unat s mod 2 ^ 32) (2 ^ (16 * 2) * (unat s div 2 ^ 32) + unat s mod 2 ^ 32)"
    using oc_eq_carry [of 2 "unat s div 2 ^ 32" "unat s mod 2 ^ 32"] by (simp add: oc_eq_def)
  also have "2 ^ (16 * 2) * (unat s div 2 ^ 32) + unat s mod 2 ^ 32 = unat s" by simp
  finally show ?thesis .
qed

section \<open>The checksum\<close>

lemma words_upto: "even n \<Longrightarrow> n \<le> m \<Longrightarrow> word_sum (map buf [0..<n]) + word_sum (map buf [n..<m]) = word_sum (map buf [0..<m])"
  using word_sum_append [of "map buf [0..<n]" "map buf [n..<m]"] upt_add_eq_append [of 0 n "m - n"] by (simp flip: map_append)

lemma adc_loop_sum:
  assumes "adc_loop n buf p s c = (s', c', p')" "unat s + of_bool c < 2 ^ 64"
  shows "p' = p + 8 * n \<and> unat s' + of_bool c' < 2 ^ 64 \<and>
     oc_eq (unat s' + of_bool c') (unat s + of_bool c + word_sum (map buf [p..<p + 8 * n]))"
  using assms
proof (induction n arbitrary: p s c)
  case (Suc n)
  obtain t d where t: "adc s (load_bytes 8 buf p) c = (t, d)" by fastforce
  have room: "unat t + of_bool d < 2 ^ 64" using adc_room [OF t] Suc.prems(2) by simp
  have IH: "p' = p + 8 + 8 * n" "unat s' + of_bool c' < 2 ^ 64"
      "oc_eq (unat s' + of_bool c') (unat t + of_bool d + word_sum (map buf [p + 8..<p + 8 + 8 * n]))"
    using Suc.IH [OF _ room, of "p + 8"] Suc.prems(1) unfolding adc_loop.simps t by auto
  have "oc_eq (unat t + of_bool d) (unat s + of_bool c + unat (load_bytes 8 buf p))" by (rule adc_oc [OF t, of 4]) simp
  also have "oc_eq (unat s + of_bool c + unat (load_bytes 8 buf p)) (unat s + of_bool c + word_sum (map buf [p..<p + 8]))"
    by (rule oc_eq_add [OF oc_eq_refl load_words]) simp
  finally have "oc_eq (unat t + of_bool d + word_sum (map buf [p + 8..<p + 8 + 8 * n]))
      (unat s + of_bool c + word_sum (map buf [p..<p + 8]) + word_sum (map buf [p + 8..<p + 8 + 8 * n]))"
    by (rule oc_eq_add) (rule oc_eq_refl)
  from oc_eq_trans [OF IH(3) this]
  have "oc_eq (unat s' + of_bool c')
      (unat s + of_bool c + (word_sum (map buf [p..<p + 8]) + word_sum (map buf [p + 8..<p + 8 + 8 * n])))"
    by (simp only: add.assoc)
  moreover have "word_sum (map buf [p..<p + 8]) + word_sum (map buf [p + 8..<p + 8 + 8 * n]) = word_sum (map buf [p..<p + 8 * Suc n])"
    using word_sum_append [of "map buf [p..<p + 8]" "map buf [p + 8..<p + 8 + 8 * n]"] upt_add_eq_append [of p "p + 8" "8 * n"]
    by (simp flip: map_append add: add.assoc)
  ultimately show ?case using IH(1,2) by simp
qed simp

text \<open>The sum and the offset agree: the words before the offset have been added.\<close>

definition summed :: "(nat \<Rightarrow> u8) \<Rightarrow> u64 \<times> nat \<Rightarrow> bool" where
  "summed buf sp \<longleftrightarrow> oc_eq (unat (fst sp)) (word_sum (map buf [0..<snd sp]))"

lemma add_rest_summed:
  assumes "summed buf sp" "even (snd sp)" "n \<le> 8"
  shows "summed buf (add_rest k n len buf sp)" "snd (add_rest k n len buf sp) = snd sp + (if bit len k then n else 0)"
proof -
  obtain s p where sp: "sp = (s, p)" by fastforce
  have "oc_eq (unat (add_carry s (load_bytes n buf p))) (unat s + unat (load_bytes n buf p))" by (rule add_carry_oc [of 4]) simp
  also have "oc_eq (unat s + unat (load_bytes n buf p)) (word_sum (map buf [0..<p]) + word_sum (map buf [p..<p + n]))"
    using assms by (intro oc_eq_add load_words) (simp_all add: summed_def sp)
  also have "word_sum (map buf [0..<p]) + word_sum (map buf [p..<p + n]) = word_sum (map buf [0..<p + n])"
    using assms(2) by (intro words_upto) (simp_all add: sp)
  finally show "summed buf (add_rest k n len buf sp)" using assms(1) by (simp add: add_rest_def sp summed_def)
  show "snd (add_rest k n len buf sp) = snd sp + (if bit len k then n else 0)" by (simp add: add_rest_def sp)
qed

lemma length_parts:
  fixes len :: u32
  shows "8 * unat (drop_bit 3 len) + (if bit len 2 then 4 else 0) + (if bit len 1 then 2 else 0) + (if bit len 0 then 1 else 0) = unat len"
proof -
  define n where "n = unat len"
  have b: "bit len k \<longleftrightarrow> odd (n div 2 ^ k)" for k by (simp add: n_def bit_word_nat)
  have "unat (drop_bit 3 len) = n div 8" by (simp add: n_def unat_drop_bit)
  then show ?thesis unfolding b n_def [symmetric] by simp presburger
qed

lemma unat_not16: "unat (NOT w) = 65535 - unat (w :: u16)"
proof -
  have "NOT w = - 1 - w" by (simp add: not_eq_complement)
  moreover have "unat (- 1 - w) = unat (- 1 :: u16) - unat w" by (rule unat_sub) simp
  moreover have "unat (- 1 :: u16) = 65535" by (simp add: unsigned_minus_1_eq_mask mask_eq_exp_minus_1)
  ultimately show ?thesis by simp
qed

lemma chksum_value:
  "unat (chksum_internet buf len) = 65535 - ones_sum (word_sum (map buf [0..<unat len]))"
proof -
  define sp where "sp = (if drop_bit 3 len = 0 then (0, 0)
      else let (s, c, p) = adc_loop (unat (drop_bit 3 len)) buf 0 0 False in (fst (adc s 0 c), p))"
  define sp1 where "sp1 = add_rest 2 4 len buf sp"
  define sp2 where "sp2 = add_rest 1 2 len buf sp1"
  define sp3 where "sp3 = add_rest 0 1 len buf sp2"
  have sp: "summed buf sp \<and> snd sp = 8 * unat (drop_bit 3 len)"
  proof (cases "drop_bit 3 len = 0")
    case True
    then show ?thesis by (simp add: sp_def summed_def)
  next
    case False
    obtain s c p where l: "adc_loop (unat (drop_bit 3 len)) buf 0 0 False = (s, c, p)" by (metis prod_cases3)
    have r: "p = 8 * unat (drop_bit 3 len)" "unat s + of_bool c < 2 ^ 64" "oc_eq (unat s + of_bool c) (word_sum (map buf [0..<p]))"
      using adc_loop_sum [OF l] by simp_all
    then show ?thesis using False adc_zero [of s c] by (simp add: sp_def summed_def l)
  qed
  note 1 = add_rest_summed [of buf sp 4 2 len, folded sp1_def]
  note 2 = add_rest_summed [of buf sp1 2 1 len, folded sp2_def]
  note 3 = add_rest_summed [of buf sp2 1 0 len, folded sp3_def]
  have "summed buf sp3" "snd sp3 = unat len" using 1 2 3 sp length_parts [of len] by simp_all
  then have "oc_eq (unat (fold_sum (fst sp3))) (word_sum (map buf [0..<unat len]))"
    using oc_eq_trans [OF fold_sum_oc] by (simp add: summed_def)
  moreover have "unat (fold_sum (fst sp3)) < 65536" using unat_bound [of "fold_sum (fst sp3)"] by simp
  ultimately have "unat (fold_sum (fst sp3)) = ones_sum (word_sum (map buf [0..<unat len]))" by (rule oc_eq_small)
  then show ?thesis
    unfolding sp3_def sp2_def sp1_def sp_def chksum_internet_def Let_def unat_not16 by simp
qed

lemma ones_sum_complement: "ones_sum (n + (65535 - ones_sum n)) = 65535"
proof (cases "n = 0")
  case False
  define q r where "q = (n - 1) div 65535" and "r = (n - 1) mod 65535"
  have "n - 1 = 65535 * q + r" and r: "r < 65535" by (simp_all add: q_def r_def)
  then have "n + (65535 - (r + 1)) = Suc (65534 + 65535 * q)" using False by simp
  moreover have "ones_sum n = r + 1" using False by (simp add: ones_sum_def r_def)
  ultimately show ?thesis by (simp only: ones_sum_def) simp
qed (simp add: ones_sum_def)

section \<open>Properties\<close>

text \<open>
  C32: The assembly computes the checksum of RFC 1071 for data of every length: the complement of the one's
  complement sum of its 16-bit words, an odd byte at the end padded with zero.  No carry of the 64-bit
  sums is lost, and folding the sum keeps its value.  A receiver that sums the data together with the
  checksum, stored behind an even number of bytes, gets all ones, which stands for intact data.
\<close>

theorem chksum_internet_rfc1071:
  "unat (chksum_internet buf len) = 65535 - ones_sum (word_sum (map buf [0..<unat len])) \<and>
   (even (unat len) \<longrightarrow>
     ones_sum (word_sum (map buf [0..<unat len] @ [ucast (chksum_internet buf len), ucast (drop_bit 8 (chksum_internet buf len))])) = 65535)"
proof (intro conjI impI)
  assume e: "even (unat len)"
  let ?c = "chksum_internet buf len" and ?n = "word_sum (map buf [0..<unat len])"
  have "unat (ucast ?c :: u8) = unat ?c mod 256" by (simp add: unsigned_ucast_eq take_bit_eq_mod)
  moreover have "unat (ucast (drop_bit 8 ?c) :: u8) = unat ?c div 2 ^ 8" by (rule unat_high) simp
  ultimately have "word_sum (map buf [0..<unat len] @ [ucast ?c, ucast (drop_bit 8 ?c)]) = ?n + unat ?c"
    using e by (simp add: word_sum_append)
  then show "ones_sum (word_sum (map buf [0..<unat len] @ [ucast ?c, ucast (drop_bit 8 ?c)])) = 65535"
    by (simp only: chksum_value ones_sum_complement)
qed (rule chksum_value)

text \<open>The example of RFC 1071, whose words sum to \<open>0xf2dd\<close> with the bytes exchanged.\<close>

definition ex_data :: "nat \<Rightarrow> u8" where
  "ex_data = (!) [0x00, 0x01, 0xf2, 0x03, 0xf4, 0xf5, 0xf6, 0xf7]"

theorem chksum_internet_rfc1071_witness:
  "unat (chksum_internet ex_data 8) = 65535 - 0xf2dd \<and>
   ones_sum (word_sum (map ex_data [0..<8] @ [ucast (chksum_internet ex_data 8), ucast (drop_bit 8 (chksum_internet ex_data 8))])) = 65535"
proof -
  have "word_sum (map ex_data [0..<8]) = 0x1f2dc" by (simp add: ex_data_def upt_rec)
  then show ?thesis using chksum_internet_rfc1071 [of ex_data 8] by (simp add: ones_sum_def)
qed

end
