(* ===== verification/Base_Sync.thy ===== *)
theory Base_Sync
  imports Psp_Prelude
begin

text \<open>
  Synchronisation in \<^verbatim>\<open>include/base\<close>: the atomic counters of \<^verbatim>\<open>atomic.h\<close>, the reference counts of
  \<^verbatim>\<open>kref.h\<close>, the spin locks of \<^verbatim>\<open>lock.h\<close> and the generation numbers of \<^verbatim>\<open>gen.h\<close>.  An atomic operation is a
  function of the value of the counter, which gives what it returns and the new value; it is one step of any
  interleaving.  Signed counters wrap around, as the instructions do, and are kept as words.
\<close>

section \<open>Atomic counters\<close>

text \<open>The operations on \<open>atomic_t\<close>, an \<open>int\<close>; the bitwise ones return the old value as a \<open>long\<close>.\<close>

definition atomic_read :: "u32 \<Rightarrow> u32" where "atomic_read a = a"
definition atomic_write :: "u32 \<Rightarrow> u32 \<Rightarrow> u32" where "atomic_write a v = v"
definition atomic_fetch_and_add :: "u32 \<Rightarrow> u32 \<Rightarrow> u32 \<times> u32" where "atomic_fetch_and_add a v = (a, a + v)"
definition atomic_fetch_and_sub :: "u32 \<Rightarrow> u32 \<Rightarrow> u32 \<times> u32" where "atomic_fetch_and_sub a v = (a, a + v)"
definition atomic_fetch_and_or :: "u32 \<Rightarrow> u32 \<Rightarrow> u64 \<times> u32" where "atomic_fetch_and_or a v = (scast a, a OR v)"
definition atomic_fetch_and_xor :: "u32 \<Rightarrow> u32 \<Rightarrow> u64 \<times> u32" where "atomic_fetch_and_xor a v = (scast a, a XOR v)"
definition atomic_fetch_and_and :: "u32 \<Rightarrow> u32 \<Rightarrow> u64 \<times> u32" where "atomic_fetch_and_and a v = (scast a, a AND v)"
definition atomic_fetch_and_nand :: "u32 \<Rightarrow> u32 \<Rightarrow> u64 \<times> u32" where "atomic_fetch_and_nand a v = (scast a, NOT (a AND v))"
definition atomic_add_and_fetch :: "u32 \<Rightarrow> u32 \<Rightarrow> u32 \<times> u32" where "atomic_add_and_fetch a v = (a + v, a + v)"
definition atomic_sub_and_fetch :: "u32 \<Rightarrow> u32 \<Rightarrow> u32 \<times> u32" where "atomic_sub_and_fetch a v = (a - v, a - v)"
definition atomic_inc :: "u32 \<Rightarrow> u32" where "atomic_inc a = snd (atomic_fetch_and_add a 1)"
definition atomic_dec :: "u32 \<Rightarrow> u32" where "atomic_dec a = snd (atomic_sub_and_fetch a 1)"
definition atomic_dec_and_test :: "u32 \<Rightarrow> bool \<times> u32" where
  "atomic_dec_and_test a = (let (r, a) = atomic_sub_and_fetch a 1 in (r = 0, a))"
definition atomic_cmpxchg :: "u32 \<Rightarrow> u32 \<Rightarrow> u32 \<Rightarrow> bool \<times> u32" where
  "atomic_cmpxchg a oldv newv = (a = oldv, if a = oldv then newv else a)"
definition atomic_cmpxchg_val :: "u32 \<Rightarrow> u32 \<Rightarrow> u32 \<Rightarrow> u32 \<times> u32" where
  "atomic_cmpxchg_val a oldv newv = (a, if a = oldv then newv else a)"

text \<open>The operations on \<open>atomic64_t\<close>, a \<open>long\<close>.\<close>

definition atomic64_read :: "u64 \<Rightarrow> u64" where "atomic64_read a = a"
definition atomic64_write :: "u64 \<Rightarrow> u64 \<Rightarrow> u64" where "atomic64_write a v = v"
definition atomic64_fetch_and_add :: "u64 \<Rightarrow> u64 \<Rightarrow> u64 \<times> u64" where "atomic64_fetch_and_add a v = (a, a + v)"
definition atomic64_fetch_and_sub :: "u64 \<Rightarrow> u64 \<Rightarrow> u64 \<times> u64" where "atomic64_fetch_and_sub a v = (a, a - v)"
definition atomic64_fetch_and_or :: "u64 \<Rightarrow> u64 \<Rightarrow> u64 \<times> u64" where "atomic64_fetch_and_or a v = (a, a OR v)"
definition atomic64_fetch_and_xor :: "u64 \<Rightarrow> u64 \<Rightarrow> u64 \<times> u64" where "atomic64_fetch_and_xor a v = (a, a XOR v)"
definition atomic64_fetch_and_and :: "u64 \<Rightarrow> u64 \<Rightarrow> u64 \<times> u64" where "atomic64_fetch_and_and a v = (a, a AND v)"
definition atomic64_fetch_and_nand :: "u64 \<Rightarrow> u64 \<Rightarrow> u64 \<times> u64" where "atomic64_fetch_and_nand a v = (a, NOT (a AND v))"
definition atomic64_add_and_fetch :: "u64 \<Rightarrow> u64 \<Rightarrow> u64 \<times> u64" where "atomic64_add_and_fetch a v = (a + v, a + v)"
definition atomic64_sub_and_fetch :: "u64 \<Rightarrow> u64 \<Rightarrow> u64 \<times> u64" where "atomic64_sub_and_fetch a v = (a - v, a - v)"
definition atomic64_inc :: "u64 \<Rightarrow> u64" where "atomic64_inc a = snd (atomic64_fetch_and_add a 1)"
definition atomic64_dec :: "u64 \<Rightarrow> u64" where "atomic64_dec a = snd (atomic64_sub_and_fetch a 1)"
definition atomic64_dec_and_test :: "u64 \<Rightarrow> bool \<times> u64" where
  "atomic64_dec_and_test a = (let (r, a) = atomic64_sub_and_fetch a 1 in (r = 0, a))"
definition atomic64_cmpxchg :: "u64 \<Rightarrow> u64 \<Rightarrow> u64 \<Rightarrow> bool \<times> u64" where
  "atomic64_cmpxchg a oldv newv = (a = oldv, if a = oldv then newv else a)"
definition atomic64_cmpxchg_val :: "u64 \<Rightarrow> u64 \<Rightarrow> u64 \<Rightarrow> u64 \<times> u64" where
  "atomic64_cmpxchg_val a oldv newv = (a, if a = oldv then newv else a)"

section \<open>Reference counts\<close>

record kref =
  k_cnt :: u32

definition kref_init :: "kref \<Rightarrow> kref" where "kref_init r = r\<lparr>k_cnt := atomic_write (k_cnt r) 1\<rparr>"
definition kref_initn :: "kref \<Rightarrow> u32 \<Rightarrow> kref" where "kref_initn r n = r\<lparr>k_cnt := atomic_write (k_cnt r) n\<rparr>"
definition kref_get :: "kref \<Rightarrow> kref" where "kref_get r = r\<lparr>k_cnt := atomic_inc (k_cnt r)\<rparr>"

text \<open>Whether the release function is called, and the reference count.\<close>

definition kref_put :: "kref \<Rightarrow> bool \<times> kref" where
  "kref_put r = (let (zero, n) = atomic_dec_and_test (k_cnt r) in (zero, r\<lparr>k_cnt := n\<rparr>))"

definition kref_released :: "kref \<Rightarrow> bool" where "kref_released r \<longleftrightarrow> atomic_read (k_cnt r) = 0"

text \<open>
  Counted objects in general: any number of threads take and drop references, each only while it holds
  one; \<open>h\<close> is the number of references each of the threads below \<open>n\<close> holds.
\<close>

datatype ref_op = Get nat | Put nat

fun holders :: "nat \<Rightarrow> (nat \<Rightarrow> nat) \<Rightarrow> ref_op list \<Rightarrow> (nat \<Rightarrow> nat) option" where
  "holders n h [] = Some h"
| "holders n h (Get t # ops) = (if t < n \<and> 0 < h t then holders n (h(t := Suc (h t))) ops else None)"
| "holders n h (Put t # ops) = (if t < n \<and> 0 < h t then holders n (h(t := h t - 1)) ops else None)"

definition total_refs :: "nat \<Rightarrow> (nat \<Rightarrow> nat) \<Rightarrow> nat" where
  "total_refs n h = sum_list (map h [0..<n])"

text \<open>The objects along a sequence of operations, and which operations release.\<close>

fun ref_run :: "('o \<Rightarrow> 'o) \<Rightarrow> ('o \<Rightarrow> bool \<times> 'o) \<Rightarrow> 'o \<Rightarrow> ref_op list \<Rightarrow> bool list \<times> 'o" where
  "ref_run get put x [] = ([], x)"
| "ref_run get put x (Get t # ops) = (let (rs, y) = ref_run get put (get x) ops in (False # rs, y))"
| "ref_run get put x (Put t # ops) =
     (let (r, x) = put x; (rs, y) = ref_run get put x ops in (r # rs, y))"

lemma total_refs_upd:
  assumes "t < n"
  shows "total_refs n (h(t := k)) + h t = total_refs n h + k"
proof -
  have "sum_list (map (h(t := k)) [0..<n]) = sum (h(t := k)) {0..<n}" "sum_list (map h [0..<n]) = sum h {0..<n}"
    by (simp_all add: sum_list_distinct_conv_sum_set)
  moreover have "sum (h(t := k)) {0..<n} = k + sum h ({0..<n} - {t})" "sum h {0..<n} = h t + sum h ({0..<n} - {t})"
    using assms by (simp_all add: sum.remove [of _ t])
  ultimately show ?thesis by (simp add: total_refs_def)
qed

lemma total_refs_pos: "t < n \<Longrightarrow> 0 < h t \<Longrightarrow> 0 < total_refs n h"
  using total_refs_upd [of t n h 0] by simp

lemma holders_pos:
  assumes "holders n h ops = Some h'" "ops \<noteq> []"
  shows "0 < total_refs n h"
proof -
  obtain op ops' where "ops = op # ops'" using assms(2) by (cases ops) auto
  then obtain t where "t < n" "0 < h t" using assms(1) by (cases op) (auto split: if_splits)
  then show ?thesis by (rule total_refs_pos)
qed

locale counted =
  fixes cnt :: "'o \<Rightarrow> u32" and get :: "'o \<Rightarrow> 'o" and put :: "'o \<Rightarrow> bool \<times> 'o"
  assumes cnt_get: "cnt (get x) = cnt x + 1"
    and cnt_put: "cnt (snd (put x)) = cnt x - 1"
    and put_release: "fst (put x) \<longleftrightarrow> cnt x = 1"
begin

lemma release_last:
  assumes "holders n h ops = Some h'" "cnt x = of_nat (total_refs n h)" "total_refs n h + length ops < 2 ^ 32"
    and "ref_run get put x ops = (rs, y)" "ops \<noteq> []"
  shows "cnt y = of_nat (total_refs n h') \<and> rs = replicate (length ops - 1) False @ [total_refs n h' = 0]"
  using assms
proof (induction ops arbitrary: h x rs)
  case (Cons op ops)
  define t where "t = (case op of Get t \<Rightarrow> t | Put t \<Rightarrow> t)"
  define k where "k = (case op of Get t \<Rightarrow> Suc (h t) | Put t \<Rightarrow> h t - 1)"
  define z where "z = (case op of Get t \<Rightarrow> (False, get x) | Put t \<Rightarrow> put x)"
  have t: "t < n" "0 < h t" and run: "holders n (h(t := k)) ops = Some h'"
    using Cons.prems(1) by (cases op; auto simp: t_def k_def split: if_splits)+
  obtain rs' where rs': "rs = fst z # rs'" "ref_run get put (snd z) ops = (rs', y)"
    using Cons.prems(4) by (cases op) (auto simp: z_def split: prod.splits)
  define m where "m = total_refs n h"
  define m' where "m' = total_refs n (h(t := k))"
  have m: "0 < m" "m < 2 ^ 32" using total_refs_pos [of t n h, OF t] Cons.prems(3) by (simp_all add: m_def)
  have m': "m' = (case op of Get _ \<Rightarrow> Suc m | Put _ \<Rightarrow> m - 1)"
    using total_refs_upd [OF t(1), of h k] t(2) by (auto simp: m_def m'_def k_def t_def split: ref_op.splits)
  have z: "cnt (snd z) = of_nat m'" "fst z \<longleftrightarrow> m' = 0"
  proof -
    have c: "cnt x = of_nat m" using Cons.prems(2) by (simp add: m_def)
    have one: "(of_nat m :: u32) = 1 \<longleftrightarrow> m = 1" using m by (simp add: word_unat_eq_iff unat_of_nat)
    show "cnt (snd z) = of_nat m'"
      using m(1) by (cases op) (simp_all add: z_def m' cnt_get cnt_put c of_nat_diff)
    show "fst z \<longleftrightarrow> m' = 0"
      using m(1) by (cases op) (auto simp: z_def m' put_release c one)
  qed
  show ?case
  proof (cases "ops = []")
    case True
    then show ?thesis using run rs' z by (simp add: m'_def)
  next
    case False
    then have ne: "0 < length ops" by simp
    have "m' + length ops < 2 ^ 32" using Cons.prems(3) m' by (simp add: m_def split: ref_op.splits)
    then have IH: "cnt y = of_nat (total_refs n h')" "rs' = replicate (length ops - 1) False @ [total_refs n h' = 0]"
      using Cons.IH [of "h(t := k)" "snd z" rs', OF run _ _ rs'(2) False] z(1) unfolding m'_def by blast+
    have "m' \<noteq> 0" using holders_pos [OF run False] by (simp add: m'_def)
    then have "fst z = False" using z(2) by simp
    then have "rs = replicate (length ops) False @ [total_refs n h' = 0]"
      using rs'(1) IH(2) ne by (cases "length ops") (simp_all)
    then show ?thesis using IH(1) by simp
  qed
qed simp

end

interpretation kr: counted k_cnt kref_get kref_put
  by unfold_locales
    (auto simp: kref_get_def kref_put_def atomic_inc_def atomic_fetch_and_add_def atomic_dec_and_test_def atomic_sub_and_fetch_def)

section \<open>Spin locks\<close>

definition spin_lock_init :: u32 where "spin_lock_init = 0"
definition spin_lock_held :: "u32 \<Rightarrow> bool" where "spin_lock_held l \<longleftrightarrow> l \<noteq> 0"

text \<open>\<open>__sync_lock_test_and_set(&l->locked, 1)\<close>: the old value and the new one.\<close>

definition test_and_set :: "u32 \<Rightarrow> u32 \<times> u32" where "test_and_set l = (l, 1)"

definition spin_try_lock :: "u32 \<Rightarrow> bool \<times> u32" where
  "spin_try_lock l = (let (old, l) = test_and_set l in (old = 0, l))"

definition spin_unlock :: "u32 \<Rightarrow> u32" where "spin_unlock l = 0"

text \<open>
  A thread that takes the lock is about to test and set it (\<open>Testing\<close>), reads it until it is free
  (\<open>Waiting\<close>) or has it (\<open>Holding\<close>).  One step of \<open>spin_lock\<close> is one access to the lock.
\<close>

datatype lock_pc = Outside | Testing | Waiting | Holding

definition spin_lock_step :: "lock_pc \<Rightarrow> u32 \<Rightarrow> lock_pc \<times> u32" where
  "spin_lock_step pc l =
     (case pc of
        Testing \<Rightarrow> (let (old, l) = test_and_set l in (if old \<noteq> 0 then Waiting else Holding, l))
      | Waiting \<Rightarrow> (if l \<noteq> 0 then Waiting else Testing, l)
      | _ \<Rightarrow> (pc, l))"

type_synonym lock_sys = "u32 \<times> (nat \<Rightarrow> lock_pc)"

inductive lock_step :: "lock_sys \<Rightarrow> lock_sys \<Rightarrow> bool" where
  enter: "pc t = Outside \<Longrightarrow> lock_step (l, pc) (l, pc(t := Testing))"
| spin: "pc t \<in> {Testing, Waiting} \<Longrightarrow> spin_lock_step (pc t) l = (p, l') \<Longrightarrow> lock_step (l, pc) (l', pc(t := p))"
| try_lock: "pc t = Outside \<Longrightarrow> spin_try_lock l = (r, l') \<Longrightarrow>
    lock_step (l, pc) (l', pc(t := (if r then Holding else Outside)))"
| unlock: "pc t = Holding \<Longrightarrow> lock_step (l, pc) (spin_unlock l, pc(t := Outside))"

inductive lock_reach :: "lock_sys \<Rightarrow> bool" where
  start: "lock_reach (spin_lock_init, \<lambda>_. Outside)"
| step: "lock_reach S \<Longrightarrow> lock_step S S' \<Longrightarrow> lock_reach S'"

inductive_cases lock_stepE: "lock_step (l, pc) S'"

definition lock_ok :: "lock_sys \<Rightarrow> bool" where
  "lock_ok S \<longleftrightarrow> (case S of (l, pc) \<Rightarrow>
     (l = 0 \<and> (\<forall>t. pc t \<noteq> Holding)) \<or> (l = 1 \<and> (\<exists>t. pc t = Holding \<and> (\<forall>u. pc u = Holding \<longrightarrow> u = t))))"

lemma lock_ok_same: "lock_ok (l, pc) \<Longrightarrow> (\<And>t. pc' t = Holding \<longleftrightarrow> pc t = Holding) \<Longrightarrow> lock_ok (l, pc')"
  by (simp add: lock_ok_def)

lemma lock_ok_take: "lock_ok (0, pc) \<Longrightarrow> lock_ok (1, pc(t := Holding))"
  by (auto simp: lock_ok_def)

lemma lock_ok_release: "lock_ok (l, pc) \<Longrightarrow> pc t = Holding \<Longrightarrow> lock_ok (0, pc(t := Outside))"
  by (auto simp: lock_ok_def)

lemma lock_ok_value: "lock_ok (l, pc) \<Longrightarrow> l \<noteq> 0 \<Longrightarrow> l = 1"
  by (auto simp: lock_ok_def)

lemma lock_ok_step:
  assumes "lock_ok S" "lock_step S S'"
  shows "lock_ok S'"
  using assms(2,1)
proof (induction rule: lock_step.induct)
  case (enter pc t l)
  show ?case by (rule lock_ok_same [OF enter(2)]) (use enter(1) in auto)
next
  case (spin pc t l p l')
  show ?case
  proof (cases "p = Holding")
    case True
    then have "l = 0" "l' = 1" using spin(1,2) by (auto simp: spin_lock_step_def test_and_set_def split: if_splits)
    then show ?thesis using lock_ok_take [of pc t] spin(3) True by simp
  next
    case False
    then have "l' = l" using spin(1,2) lock_ok_value [OF spin(3)] by (auto simp: spin_lock_step_def test_and_set_def split: if_splits)
    then show ?thesis using spin(1,3) False by (auto intro!: lock_ok_same [OF spin(3)] split: if_splits)
  qed
next
  case (try_lock pc t l r l')
  show ?case
  proof (cases r)
    case True
    then show ?thesis using try_lock(2,3) lock_ok_take [of pc t] by (simp add: spin_try_lock_def test_and_set_def)
  next
    case False
    then have "l' = l" using try_lock(2) lock_ok_value [OF try_lock(3)] by (simp add: spin_try_lock_def test_and_set_def)
    then show ?thesis using try_lock(1) False by (auto intro!: lock_ok_same [OF try_lock(3)] split: if_splits)
  qed
next
  case (unlock pc t l)
  show ?case unfolding spin_unlock_def by (rule lock_ok_release [OF unlock(2,1)])
qed

lemma lock_reach_ok: "lock_reach S \<Longrightarrow> lock_ok S"
proof (induction rule: lock_reach.induct)
  case start
  show ?case by (simp add: lock_ok_def spin_lock_init_def)
next
  case (step S S')
  show ?case by (rule lock_ok_step [OF step(3,2)])
qed

section \<open>Generation numbers\<close>

text \<open>The number the readers and the writer share lies in memory; \<open>prev_gen\<close> is private.\<close>

record gen_num =
  prev_gen :: u32
  gen :: ptr

type_synonym gen_mem = "ptr \<Rightarrow> u32"

definition gen_init :: "gen_num \<Rightarrow> ptr \<Rightarrow> gen_num" where "gen_init g p = g\<lparr>prev_gen := 0, gen := p\<rparr>"

definition gen_active :: "gen_num \<Rightarrow> gen_mem \<Rightarrow> gen_num \<times> gen_mem" where
  "gen_active g m = (g, if m (gen g) = 0 then m(gen g := prev_gen g + 1) else m)"

definition gen_inactive :: "gen_num \<Rightarrow> gen_mem \<Rightarrow> gen_num \<times> gen_mem" where
  "gen_inactive g m = (if m (gen g) \<noteq> 0 then (g\<lparr>prev_gen := m (gen g)\<rparr>, m(gen g := 0)) else (g, m))"

definition gen_in_same_gen :: "gen_num \<Rightarrow> gen_mem \<Rightarrow> bool \<times> gen_num" where
  "gen_in_same_gen g m =
     (let current_gen = m (gen g) in
      (current_gen \<noteq> 0 \<and> current_gen = prev_gen g, g\<lparr>prev_gen := current_gen\<rparr>))"

text \<open>A sequence of calls of the writer: \<open>True\<close> is \<open>gen_active\<close>, \<open>False\<close> is \<open>gen_inactive\<close>.\<close>

fun writer_run :: "bool list \<Rightarrow> gen_num \<Rightarrow> gen_mem \<Rightarrow> gen_num \<times> gen_mem" where
  "writer_run [] g m = (g, m)"
| "writer_run (a # as) g m = (let (g, m) = (if a then gen_active g m else gen_inactive g m) in writer_run as g m)"

text \<open>The number of the last generation begun; while one is ongoing it is the shared number.\<close>

definition last_gen :: "gen_num \<Rightarrow> gen_mem \<Rightarrow> nat" where
  "last_gen g m = (if m (gen g) = 0 then unat (prev_gen g) else unat (m (gen g)))"

lemma writer_run_gen: "gen (fst (writer_run as g m)) = gen g"
  by (induction as g m rule: writer_run.induct) (auto simp: gen_active_def gen_inactive_def)

lemma gen_succ: "unat (x :: u32) + 1 < 2 ^ 32 \<Longrightarrow> x + 1 \<noteq> 0 \<and> unat (x + 1) = Suc (unat x)"
proof -
  assume "unat x + 1 < 2 ^ 32"
  then have u: "unat (x + 1) = Suc (unat x)" by (simp add: unat_word_ariths)
  moreover have "x + 1 \<noteq> 0"
  proof
    assume "x + 1 = 0"
    then show False using u by simp
  qed
  ultimately show ?thesis by simp
qed

text \<open>Before the counter wraps around generations only move on, and one that has ended does not come back.\<close>

lemma writer_run_mono:
  assumes "last_gen g m + length as < 2 ^ 32 - 1" "writer_run as g m = (g', m')"
  shows "last_gen g m \<le> last_gen g' m' \<and>
     (m (gen g) = 0 \<longrightarrow> m' (gen g) = 0 \<or> last_gen g m < unat (m' (gen g)))"
  using assms
proof (induction as arbitrary: g m)
  case (Cons a as)
  define z where "z = (if a then gen_active g m else gen_inactive g m)"
  have run: "writer_run as (fst z) (snd z) = (g', m')" using Cons.prems(2) by (cases z) (simp add: z_def)
  have z: "gen (fst z) = gen g" "last_gen g m \<le> last_gen (fst z) (snd z)" "last_gen (fst z) (snd z) \<le> Suc (last_gen g m)"
      "m (gen g) = 0 \<Longrightarrow> snd z (gen g) = 0 \<and> fst z = g \<or> last_gen g m < last_gen (fst z) (snd z) \<and> snd z (gen g) \<noteq> 0"
    using gen_succ [of "prev_gen g"] Cons.prems(1)
    by (auto simp: z_def gen_active_def gen_inactive_def last_gen_def split: if_splits)
  have IH: "last_gen (fst z) (snd z) \<le> last_gen g' m'"
      "snd z (gen g) = 0 \<Longrightarrow> m' (gen g) = 0 \<or> last_gen (fst z) (snd z) < unat (m' (gen g))"
    using Cons.IH [OF _ run] z(1,3) Cons.prems(1) by simp_all
  have g': "gen g' = gen g" using writer_run_gen [of "a # as" g m] Cons.prems(2) by simp
  show ?case
  proof (intro conjI impI)
    show "last_gen g m \<le> last_gen g' m'" using IH(1) z(2) by simp
    have l: "m' (gen g) \<noteq> 0 \<Longrightarrow> last_gen g' m' = unat (m' (gen g))" by (simp add: last_gen_def g')
    assume 0: "m (gen g) = 0"
    show "m' (gen g) = 0 \<or> last_gen g m < unat (m' (gen g))"
    proof (cases "m' (gen g) = 0 \<or> snd z (gen g) = 0")
      case True
      then show ?thesis using IH(2) z(2) le_less_trans by blast
    next
      case False
      then show ?thesis using z(4) [OF 0] IH(1) l by simp
    qed
  qed
qed simp

section \<open>Properties\<close>

text \<open>
  C34: A counted object is released exactly once, by the operation that drops the last reference: however the
  threads interleave their calls of \<open>kref_get\<close> and \<open>kref_put\<close>, each made while the thread holds a reference, no
  operation but the last releases, and the last one does exactly when no thread holds a reference afterwards.
\<close>

theorem kref_released_once:
  assumes "holders n h ops = Some h'" "ops \<noteq> []" "total_refs n h + length ops < 2 ^ 32"
    and "ref_run kref_get kref_put (kref_initn r (of_nat (total_refs n h))) ops = (rs, r')"
  shows "rs = replicate (length ops - 1) False @ [total_refs n h' = 0] \<and> (last rs \<longrightarrow> kref_released r')"
  using kr.release_last [OF assms(1) _ assms(3,4,2)] by (auto simp: kref_initn_def atomic_write_def kref_released_def atomic_read_def)

theorem kref_released_once_witness:
  "fst (ref_run kref_get kref_put (kref_initn \<lparr>k_cnt = 7\<rparr> 2) [Get 1, Put 0, Put 1, Put 1]) = [False, False, False, True]"
proof -
  let ?h = "\<lambda>t :: nat. if t < 2 then 1 else 0 :: nat" and ?ops = "[Get 1, Put 0, Put 1, Put 1]"
  obtain h' where h: "holders 2 ?h ?ops = Some h'" "total_refs 2 h' = 0" "total_refs 2 ?h = 2"
    by (simp add: total_refs_def upt_rec)
  obtain rs r' where run: "ref_run kref_get kref_put (kref_initn \<lparr>k_cnt = 7\<rparr> 2) ?ops = (rs, r')" by fastforce
  have "rs = replicate (length ?ops - 1) False @ [total_refs 2 h' = 0]"
    using kref_released_once [OF h(1), of "\<lparr>k_cnt = 7\<rparr>" rs r'] run h(3) by simp
  then show ?thesis using run h(2) by (simp add: numeral_eq_Suc)
qed

text \<open>
  C33: Mutual exclusion: in every state reached by any number of threads that take, try and release a spin
  lock, at most one thread holds it, and the lock word tells whether one does.
\<close>

theorem spin_lock_exclusive:
  assumes "lock_reach (l, pc)"
  shows "(pc t = Holding \<and> pc u = Holding \<longrightarrow> t = u) \<and> (spin_lock_held l \<longleftrightarrow> (\<exists>t. pc t = Holding))"
  using lock_reach_ok [OF assms] by (auto simp: lock_ok_def spin_lock_held_def)

text \<open>Thread 0 takes the lock, thread 1 finds it taken and waits.\<close>

theorem spin_lock_exclusive_witness:
  "\<exists>pc. lock_reach (1, pc) \<and> pc 0 = Holding \<and> pc 1 = Waiting \<and> spin_lock_held 1"
proof -
  let ?out = "\<lambda>_ :: nat. Outside"
  have s1: "lock_step (spin_lock_init, ?out) (0, ?out(0 := Testing))"
    using lock_step.enter [of ?out 0 0] by (simp add: spin_lock_init_def)
  have s2: "lock_step (0, ?out(0 := Testing)) (1, ?out(0 := Holding))"
    using lock_step.spin [of "?out(0 := Testing)" 0 0 Holding 1] by (simp add: spin_lock_step_def test_and_set_def)
  have s3: "lock_step (1, ?out(0 := Holding)) (1, ?out(0 := Holding, 1 := Testing))"
    by (rule lock_step.enter) simp
  have s4: "lock_step (1, ?out(0 := Holding, 1 := Testing)) (1, ?out(0 := Holding, 1 := Waiting))"
    using lock_step.spin [of "?out(0 := Holding, 1 := Testing)" 1 1 Waiting 1] by (simp add: spin_lock_step_def test_and_set_def)
  have r: "lock_reach (1, ?out(0 := Holding, 1 := Waiting))" (is "lock_reach (1, ?pc)")
    by (intro lock_reach.step [OF _ s4] lock_reach.step [OF _ s3] lock_reach.step [OF _ s2] lock_reach.step [OF _ s1] lock_reach.start)
  have pc: "?pc 0 = Holding" "?pc 1 = Waiting" by simp_all
  then have "spin_lock_held 1" using spin_lock_exclusive [OF r, of 0 0] by blast
  with r pc show ?thesis by blast
qed

text \<open>
  What a reader of a generation number learns: between two of its checks it is told that the generation
  is the same exactly when one was ongoing at the first check and the writer has not called
  \<open>gen_inactive\<close> since, provided the counter does not wrap around.
\<close>

theorem gen_in_same_gen_iff:
  assumes "gen w = gen r" "last_gen w m + length as < 2 ^ 32 - 1" "writer_run as w m = (w', m')"
  shows "fst (gen_in_same_gen (snd (gen_in_same_gen r m)) m') \<longleftrightarrow> m (gen r) \<noteq> 0 \<and> False \<notin> set as"
proof -
  have same: "fst (gen_in_same_gen (snd (gen_in_same_gen r m)) m') \<longleftrightarrow> m' (gen r) \<noteq> 0 \<and> m' (gen r) = m (gen r)"
    by (simp add: gen_in_same_gen_def Let_def)
  have "m' (gen w) \<noteq> 0 \<and> m' (gen w) = m (gen w) \<longleftrightarrow> m (gen w) \<noteq> 0 \<and> False \<notin> set as"
    using assms(2,3)
  proof (induction as arbitrary: w m)
    case (Cons a as)
    show ?case
    proof (cases "m (gen w) = 0 \<or> \<not> a")
      case False
      then have e: "gen_active w m = (w, m)" by (simp add: gen_active_def)
      then show ?thesis using Cons.IH [of w m] Cons.prems False by simp
    next
      case True
      show ?thesis
      proof (cases "m (gen w) = 0")
        case z: True
        then show ?thesis by simp
      next
        case nz: False
        then have run: "writer_run as (w\<lparr>prev_gen := m (gen w)\<rparr>) (m(gen w := 0)) = (w', m')"
          using Cons.prems(2) True by (simp add: gen_inactive_def)
        have "m' (gen w) = 0 \<or> unat (m (gen w)) < unat (m' (gen w))"
          using writer_run_mono [OF _ run] Cons.prems(1) nz by (simp add: last_gen_def)
        then show ?thesis using True nz by auto
      qed
    qed
  qed simp
  then show ?thesis using same assms(1) by simp
qed

theorem gen_in_same_gen_iff_witness:
  "fst (gen_in_same_gen (snd (gen_in_same_gen \<lparr>prev_gen = 0, gen = 8\<rparr> (\<lambda>_. 5))) (snd (writer_run [True, True] \<lparr>prev_gen = 4, gen = 8\<rparr> (\<lambda>_. 5)))) \<and>
   \<not> fst (gen_in_same_gen (snd (gen_in_same_gen \<lparr>prev_gen = 0, gen = 8\<rparr> (\<lambda>_. 5))) (snd (writer_run [False, True] \<lparr>prev_gen = 4, gen = 8\<rparr> (\<lambda>_. 5))))"
  using gen_in_same_gen_iff [of "\<lparr>prev_gen = 4, gen = 8\<rparr>" "\<lparr>prev_gen = 0, gen = 8\<rparr>" "\<lambda>_. 5" "[True, True]"]
    gen_in_same_gen_iff [of "\<lparr>prev_gen = 4, gen = 8\<rparr>" "\<lparr>prev_gen = 0, gen = 8\<rparr>" "\<lambda>_. 5" "[False, True]"]
  by (simp add: last_gen_def split: prod.splits)

text \<open>
  After \<open>2 ^ 32 - 1\<close> generations the writer is stuck: the next number wraps around to zero, which means
  that no generation is ongoing, and no sequence of calls ever begins one again.
\<close>

theorem gen_stuck_after_wrap:
  assumes "m (gen w) = 0" "prev_gen w = - 1"
  shows "writer_run as w m = (w, m)"
  using assms by (induction as) (simp_all add: gen_active_def gen_inactive_def fun_upd_idem)

theorem gen_stuck_after_wrap_witness:
  "writer_run [True, False, True] \<lparr>prev_gen = 0xFFFFFFFF, gen = 8\<rparr> (\<lambda>_. 0) = (\<lparr>prev_gen = 0xFFFFFFFF, gen = 8\<rparr>, \<lambda>_. 0)"
  by (rule gen_stuck_after_wrap) simp_all

end
