(* ===== verification/Base_Page.thy ===== *)
theory Base_Page
  imports Base_Sync
begin

text \<open>
  Page addresses in \<^verbatim>\<open>include/base/mem.h\<close> and \<^verbatim>\<open>include/base/page.h\<close>: page numbers and offsets, the table of
  2 MB pages, the structures of the 4 KB pages of a shattered page, which lie at the start of that page, and the
  references to a page.  Pointers are 64-bit words; a page structure has 64 bytes.
\<close>

section \<open>Page numbers\<close>

definition PGSHIFT_4KB :: nat where "PGSHIFT_4KB = 12"
definition PGSHIFT_2MB :: nat where "PGSHIFT_2MB = 21"
definition PGSHIFT_1GB :: nat where "PGSHIFT_1GB = 30"
definition PGSIZE_4KB :: u64 where "PGSIZE_4KB = push_bit PGSHIFT_4KB 1"
definition PGSIZE_2MB :: u64 where "PGSIZE_2MB = push_bit PGSHIFT_2MB 1"
definition PGSIZE_1GB :: u64 where "PGSIZE_1GB = push_bit PGSHIFT_1GB 1"
definition PGMASK_4KB :: u64 where "PGMASK_4KB = PGSIZE_4KB - 1"
definition PGMASK_2MB :: u64 where "PGMASK_2MB = PGSIZE_2MB - 1"
definition PGMASK_1GB :: u64 where "PGMASK_1GB = PGSIZE_1GB - 1"
definition PGN_4KB :: "ptr \<Rightarrow> u64" where "PGN_4KB la = drop_bit PGSHIFT_4KB la"
definition PGN_2MB :: "ptr \<Rightarrow> u64" where "PGN_2MB la = drop_bit PGSHIFT_2MB la"
definition PGN_1GB :: "ptr \<Rightarrow> u64" where "PGN_1GB la = drop_bit PGSHIFT_1GB la"
definition PGOFF_4KB :: "ptr \<Rightarrow> u64" where "PGOFF_4KB la = la AND PGMASK_4KB"
definition PGOFF_2MB :: "ptr \<Rightarrow> u64" where "PGOFF_2MB la = la AND PGMASK_2MB"
definition PGOFF_1GB :: "ptr \<Rightarrow> u64" where "PGOFF_1GB la = la AND PGMASK_1GB"
definition PGADDR_4KB :: "ptr \<Rightarrow> ptr" where "PGADDR_4KB la = la AND NOT PGMASK_4KB"
definition PGADDR_2MB :: "ptr \<Rightarrow> ptr" where "PGADDR_2MB la = la AND NOT PGMASK_2MB"
definition PGADDR_1GB :: "ptr \<Rightarrow> ptr" where "PGADDR_1GB la = la AND NOT PGMASK_1GB"

section \<open>Page structures\<close>

record page =
  pg_flags :: u32
  pg_ref :: kref
  pg_next :: ptr
  pg_link :: "ptr \<times> ptr"
  pg_snode :: ptr
  pg_offset :: u64
  pg_paddr :: u64
  pg_item_count :: u64

type_synonym page_mem = "ptr \<Rightarrow> page"

definition PAGE_FLAG_LARGE :: u32 where "PAGE_FLAG_LARGE = 0x01"
definition PAGE_FLAG_SHATTERED :: u32 where "PAGE_FLAG_SHATTERED = 0x08"

definition NNUMA :: u64 where "NNUMA = 4"
definition sizeof_page :: u64 where "sizeof_page = 64"
definition LGPAGE_META_NR_LGPAGES :: u64 where "LGPAGE_META_NR_LGPAGES = 1"
definition LGPAGE_META_LEN :: u64 where "LGPAGE_META_LEN = LGPAGE_META_NR_LGPAGES * PGSIZE_2MB"
definition LGPAGE_META_ENTS :: u64 where "LGPAGE_META_ENTS = LGPAGE_META_LEN div sizeof_page"
definition LGPAGE_NODE_ADDR_LEN :: u64 where "LGPAGE_NODE_ADDR_LEN = LGPAGE_META_ENTS * PGSIZE_2MB"
definition PAGE_BASE_ADDR :: ptr where "PAGE_BASE_ADDR = 0x100000000000"
definition PAGE_END_ADDR :: ptr where "PAGE_END_ADDR = PAGE_BASE_ADDR + LGPAGE_META_ENTS * PGSIZE_2MB * NNUMA"

definition is_page_addr :: "ptr \<Rightarrow> bool" where
  "is_page_addr addr \<longleftrightarrow> PAGE_BASE_ADDR \<le> addr \<and> addr < PAGE_END_ADDR"

definition addr_to_numa_node :: "ptr \<Rightarrow> u32" where
  "addr_to_numa_node addr = ucast ((addr - PAGE_BASE_ADDR) div LGPAGE_NODE_ADDR_LEN)"

definition LGPGN :: "ptr \<Rightarrow> u64" where "LGPGN addr = PGN_2MB (addr - PAGE_BASE_ADDR)"
definition PGN :: "ptr \<Rightarrow> u64" where "PGN addr = PGN_4KB (addr - PGADDR_2MB addr)"

text \<open>The element with number \<open>i\<close> of an array of pages, and the difference of two pointers into one.\<close>

definition page_at :: "ptr \<Rightarrow> u64 \<Rightarrow> ptr" where "page_at p i = p + i * sizeof_page"
definition page_diff :: "ptr \<Rightarrow> ptr \<Rightarrow> u64" where "page_diff p q = of_int (sint (p - q) div sint sizeof_page)"

text \<open>\<open>page_tbl\<close> is the address of the table of large pages.\<close>

definition addr_to_lgpage :: "ptr \<Rightarrow> ptr \<Rightarrow> ptr" where
  "addr_to_lgpage page_tbl addr = page_at page_tbl (LGPGN addr)"

definition lgpage_to_addr :: "ptr \<Rightarrow> ptr \<Rightarrow> ptr" where
  "lgpage_to_addr page_tbl pg = PAGE_BASE_ADDR + page_diff pg page_tbl * PGSIZE_2MB"

definition addr_to_smpage :: "ptr \<Rightarrow> ptr" where
  "addr_to_smpage addr = (let frags = PGADDR_2MB addr in page_at frags (PGN addr))"

definition smpage_to_addr :: "ptr \<Rightarrow> ptr" where
  "smpage_to_addr pg = (let frags = PGADDR_2MB pg in PGADDR_2MB pg + page_diff pg frags * PGSIZE_4KB)"

definition addr_to_page :: "ptr \<Rightarrow> page_mem \<Rightarrow> ptr \<Rightarrow> ptr" where
  "addr_to_page page_tbl m addr =
     (let pg = addr_to_lgpage page_tbl addr in
      if pg_flags (m pg) AND PAGE_FLAG_SHATTERED \<noteq> 0 then addr_to_smpage addr else pg)"

definition page_to_addr :: "ptr \<Rightarrow> page_mem \<Rightarrow> ptr \<Rightarrow> ptr" where
  "page_to_addr page_tbl m pg =
     (if pg_flags (m pg) AND PAGE_FLAG_LARGE \<noteq> 0 then lgpage_to_addr page_tbl pg else smpage_to_addr pg)"

definition addr_to_pa :: "ptr \<Rightarrow> page_mem \<Rightarrow> ptr \<Rightarrow> u64" where
  "addr_to_pa page_tbl m addr = (let pg = addr_to_lgpage page_tbl addr in pg_paddr (m pg) + PGOFF_2MB addr)"

definition smpage_to_lgpage :: "ptr \<Rightarrow> ptr \<Rightarrow> ptr" where
  "smpage_to_lgpage page_tbl pg = addr_to_lgpage page_tbl pg"

definition page_to_size :: "page_mem \<Rightarrow> ptr \<Rightarrow> u64" where
  "page_to_size m pg = (if pg_flags (m pg) AND PAGE_FLAG_LARGE \<noteq> 0 then PGSIZE_2MB else PGSIZE_4KB)"

definition page_get :: "ptr \<Rightarrow> page_mem \<Rightarrow> page_mem" where
  "page_get pg m = m(pg := (m pg)\<lparr>pg_ref := kref_get (pg_ref (m pg))\<rparr>)"

text \<open>Whether \<open>page_release\<close> is called.\<close>

definition page_put :: "ptr \<Rightarrow> page_mem \<Rightarrow> bool \<times> page_mem" where
  "page_put pg m = (let (rel, r) = kref_put (pg_ref (m pg)) in (rel, m(pg := (m pg)\<lparr>pg_ref := r\<rparr>)))"

section \<open>Addresses\<close>

lemmas page_consts = PGSHIFT_4KB_def PGSHIFT_2MB_def PGSIZE_4KB_def PGSIZE_2MB_def sizeof_page_def

lemma pg_masks: "PGMASK_4KB = mask 12" "PGMASK_2MB = mask 21"
  by (simp_all add: PGMASK_4KB_def PGMASK_2MB_def page_consts mask_eq_exp_minus_1)

lemma pg_starts: "PGADDR_4KB a = a - take_bit 12 a" "PGADDR_2MB a = a - take_bit 21 a" "PGOFF_2MB a = take_bit 21 a"
  by (simp_all add: PGADDR_4KB_def PGADDR_2MB_def PGOFF_2MB_def pg_masks take_bit_eq_mask and_not_minus)

lemma drop_times: "drop_bit n (a :: u64) * 2 ^ n = a - take_bit n a"
  using bits_ident [of n a] by (simp add: push_bit_eq_mult algebra_simps)

lemma take_bit_sub: "take_bit n (a - take_bit n a) = (0 :: u64)"
proof -
  have "take_bit n (push_bit n (drop_bit n a)) = 0" by (rule bit_word_eqI) (auto simp: bit_simps)
  then show ?thesis by (simp add: push_bit_eq_mult drop_times)
qed

lemma take_bit_add_start:
  assumes "take_bit n f = 0" "n \<le> 64"
  shows "take_bit n (f + y) = take_bit n (y :: u64)"
proof (rule word_uint_eqI)
  have f: "take_bit n (uint f) = 0" using arg_cong [OF assms(1), of uint] by (simp add: unsigned_take_bit_eq)
  have "uint (take_bit n (f + y)) = take_bit n ((uint f + uint y) mod 2 ^ 64)"
    by (simp only: unsigned_take_bit_eq uint_word_ariths) simp
  also have "\<dots> = take_bit n (uint f + uint y)"
    unfolding take_bit_eq_mod by (rule mod_mod_cancel) (rule le_imp_power_dvd [OF assms(2)])
  also have "\<dots> = take_bit n (take_bit n (uint f) + take_bit n (uint y))" by (rule take_bit_add [symmetric])
  also have "\<dots> = uint (take_bit n y)" by (simp only: f unsigned_take_bit_eq) simp
  finally show "uint (take_bit n (f + y)) = uint (take_bit n y)" .
qed

lemma page_diff_at:
  assumes "unat i < 2 ^ 57"
  shows "page_diff (page_at p i) p = i"
proof -
  have "int (unat i) < int (2 ^ 57)" using assms by (simp only: of_nat_less_iff)
  then have i: "uint i < 2 ^ 57" by simp
  have "uint (i * 64) = uint i * 64 mod 2 ^ 64" by (simp add: uint_word_ariths(3))
  also have "\<dots> = uint i * 64" by (rule mod_pos_pos_trivial) (use i in simp_all)
  finally have u: "uint (i * 64) = uint i * 64" .
  have "sint (i * 64) = signed_take_bit 63 (uint i * 64)" by (simp only: sint_uint u) simp
  also have "\<dots> = uint i * 64"
  proof (rule signed_take_bit_int_eq_self)
    have "(0 :: int) \<le> uint i * 64" by simp
    moreover have "- (2 ^ 63) \<le> (0 :: int)" by simp
    ultimately show "- (2 ^ 63) \<le> uint i * 64" by (rule order_trans [rotated])
  qed (use i in simp)
  finally have "sint (i * 64) = uint i * 64" .
  then show ?thesis by (simp add: page_diff_def page_at_def sizeof_page_def)
qed

text \<open>An address of page memory as its distance from the start.\<close>

lemma page_addrE:
  assumes "is_page_addr a"
  obtains x where "a = PAGE_BASE_ADDR + x" "unat x < 2 ^ 38"
proof
  have e: "PAGE_END_ADDR = PAGE_BASE_ADDR + 2 ^ 38"
    by (simp add: PAGE_END_ADDR_def LGPAGE_META_ENTS_def LGPAGE_META_LEN_def LGPAGE_META_NR_LGPAGES_def NNUMA_def page_consts)
  show "a = PAGE_BASE_ADDR + (a - PAGE_BASE_ADDR)" by simp
  have "unat (a - PAGE_BASE_ADDR) = unat a - unat PAGE_BASE_ADDR"
    using assms by (intro unat_sub) (simp add: is_page_addr_def)
  moreover have "unat a < unat (PAGE_BASE_ADDR + 2 ^ 38)" using assms e by (simp add: is_page_addr_def word_less_nat_alt)
  ultimately show "unat (a - PAGE_BASE_ADDR) < 2 ^ 38" by (simp add: PAGE_BASE_ADDR_def)
qed

lemma take_bit_base: "n \<le> 44 \<Longrightarrow> take_bit n PAGE_BASE_ADDR = 0"
proof -
  assume n: "n \<le> 44"
  have "take_bit n PAGE_BASE_ADDR = take_bit n (take_bit 44 PAGE_BASE_ADDR)" using n by (simp add: min_def)
  also have "take_bit 44 PAGE_BASE_ADDR = 0" by (simp add: PAGE_BASE_ADDR_def)
  finally show ?thesis by simp
qed

lemma lgpage_roundtrip:
  assumes "is_page_addr a"
  shows "lgpage_to_addr tbl (addr_to_lgpage tbl a) = PGADDR_2MB a" "unat (LGPGN a) < unat (LGPAGE_META_ENTS * NNUMA)"
proof -
  obtain x where x: "a = PAGE_BASE_ADDR + x" "unat x < 2 ^ 38" using assms by (rule page_addrE)
  have n: "LGPGN a = drop_bit 21 x" by (simp only: LGPGN_def PGN_2MB_def PGSHIFT_2MB_def x(1)) simp
  have "unat (drop_bit 21 x) < 2 ^ 17" using x(2) by (simp only: unat_drop_bit) (simp add: less_mult_imp_div_less)
  then show "unat (LGPGN a) < unat (LGPAGE_META_ENTS * NNUMA)" unfolding n
    by (simp add: LGPAGE_META_ENTS_def LGPAGE_META_LEN_def LGPAGE_META_NR_LGPAGES_def NNUMA_def page_consts)
  have d: "page_diff (addr_to_lgpage tbl a) tbl = drop_bit 21 x"
    unfolding addr_to_lgpage_def n by (rule page_diff_at) (use \<open>unat (drop_bit 21 x) < 2 ^ 17\<close> in simp)
  have p: "PGSIZE_2MB = 2 ^ 21" by (simp add: page_consts)
  have "lgpage_to_addr tbl (addr_to_lgpage tbl a) = PAGE_BASE_ADDR + (x - take_bit 21 x)"
    unfolding lgpage_to_addr_def d p drop_times by (rule refl)
  also have "take_bit 21 x = take_bit 21 a" unfolding x(1) by (rule take_bit_add_start [symmetric]) (simp_all add: take_bit_base)
  finally show "lgpage_to_addr tbl (addr_to_lgpage tbl a) = PGADDR_2MB a" by (simp add: pg_starts x(1))
qed

lemma smpage_parts:
  obtains k where "addr_to_smpage a = page_at (PGADDR_2MB a) k" "unat k < 2 ^ 9" "PGADDR_2MB (addr_to_smpage a) = PGADDR_2MB a"
    "k * PGSIZE_4KB = take_bit 21 a - take_bit 12 a"
proof
  define k where "k = drop_bit 12 (take_bit 21 a)"
  have f: "a - PGADDR_2MB a = take_bit 21 a" by (simp add: pg_starts)
  have n: "PGN a = k" by (simp only: PGN_def PGN_4KB_def PGSHIFT_4KB_def f k_def)
  show s: "addr_to_smpage a = page_at (PGADDR_2MB a) k" by (simp add: addr_to_smpage_def n)
  have "unat (take_bit 21 a) < 2 ^ 21" using take_bit_nat_less_exp [of 21 "unat a"] by (simp add: unsigned_take_bit_eq)
  then show k: "unat k < 2 ^ 9" unfolding k_def unat_drop_bit by (simp add: less_mult_imp_div_less)
  have "unat (k * 64) = unat k * 64" using k by (simp add: unat_word_ariths)
  then have "take_bit 21 (unat (k * 64)) = unat (k * 64)" using k by (intro take_bit_nat_eq_self) simp
  then have small: "take_bit 21 (k * 64) = k * 64" by (simp only: word_unat_eq_iff unsigned_take_bit_eq)
  have "take_bit 21 (PGADDR_2MB a + k * 64) = take_bit 21 (k * 64)"
    by (rule take_bit_add_start) (simp_all add: pg_starts take_bit_sub)
  then have "take_bit 21 (addr_to_smpage a) = k * 64" by (simp only: s page_at_def sizeof_page_def small)
  then show "PGADDR_2MB (addr_to_smpage a) = PGADDR_2MB a" by (simp add: s pg_starts page_at_def sizeof_page_def)
  have "k * PGSIZE_4KB = take_bit 21 a - take_bit 12 (take_bit 21 a)"
    using drop_times [of 12 "take_bit 21 a"] by (simp add: k_def page_consts)
  then show "k * PGSIZE_4KB = take_bit 21 a - take_bit 12 a" by simp
qed

lemma smpage_roundtrip: "smpage_to_addr (addr_to_smpage a) = PGADDR_4KB a"
proof -
  obtain k where k: "addr_to_smpage a = page_at (PGADDR_2MB a) k" "unat k < 2 ^ 9" "PGADDR_2MB (addr_to_smpage a) = PGADDR_2MB a"
      "k * PGSIZE_4KB = take_bit 21 a - take_bit 12 a" by (rule smpage_parts)
  have "page_diff (addr_to_smpage a) (PGADDR_2MB a) = k" unfolding k(1) by (rule page_diff_at) (use k(2) in simp)
  then show ?thesis by (simp add: smpage_to_addr_def k(3,4) Let_def) (simp add: pg_starts)
qed

lemma drop_bit_start: "drop_bit n (y - take_bit n y) = drop_bit n (y :: u64)"
proof -
  have "drop_bit n (push_bit n (drop_bit n y)) = drop_bit n y"
    by (rule bit_word_eqI) (auto simp: bit_simps dest: bit_imp_le_length)
  then show ?thesis by (simp only: push_bit_eq_mult drop_times)
qed

lemma smpage_same_lgpage: "smpage_to_lgpage tbl (addr_to_smpage a) = addr_to_lgpage tbl a"
proof -
  have "LGPGN b = drop_bit 21 (PGADDR_2MB b - PAGE_BASE_ADDR)" for b
  proof -
    have "take_bit 21 (PAGE_BASE_ADDR + (b - PAGE_BASE_ADDR)) = take_bit 21 (b - PAGE_BASE_ADDR)"
      by (rule take_bit_add_start) (simp_all add: take_bit_base)
    then have "PGADDR_2MB b - PAGE_BASE_ADDR = (b - PAGE_BASE_ADDR) - take_bit 21 (b - PAGE_BASE_ADDR)"
      by (simp add: pg_starts)
    then show ?thesis by (simp only: LGPGN_def PGN_2MB_def PGSHIFT_2MB_def drop_bit_start)
  qed
  moreover have "PGADDR_2MB (addr_to_smpage a) = PGADDR_2MB a" by (rule smpage_parts)
  ultimately have "LGPGN (addr_to_smpage a) = LGPGN a" by simp
  then show ?thesis by (simp add: smpage_to_lgpage_def addr_to_lgpage_def)
qed

lemma numa_node_less:
  assumes "is_page_addr a"
  shows "unat (addr_to_numa_node a) < unat NNUMA"
proof -
  obtain x where x: "a = PAGE_BASE_ADDR + x" "unat x < 2 ^ 38" using assms by (rule page_addrE)
  have len: "LGPAGE_NODE_ADDR_LEN = 2 ^ 36"
    by (simp add: LGPAGE_NODE_ADDR_LEN_def LGPAGE_META_ENTS_def LGPAGE_META_LEN_def LGPAGE_META_NR_LGPAGES_def page_consts)
  have "unat (x div LGPAGE_NODE_ADDR_LEN) = unat x div 2 ^ 36" unfolding len by (simp add: unat_div)
  moreover have "unat x div 2 ^ 36 < 4" using x(2) by (simp add: less_mult_imp_div_less)
  ultimately have "unat (x div LGPAGE_NODE_ADDR_LEN) < 4" by simp
  then have "take_bit 32 (unat (x div LGPAGE_NODE_ADDR_LEN)) < 4" using take_bit_nat_less_eq_self le_less_trans by blast
  moreover have "unat (addr_to_numa_node a) = take_bit 32 (unat (x div LGPAGE_NODE_ADDR_LEN))"
    by (simp only: addr_to_numa_node_def x(1) add_diff_cancel_left' unsigned_ucast_eq) simp
  ultimately show ?thesis by (simp add: NNUMA_def)
qed

section \<open>References to pages\<close>

interpretation pr: counted "\<lambda>m. k_cnt (pg_ref (m pg))" "page_get pg" "page_put pg" for pg
  by unfold_locales (simp_all add: page_get_def page_put_def case_prod_beta kr.cnt_get kr.cnt_put kr.put_release)

section \<open>Properties\<close>

text \<open>
  C35: An address leads to its page structure and back to the start of its page: for an address of page
  memory, whether its 2 MB page is whole or shattered, the structure found for the address gives the address
  rounded down to the size of the page.  The structure lies within the page table, or at the start of the same
  2 MB page, and the node number is one of the machine's.
\<close>

theorem page_addr_roundtrip:
  assumes "is_page_addr a" "pg_flags (m (addr_to_lgpage tbl a)) AND PAGE_FLAG_LARGE \<noteq> 0"
    and "pg_flags (m (addr_to_lgpage tbl a)) AND PAGE_FLAG_SHATTERED \<noteq> 0 \<longrightarrow>
      pg_flags (m (addr_to_smpage a)) AND PAGE_FLAG_LARGE = 0"
  shows "page_to_addr tbl m (addr_to_page tbl m a) = a AND NOT (page_to_size m (addr_to_page tbl m a) - 1) \<and>
     unat (LGPGN a) < unat (LGPAGE_META_ENTS * NNUMA) \<and> smpage_to_lgpage tbl (addr_to_smpage a) = addr_to_lgpage tbl a \<and>
     unat (addr_to_numa_node a) < unat NNUMA"
  using assms lgpage_roundtrip [OF assms(1)] smpage_roundtrip [of a] smpage_same_lgpage [of tbl a] numa_node_less [OF assms(1)]
  by (auto simp: page_to_addr_def addr_to_page_def page_to_size_def PGADDR_2MB_def PGADDR_4KB_def PGMASK_2MB_def PGMASK_4KB_def Let_def)

text \<open>A shattered page: the address \<open>0x12345\<close> bytes from the start lies in its small page number \<open>0x12\<close>.\<close>

definition ex_pages :: page_mem where
  "ex_pages = (\<lambda>p. \<lparr>pg_flags = (if p = 4096 then 0x0B else 2), pg_ref = \<lparr>k_cnt = 1\<rparr>, pg_next = 0, pg_link = (0, 0), pg_snode = 0,
     pg_offset = 0, pg_paddr = 0, pg_item_count = 0\<rparr>)"

theorem page_addr_roundtrip_witness:
  "page_to_addr 4096 ex_pages (addr_to_page 4096 ex_pages 0x100000012345) = 0x100000012000"
proof -
  let ?a = "0x100000012345 :: ptr"
  have a: "is_page_addr ?a"
    by (simp add: is_page_addr_def PAGE_END_ADDR_def PAGE_BASE_ADDR_def LGPAGE_META_ENTS_def LGPAGE_META_LEN_def
        LGPAGE_META_NR_LGPAGES_def NNUMA_def page_consts)
  have l: "addr_to_lgpage 4096 ?a = 4096"
    by (simp add: addr_to_lgpage_def LGPGN_def PGN_2MB_def page_at_def PAGE_BASE_ADDR_def page_consts)
  have s: "addr_to_smpage ?a = 0x100000000480"
    by (simp add: addr_to_smpage_def PGN_def PGN_4KB_def PGADDR_2MB_def pg_masks page_at_def page_consts mask_eq_exp_minus_1)
  have p: "addr_to_page 4096 ex_pages ?a = 0x100000000480" by (simp add: addr_to_page_def l s ex_pages_def PAGE_FLAG_SHATTERED_def)
  have "pg_flags (ex_pages (addr_to_lgpage 4096 ?a)) AND PAGE_FLAG_LARGE \<noteq> 0" by (simp add: l ex_pages_def PAGE_FLAG_LARGE_def)
  moreover have "pg_flags (ex_pages (addr_to_smpage ?a)) AND PAGE_FLAG_LARGE = 0" by (simp add: s ex_pages_def PAGE_FLAG_LARGE_def)
  ultimately have "page_to_addr 4096 ex_pages (addr_to_page 4096 ex_pages ?a) = ?a AND NOT (page_to_size ex_pages (addr_to_page 4096 ex_pages ?a) - 1)"
    using page_addr_roundtrip [OF a, of ex_pages 4096] by blast
  moreover have "page_to_size ex_pages 0x100000000480 = 4096" by (simp add: page_to_size_def ex_pages_def PAGE_FLAG_LARGE_def page_consts)
  ultimately show ?thesis by (simp add: p)
qed

text \<open>A page is released by the last \<open>page_put\<close> only.\<close>

theorem page_released_once:
  assumes "holders n h ops = Some h'" "ops \<noteq> []" "total_refs n h + length ops < 2 ^ 32"
    and "k_cnt (pg_ref (m pg)) = of_nat (total_refs n h)" "ref_run (page_get pg) (page_put pg) m ops = (rs, m')"
  shows "rs = replicate (length ops - 1) False @ [total_refs n h' = 0]"
  using pr.release_last [OF assms(1) assms(4,3,5,2)] by simp

end
