(* ===== verification/Base_Hash.thy ===== *)
theory Base_Hash
  imports Psp_Prelude
begin

text \<open>
  The hash functions of \<^verbatim>\<open>include/base/hash.h\<close>.  The instruction \<open>crc32q\<close> and the cycle counter are
  parameters; the rest of the code is arithmetic on 64-bit words.
\<close>

section \<open>The functions\<close>

definition hash_crc32c_one :: "(u64 \<Rightarrow> u64 \<Rightarrow> u64) \<Rightarrow> u32 \<Rightarrow> u64 \<Rightarrow> u32" where
  "hash_crc32c_one crc seed val = ucast (crc (ucast seed) val)"

definition hash_crc32c_two :: "(u64 \<Rightarrow> u64 \<Rightarrow> u64) \<Rightarrow> u32 \<Rightarrow> u64 \<Rightarrow> u64 \<Rightarrow> u32" where
  "hash_crc32c_two crc seed a b = (let seed = ucast (crc (ucast seed) a) :: u32 in ucast (crc (ucast seed) b))"

definition HASH_CITY_K2 :: u64 where "HASH_CITY_K2 = 0x9ae16a3b2f90404f"

definition hash_city_len16 :: "u64 \<Rightarrow> u64 \<Rightarrow> u64 \<Rightarrow> u64" where
  "hash_city_len16 u v mul =
     (let a = (u XOR v) * mul;
          a = a XOR drop_bit 47 a;
          b = (v XOR a) * mul;
          b = b XOR drop_bit 47 b in
      b * mul)"

definition hash_city_rotate :: "u64 \<Rightarrow> nat \<Rightarrow> u64" where
  "hash_city_rotate val shift = drop_bit shift val OR push_bit (64 - shift) val"

definition hash_city_one :: "u64 \<Rightarrow> u64" where
  "hash_city_one val =
     (let mul = HASH_CITY_K2 + 16;
          a = val + HASH_CITY_K2;
          b = val;
          c = hash_city_rotate b 37 * mul + a;
          d = (hash_city_rotate a 25 + b) * mul in
      hash_city_len16 c d mul)"

definition hash_city_two :: "u64 \<Rightarrow> u64 \<Rightarrow> u64" where
  "hash_city_two val_a val_b =
     (let mul = HASH_CITY_K2 + 32;
          a = val_a + HASH_CITY_K2;
          b = val_b;
          c = hash_city_rotate b 37 * mul + a;
          d = (hash_city_rotate a 25 + b) * mul in
      hash_city_len16 c d mul)"

text \<open>\<open>tsc\<close> is what \<open>rdtsc\<close> returns; the 32-bit hash is returned as a 64-bit value.\<close>

definition rand_crc32c :: "(u64 \<Rightarrow> u64 \<Rightarrow> u64) \<Rightarrow> u64 \<Rightarrow> u32 \<Rightarrow> u64" where
  "rand_crc32c crc tsc seed = ucast (hash_crc32c_one crc seed tsc)"

definition rand_city :: "u64 \<Rightarrow> u64" where "rand_city tsc = hash_city_one tsc"

section \<open>Steps that lose nothing\<close>

lemma rotate_is_rotr:
  assumes "0 < s" "s < 64"
  shows "hash_city_rotate x s = word_rotr s x"
proof (rule bit_word_eqI)
  fix n assume n: "n < LENGTH(64)"
  show "bit (hash_city_rotate x s) n = bit (word_rotr s x) n"
  proof (cases "n + s < 64")
    case True
    then show ?thesis using n assms by (auto simp: hash_city_rotate_def bit_simps bit_word_rotr_iff add.commute)
  next
    case False
    then have "\<not> bit x (s + n)" using bit_imp_le_length [of x "s + n"] by auto
    moreover have "(n + s) mod 64 = n + s - 64" using False n assms by (simp add: mod_if)
    moreover have "n - (64 - s) = n + s - 64" "64 - s \<le> n" using False assms by simp_all
    ultimately show ?thesis using n assms False by (simp add: hash_city_rotate_def bit_simps bit_word_rotr_iff)
  qed
qed

lemma odd_mult_inj:
  fixes m x y :: u64
  assumes "odd m" "m * x = m * y"
  shows "x = y"
proof -
  have "of_int (uint m * uint (x - y)) = (0 :: u64)" using assms(2) by (simp add: right_diff_distrib)
  then have "2 ^ 64 dvd uint m * uint (x - y)" by (simp only: word_of_int_eq_0_iff) simp
  moreover have "odd (uint m)" using assms(1) by (simp add: bit_unsigned_iff flip: bit_0)
  then have "coprime (2 ^ 64) (uint m)" by (simp only: coprime_power_left_iff coprime_left_2_iff_odd) simp
  ultimately have "2 ^ 64 dvd uint (x - y)" by (simp only: coprime_dvd_mult_right_iff)
  then have "uint (x - y) mod 2 ^ 64 = 0" by (rule dvd_imp_mod_0)
  moreover have "uint (x - y) mod 2 ^ 64 = uint (x - y)"
    by (rule mod_pos_pos_trivial) (simp, use unsigned_less [of "x - y"] in simp)
  ultimately have "x - y = 0" by (simp only: uint_0_iff)
  then show ?thesis by (simp only: right_minus_eq)
qed

lemma xorshift_inverse:
  "(x XOR drop_bit 47 x) XOR drop_bit 47 (x XOR drop_bit 47 x) = (x :: u64)"
proof (rule bit_word_eqI)
  fix n assume "n < LENGTH(64)"
  moreover have "\<not> bit x (47 + (47 + n))" using bit_imp_le_length [of x "47 + (47 + n)"] by auto
  ultimately show "bit ((x XOR drop_bit 47 x) XOR drop_bit 47 (x XOR drop_bit 47 x)) n = bit x n"
    by (auto simp: bit_simps)
qed

lemma xorshift_inj: "x XOR drop_bit 47 x = y XOR drop_bit 47 y \<Longrightarrow> x = (y :: u64)"
  by (metis xorshift_inverse)

lemma xor_cancel: "v XOR a = v XOR b \<Longrightarrow> a = (b :: u64)"
  by (auto simp: bit_eq_iff bit_xor_iff)

section \<open>Properties\<close>

text \<open>
  The last round of the hash mixes without loss: for every second argument and every odd factor, in
  particular the two factors the code uses, different first arguments give different hashes.
\<close>

theorem hash_city_len16_inj:
  assumes "odd mul" "hash_city_len16 u v mul = hash_city_len16 u' v mul"
  shows "u = u'"
proof -
  define f where "f = (\<lambda>x. x * mul XOR drop_bit 47 (x * mul))"
  have m: "x = y" if "x * mul = y * mul" for x y using odd_mult_inj [OF assms(1), of x y] that by (simp add: mult.commute)
  have f: "x = y" if "f x = f y" for x y
    by (rule m, rule xorshift_inj) (use that in \<open>simp only: f_def\<close>)
  have "f (v XOR f (u XOR v)) * mul = f (v XOR f (u' XOR v)) * mul"
    using assms(2) by (simp only: hash_city_len16_def f_def Let_def)
  from f [OF xor_cancel [OF f [OF m [OF this]]]] have "u XOR v = u' XOR v" .
  then have "v XOR u = v XOR u'" by (simp only: xor.commute)
  then show ?thesis by (rule xor_cancel)
qed

theorem hash_city_len16_inj_witness:
  "hash_city_len16 1 5 (HASH_CITY_K2 + 16) \<noteq> hash_city_len16 2 5 (HASH_CITY_K2 + 16)"
  using hash_city_len16_inj [of "HASH_CITY_K2 + 16" 1 5 2] by (auto simp: HASH_CITY_K2_def)

end
