(* ===== verification/Base_Thread.thy ===== *)
theory Base_Thread
  imports Psp_Prelude
begin

text \<open>
  Threads in \<^verbatim>\<open>include/base\<close>: the loop over the active threads (\<^verbatim>\<open>thread.h\<close>) and the fast path of the caches of
  items each thread has (\<^verbatim>\<open>tcache.h\<close>).  Refilling and draining a cache is not defined in the repository: both
  functions are parameters.
\<close>

section \<open>Active threads\<close>

definition NTHREAD :: nat where "NTHREAD = 512"

text \<open>\<open>offs\<close> is \<open>perthread_offsets\<close>, whose entry is null for a thread that is not active.\<close>

function thread_next_active :: "ptr list \<Rightarrow> nat \<Rightarrow> int \<Rightarrow> int result" where
  "thread_next_active offs thread_count thread =
     (if thread < int thread_count then
        let thread = thread + 1 in
        if nat thread < length offs \<and> 0 \<le> thread then
          if offs ! nat thread \<noteq> NULL then Inr thread else thread_next_active offs thread_count thread
        else Inl OutOfBounds
      else Inr thread)"
  by auto
termination
  by (relation "measure (\<lambda>(offs, thread_count, thread). nat (int thread_count - thread))") auto

declare thread_next_active.simps [simp del]

lemma next_active_step:
  "t < int n \<Longrightarrow> thread_next_active offs n t =
     (if nat (t + 1) < length offs \<and> 0 \<le> t + 1 then
        if offs ! nat (t + 1) \<noteq> NULL then Inr (t + 1) else thread_next_active offs n (t + 1)
      else Inl OutOfBounds)"
  by (subst thread_next_active.simps) (simp add: Let_def)

lemma next_active_stop: "\<not> t < int n \<Longrightarrow> thread_next_active offs n t = Inr t"
  by (subst thread_next_active.simps) simp

lemma next_active_greater:
  "thread_next_active offs n t = Inr t' \<Longrightarrow> t < int n \<Longrightarrow> t < t'"
proof (induction "nat (int n - t)" arbitrary: t rule: less_induct)
  case less
  then have step: "t' = t + 1 \<or> thread_next_active offs n (t + 1) = Inr t'"
    by (auto simp: next_active_step [of t] split: if_splits)
  show ?case
  proof (cases "t + 1 < int n")
    case True
    then show ?thesis using step less.hyps [of "t + 1"] less.prems(2) by auto
  next
    case False
    then show ?thesis using step by (auto simp: next_active_stop)
  qed
qed

text \<open>The threads the body of \<open>for_each_thread\<close> runs for, from the thread after \<open>thread\<close> on.\<close>

function for_each_thread :: "ptr list \<Rightarrow> nat \<Rightarrow> int \<Rightarrow> int list result" where
  "for_each_thread offs thread_count thread =
     (case thread_next_active offs thread_count thread of
        Inl e \<Rightarrow> Inl e
      | Inr t \<Rightarrow> if t < int thread_count then
          (case for_each_thread offs thread_count t of Inl e \<Rightarrow> Inl e | Inr ts \<Rightarrow> Inr (t # ts)) else Inr [])"
  by auto
termination
proof (relation "measure (\<lambda>(offs, thread_count, thread). nat (int thread_count - thread))")
  fix offs n and thread t :: int
  assume a: "thread_next_active offs n thread = Inr t" "t < int n"
  then have "thread < int n" using next_active_stop [of thread n offs] by force
  then show "((offs, n, t), offs, n, thread) \<in> measure (\<lambda>(offs, thread_count, thread). nat (int thread_count - thread))"
    using next_active_greater [OF a(1)] a(2) by simp
qed simp

declare for_each_thread.simps [simp del]

lemma for_each_active:
  assumes "0 \<le> t" "nat t < n" "nat t < length offs" "offs ! nat t \<noteq> NULL"
  shows "for_each_thread offs n (t - 1) = (case for_each_thread offs n t of Inl e \<Rightarrow> Inl e | Inr ts \<Rightarrow> Inr (t # ts))"
proof -
  have "thread_next_active offs n (t - 1) = Inr t" using assms next_active_step [of "t - 1" n offs] by simp
  moreover have "t < int n" using assms(1,2) by simp
  ultimately show ?thesis by (subst for_each_thread.simps) simp
qed

lemma for_each_inactive:
  assumes "0 \<le> t" "nat t < n" "nat t < length offs" "offs ! nat t = NULL"
  shows "for_each_thread offs n (t - 1) = for_each_thread offs n t"
proof -
  have "thread_next_active offs n (t - 1) = thread_next_active offs n t" using assms next_active_step [of "t - 1" n offs] by simp
  then show ?thesis unfolding for_each_thread.simps [of offs n "t - 1"] for_each_thread.simps [of offs n t] by simp
qed

lemma for_each_from:
  assumes "n < length offs" "k \<le> n"
  shows "for_each_thread offs n (int k - 1) = Inr (map int (filter (\<lambda>i. offs ! i \<noteq> NULL) [k..<n]))"
  using assms
proof (induction "n - k" arbitrary: k)
  case (Suc d)
  then have k: "k < n" by simp
  have IH: "for_each_thread offs n (int k) = Inr (map int (filter (\<lambda>i. offs ! i \<noteq> NULL) [Suc k..<n]))"
    using Suc.hyps(1) [of "Suc k"] Suc.hyps(2) Suc.prems k by simp
  show ?case
  proof (cases "offs ! k = NULL")
    case True
    then show ?thesis using for_each_inactive [of "int k" n offs] IH k Suc.prems(1) by (simp add: upt_conv_Cons)
  next
    case False
    then show ?thesis using for_each_active [of "int k" n offs] IH k Suc.prems(1) by (simp add: upt_conv_Cons)
  qed
next
  case 0
  then have "thread_next_active offs n (int k - 1) = Inr (int n)"
    using next_active_step [of "int k - 1" n offs] next_active_stop [of "int n" n offs] by simp
  then show ?case using 0 by (subst for_each_thread.simps) simp
qed

lemma for_each_full:
  assumes "length offs = n" "k \<le> n"
  shows "for_each_thread offs n (int k - 1) = Inl OutOfBounds"
  using assms
proof (induction "n - k" arbitrary: k)
  case (Suc d)
  then have k: "k < n" by simp
  have IH: "for_each_thread offs n (int k) = Inl OutOfBounds" using Suc.hyps(1) [of "Suc k"] Suc.hyps(2) Suc.prems k by simp
  show ?case
  proof (cases "offs ! k = NULL")
    case True
    then show ?thesis using for_each_inactive [of "int k" n offs] IH k Suc.prems(1) by simp
  next
    case False
    then show ?thesis using for_each_active [of "int k" n offs] IH k Suc.prems(1) by simp
  qed
next
  case 0
  then have "thread_next_active offs n (int k - 1) = Inl OutOfBounds" using next_active_step [of "int k - 1" n offs] by simp
  then show ?case by (subst for_each_thread.simps) simp
qed

section \<open>Caches of items\<close>

record tcache_perthread =
  tc_cache :: ptr
  rounds :: u32
  tc_capacity :: u32
  tc_loaded :: ptr
  tc_previous :: ptr

text \<open>\<open>next_item\<close> of the item at each address.\<close>

type_synonym item_mem = "ptr \<Rightarrow> ptr"
type_synonym tcache_state = "tcache_perthread \<times> item_mem"

definition tcache_alloc :: "(tcache_state \<Rightarrow> (ptr \<times> tcache_state) result) \<Rightarrow> tcache_state \<Rightarrow> (ptr \<times> tcache_state) result" where
  "tcache_alloc refill st =
     (case st of (ltc, m) \<Rightarrow>
        let item = tc_loaded ltc in
        if rounds ltc = 0 then refill st
        else if tc_loaded ltc = NULL then Inl NullDeref
        else Inr (item, ltc\<lparr>rounds := rounds ltc - 1, tc_loaded := m (tc_loaded ltc)\<rparr>, m))"

definition tcache_free :: "(tcache_state \<Rightarrow> ptr \<Rightarrow> tcache_state result) \<Rightarrow> tcache_state \<Rightarrow> ptr \<Rightarrow> tcache_state result" where
  "tcache_free drain st item =
     (case st of (ltc, m) \<Rightarrow>
        if tc_capacity ltc \<le> rounds ltc then drain st item
        else if item = NULL then Inl NullDeref
        else Inr (ltc\<lparr>rounds := rounds ltc + 1, tc_loaded := item\<rparr>, m(item := tc_loaded ltc)))"

text \<open>The cache holds the items of \<open>xs\<close>: as many as \<open>rounds\<close> says, linked from \<open>loaded\<close> on.\<close>

fun chained :: "item_mem \<Rightarrow> ptr \<Rightarrow> ptr list \<Rightarrow> bool" where
  "chained m p [] \<longleftrightarrow> True"
| "chained m p (x # xs) \<longleftrightarrow> p = x \<and> x \<noteq> NULL \<and> chained m (m x) xs"

definition holds :: "tcache_state \<Rightarrow> ptr list \<Rightarrow> bool" where
  "holds st xs \<longleftrightarrow> (case st of (ltc, m) \<Rightarrow>
     unat (rounds ltc) = length xs \<and> rounds ltc \<le> tc_capacity ltc \<and> chained m (tc_loaded ltc) xs \<and> distinct xs)"

lemma chained_upd: "x \<notin> set xs \<Longrightarrow> chained (m(x := y)) p xs = chained m p xs"
  by (induction xs arbitrary: p) auto

section \<open>Properties\<close>

text \<open>
  \<open>for_each_thread\<close> runs its body for exactly the active threads, in the order of their numbers, as long
  as the table of threads is not full; with a full table it reads behind the end of the table.
\<close>

theorem for_each_thread_active:
  assumes "length offs = NTHREAD" "n \<le> NTHREAD"
  shows "for_each_thread offs n (-1) =
     (if n < NTHREAD then Inr (map int (filter (\<lambda>i. offs ! i \<noteq> NULL) [0..<n])) else Inl OutOfBounds)"
  using for_each_from [of n offs 0] for_each_full [of offs n 0] assms by simp

theorem for_each_thread_active_witness:
  "for_each_thread ([0x1000, 0, 0x3000] @ replicate 509 0) 3 (-1) = Inr [0, 2]"
proof -
  have l: "length ([0x1000, 0, 0x3000] @ replicate 509 (0 :: ptr)) = NTHREAD" by (simp add: NTHREAD_def)
  show ?thesis using for_each_thread_active [OF l, of 3] by (simp add: NTHREAD_def upt_rec)
qed

text \<open>
  A thread's cache is a stack of at most \<open>capacity\<close> items: freeing an item into a cache with room puts it
  on top, allocating takes the top item, neither calls the shared cache, and an item just freed is the next one
  allocated.
\<close>

theorem tcache_stack:
  assumes "holds (ltc, m) xs"
  shows "(case xs of
       x # ys \<Rightarrow> (\<exists>st'. tcache_alloc refill (ltc, m) = Inr (x, st') \<and> holds st' ys)
     | [] \<Rightarrow> tcache_alloc refill (ltc, m) = refill (ltc, m)) \<and>
     (rounds ltc < tc_capacity ltc \<and> item \<noteq> NULL \<and> item \<notin> set xs \<longrightarrow>
       (\<exists>st'. tcache_free drain (ltc, m) item = Inr st' \<and> holds st' (item # xs)))"
proof (intro conjI impI)
  show "case xs of
       x # ys \<Rightarrow> (\<exists>st'. tcache_alloc refill (ltc, m) = Inr (x, st') \<and> holds st' ys)
     | [] \<Rightarrow> tcache_alloc refill (ltc, m) = refill (ltc, m)"
  proof (cases xs)
    case Nil
    then show ?thesis using assms by (auto simp: holds_def tcache_alloc_def unsigned_eq_0_iff)
  next
    case (Cons x ys)
    then have r: "unat (rounds ltc) = Suc (length ys)" using assms by (simp add: holds_def)
    then have nz: "rounds ltc \<noteq> 0" by (cases "rounds ltc = 0") auto
    then have "unat (rounds ltc - 1) = length ys" using r by (simp add: unat_minus_one)
    moreover have "rounds ltc - 1 \<le> tc_capacity ltc"
      using assms calculation r by (simp add: holds_def word_le_nat_alt)
    ultimately show ?thesis using assms Cons nz by (auto simp: holds_def tcache_alloc_def)
  qed
next
  assume a: "rounds ltc < tc_capacity ltc \<and> item \<noteq> NULL \<and> item \<notin> set xs"
  then have "unat (rounds ltc + 1) = Suc (length xs)"
    using assms unat_plus_one_less [of "rounds ltc"] by (auto simp: holds_def)
  moreover have "rounds ltc + 1 \<le> tc_capacity ltc" using a by (simp add: inc_le)
  ultimately show "\<exists>st'. tcache_free drain (ltc, m) item = Inr st' \<and> holds st' (item # xs)"
    using a assms by (auto simp: holds_def tcache_free_def chained_upd)
qed

end
