(* ===== verification/Psp_App.thy ===== *)
theory Psp_App
  imports Psp_Wiring Net_Worker
begin

text \<open>
  The server program (\<^verbatim>\<open>src/c++/apps/app/psp_app.cc\<close>, \<^verbatim>\<open>src/c++/apps/app/psp_app.hh\<close>): construction of the
  system and of the database, start of all workers, generation of the benchmark's packets, and the end.  The
  parsed options, RocksDB and the thread library are parameters.
\<close>

section \<open>Construction\<close>

text \<open>The table \<open>workers\<close>: network workers are constructed first.\<close>

definition psp_workers :: "psp \<Rightarrow> Worker list" where
  "psp_workers P = map nt_base (ps_nets P) @ ps_apps P"

text \<open>
  The database is opened when there are RocksDB workers: \<open>opened\<close> is its handle, or \<open>None\<close> when RocksDB
  reports an error.  \<open>dbs\<close> is the member \<open>db\<close> of each worker, by worker number.
\<close>

definition assign_db :: "ptr option \<Rightarrow> Worker list \<Rightarrow> (int \<Rightarrow> ptr) \<Rightarrow> (int \<Rightarrow> ptr) result" where
  "assign_db opened ws dbs =
     (let (ntds, rdb_workers) = get_workers ws WT_RDB in
      if 0 < ntds then
        (case opened of
           None \<Rightarrow> Inl (Exit 1)
         | Some db \<Rightarrow> Inr (fold (\<lambda>w dbs. dbs(w_id w := db)) rdb_workers dbs))
      else Inr dbs)"

definition PspApp_new :: "psp_env \<Rightarrow> config \<Rightarrow> lrpc_store \<Rightarrow> (int \<times> task_pools) result \<Rightarrow> ptr option \<Rightarrow> (int \<Rightarrow> ptr) \<Rightarrow>
    (psp \<times> task_pools \<times> (int \<Rightarrow> ptr)) result" where
  "PspApp_new E cfg st tq opened dbs =
     res_bind (Psp_new E cfg st tq) (\<lambda>(P, pools).
     res_bind (assign_db opened (psp_workers P) dbs) (\<lambda>dbs. Inr (P, pools, dbs)))"

section \<open>Running\<close>

text \<open>
  When a worker does not start, all workers of the table are told to stop.  \<open>th i\<close> is what the thread library
  returns and what is observed of the flags of worker \<open>i\<close>.
\<close>

fun server_launch :: "(nat \<Rightarrow> int \<times> int \<times> (bool \<times> bool) list) \<Rightarrow> Worker list \<Rightarrow> Worker list \<Rightarrow> Worker list result" where
  "server_launch th started [] = Inr started"
| "server_launch th started (w # ws) =
     (let (wait, remote, obs) = th (length started) in
      res_bind (launch w wait remote obs) (\<lambda>(r, w).
        if r \<noteq> 0 then Inr (stop_all (started @ w # ws)) else server_launch th (started @ [w]) ws))"

text \<open>The workers are joined and deleted in the order of the table.\<close>

definition server_join :: "(nat \<Rightarrow> int) \<Rightarrow> Worker list \<Rightarrow> Worker list" where
  "server_join wait ws = map (\<lambda>i. Worker_delete (snd (join_worker (ws ! i) (wait i)))) [0..<length ws]"

text \<open>
  \<open>main\<close> after the construction: \<open>nw\<close> is the state of the network worker when the packets are generated,
  \<open>alloc i\<close> and \<open>rnd i\<close> are what the allocation and the random number of packet \<open>i\<close> give.
\<close>

definition server_main :: "(nat \<Rightarrow> int \<times> int \<times> (bool \<times> bool) list) \<Rightarrow> (nat \<Rightarrow> ptr) \<Rightarrow> (nat \<Rightarrow> nat) \<Rightarrow> (nat \<Rightarrow> int) \<Rightarrow>
    Worker list \<Rightarrow> networker \<Rightarrow> (int \<times> Worker list \<times> networker) result" where
  "server_main th alloc rnd wait ws nw =
     res_bind (server_launch th [] ws) (\<lambda>ws.
     res_bind (fake_packets nw (map (\<lambda>i. (alloc i, rnd i)) [0..<BENCHMARK_CREATE_NO_PACKET])) (\<lambda>nw.
       Inr (0, server_join wait ws, nw)))"

section \<open>Facts\<close>

lemma assigned_dbs: "fold (\<lambda>w dbs. dbs(w_id w := db)) rs dbs = (\<lambda>k. if k \<in> w_id ` set rs then db else dbs k)"
  by (induction rs arbitrary: dbs) (auto simp: fun_eq_iff)

text \<open>Every worker is told to stop, or every worker has been started.\<close>

lemma server_launch_cases:
  assumes "server_launch th started ws = Inr ws'"
  shows "length ws' = length started + length ws \<and>
     ((\<forall>w \<in> set ws'. w_terminate w) \<or>
      take (length started) ws' = started \<and>
      (\<forall>i < length ws. \<exists>wait remote obs. launch (ws ! i) wait remote obs = Inr (0, ws' ! (length started + i))))"
  using assms
proof (induction th started ws rule: server_launch.induct)
  case (2 th started w ws)
  obtain wait remote obs where th: "th (length started) = (wait, remote, obs)" by (metis prod_cases3)
  obtain r w1 where l: "launch w wait remote obs = Inr (r, w1)" using 2(2) by (auto simp: th res_bind_eq_Inr)
  show ?case
  proof (cases "r = 0")
    case False
    then have "ws' = stop_all (started @ w1 # ws)" using 2(2) by (simp add: th l)
    then show ?thesis by (auto simp: stop_all_def stop_def)
  next
    case True
    then have run: "server_launch th (started @ [w1]) ws = Inr ws'" using 2(2) by (simp add: th l)
    have IH: "length ws' = length (started @ [w1]) + length ws \<and>
       ((\<forall>w \<in> set ws'. w_terminate w) \<or> take (length (started @ [w1])) ws' = started @ [w1] \<and>
        (\<forall>i < length ws. \<exists>wait remote obs. launch (ws ! i) wait remote obs = Inr (0, ws' ! (length (started @ [w1]) + i))))"
      using 2(1) [OF th [symmetric]] True run by auto
    show ?thesis
    proof (cases "\<forall>w \<in> set ws'. w_terminate w")
      case True
      then show ?thesis using IH by simp
    next
      case False
      then have t: "take (Suc (length started)) ws' = started @ [w1]" and
        n: "\<forall>i < length ws. \<exists>wait remote obs. launch (ws ! i) wait remote obs = Inr (0, ws' ! Suc (length started + i))"
        using IH by auto
      have w1: "ws' ! length started = w1" using arg_cong [OF t, of "\<lambda>xs. xs ! length started"] by (simp add: nth_append)
      have t': "take (length started) ws' = started" using arg_cong [OF t, of "take (length started)"] by simp
      have "\<exists>wait remote obs. launch ((w # ws) ! i) wait remote obs = Inr (0, ws' ! (length started + i))" if "i < length (w # ws)" for i
        using that l True n w1 \<open>r = 0\<close> by (cases i) auto
      then show ?thesis using IH t' by simp
    qed
  qed
qed simp

text \<open>Every RocksDB worker gets the database that was opened; the program ends when it cannot be opened.\<close>

lemma PspApp_opens_db:
  assumes "PspApp_new E cfg st tq opened dbs = Inr (P, pools, dbs')" "w \<in> set (psp_workers P)" "w_type w = WT_RDB"
  shows "opened = Some (dbs' (w_id w))"
  using assms
  by (auto simp: PspApp_new_def assign_db_def get_workers_def Let_def res_bind_eq_Inr assigned_dbs filter_empty_conv split: if_splits option.splits)

text \<open>
  With room for them in the inbound ring all packets of the benchmark are pending, in order, when the
  workers are joined; the table keeps its workers.
\<close>

lemma server_main_packets:
  assumes "server_main th alloc rnd wait ws nw = Inr (r, ws', nw')" "\<forall>i < BENCHMARK_CREATE_NO_PACKET. alloc i \<noteq> NULL"
    and "length (inbound (nw_udp nw)) + BENCHMARK_CREATE_NO_PACKET \<le> 128"
  shows "r = 0 \<and> length ws' = length ws \<and> inbound (nw_udp nw') = inbound (nw_udp nw) @ map alloc [0..<BENCHMARK_CREATE_NO_PACKET]"
proof -
  let ?ps = "map (\<lambda>i. (alloc i, rnd i)) [0..<BENCHMARK_CREATE_NO_PACKET]"
  obtain ws1 where l: "server_launch th [] ws = Inr ws1" "ws' = server_join wait ws1" "r = 0" "fake_packets nw ?ps = Inr nw'"
    using assms(1) by (auto simp: server_main_def res_bind_eq_Inr)
  have "NULL \<notin> fst ` set ?ps" using assms(2) by force
  moreover have "length (inbound (nw_udp nw)) + length ?ps \<le> 128" using assms(3) by simp
  ultimately have "inbound (nw_udp nw') = inbound (nw_udp nw) @ map fst ?ps"
    using fake_packets_in_order [of ?ps 1 nw] l(4) by force
  moreover have "length ws' = length ws" using server_launch_cases [OF l(1)] l(2) by (simp add: server_join_def)
  ultimately show ?thesis using l(3) by (simp add: comp_def)
qed

end
