(* ===== verification/Spec2Isabelle.thy ===== *)
theory Spec2Isabelle
  imports Psp_Prelude Psp_Fail Fifo Mempool Taskqueue Base_Bits Lrpc Lrpc_Concurrent Request Dispatcher Udp_Context Scheduler Sched_System Net_Worker App_Worker Base_List Psp_Float Std_Map Dpdk_Port Psp_Config Psp_Wiring Client_Request Histogram Client_Log Client_Play Client_Loops Client_Main
    Checksum Base_Sync Base_Page Base_Hash Base_Thread Psp_App
begin

text \<open>
  Verification of Persephone (\<^verbatim>\<open>m8/psp\<close>), a user-level request scheduler in C++ with its load generator.

  \<^bold>\<open>The program.\<close>  The server receives UDP packets from DPDK in a network thread, gives each a context (a
  coroutine with a stack of its own) and queues it; the dispatcher, in the same thread, hands queued contexts
  to worker threads through one slot per worker and takes preempted contexts back; workers run a context until it
  finishes or yields.  An older path uses request rings per type and LRPC channels between the dispatcher and
  the workers.  The client generates requests along a schedule, matches the responses and writes reports.

  \<^bold>\<open>Common ground.\<close>
  \<^item> \<open>Psp_Prelude\<close>: machine words, results that may be faults (\<open>Panic\<close>, a null dereference, an access out of
    bounds, signed overflow, division by zero, \<open>exit\<close>, exhausted fuel), array accesses with their bounds, ring lemmas.
  \<^item> \<open>Psp_Fail\<close> (\<^verbatim>\<open>src/c++/common/fail.c\<close>, \<^verbatim>\<open>include/psp/fail.h\<close>, \<^verbatim>\<open>annot.h\<close>): failure handlers and the checking macros.
  \<^item> \<open>Fifo\<close>: the locale \<open>bounded_fifo\<close> of the queues' contract with the lemma that any script of operations
    behaves as a bounded list; interpreted on the task queue, the request rings and the LRPC links.
  \<^item> \<open>Psp_Float\<close>: rounding of \<open>float\<close> and \<open>double\<close> to nearest, ties to even, with its error and where it is exact.
  \<^item> \<open>Std_Map\<close>: \<open>std::map\<close> as a sorted association list, conversion of doubles, and the locale \<open>key_store\<close> of
    counting in a map; interpreted on \<open>std::map\<close> here and on \<open>std::unordered_map\<close> in \<open>Client_Log\<close>.

  \<^bold>\<open>Base library\<close> (\<^verbatim>\<open>include/base\<close>).
  \<^item> \<open>Mempool\<close> (\<^verbatim>\<open>mempool.h\<close>): a pool as its free list and counters; under any script of
    allocations and of returns of outstanding items no item is handed out twice.
  \<^item> \<open>Base_Bits\<close> (\<^verbatim>\<open>stddef.h\<close>, \<^verbatim>\<open>byteorder.h\<close>): alignment, wrapping comparisons, byte swaps.
  \<^item> \<open>Base_List\<close> (\<^verbatim>\<open>list.h\<close>): the three intrusive lists over an explicit heap of links; scripts of additions and
    deletions refine lists, the iteration macros visit them.
  \<^item> \<open>Base_Sync\<close> (\<^verbatim>\<open>atomic.h\<close>, \<^verbatim>\<open>kref.h\<close>, \<^verbatim>\<open>lock.h\<close>, \<^verbatim>\<open>gen.h\<close>): the locale \<open>counted\<close> of counted objects, released once by the
    last holder and interpreted on reference counts and on pages; mutual exclusion of spin locks by rule induction over
    the steps of any number of threads; what a reader of a generation number learns, and that the writer is
    stuck once the number has wrapped around.
  \<^item> \<open>Base_Page\<close> (\<^verbatim>\<open>mem.h\<close>, \<^verbatim>\<open>page.h\<close>): addresses and page structures are inverse up to the offset in a page.
  \<^item> \<open>Base_Hash\<close> (\<^verbatim>\<open>hash.h\<close>): the rotation is the library's, the last round of the hash is injective.
  \<^item> \<open>Base_Thread\<close> (\<^verbatim>\<open>thread.h\<close>, \<^verbatim>\<open>tcache.h\<close>): the loop over active threads and where it leaves its table; a
    thread's cache is a bounded stack.
  \<^item> \<open>Checksum\<close> (\<^verbatim>\<open>include/asm/chksum.h\<close>): the assembly computes the checksum of RFC 1071.

  \<^bold>\<open>Server.\<close>
  \<^item> \<open>Taskqueue\<close> (\<^verbatim>\<open>include/psp/taskqueue.h\<close>): the pooled task queue refines a FIFO queue; contexts own their
    stacks; where the return link is written, and that this is outside the stack the context declares.
  \<^item> \<open>Request\<close> (\<^verbatim>\<open>include/psp/libos/Request.hh\<close>): request types, the number parser, the record of a type's queue.
  \<^item> \<open>Scheduler\<close> (\<^verbatim>\<open>include/psp/dispatch.h\<close>, \<^verbatim>\<open>src/c++/libos/common/Worker.cc\<close>): the dispatch loop with its handlers, the
    worker's loop and its coroutine over the shared slots.
  \<^item> \<open>Sched_System\<close>: dispatcher and workers as a step relation of interleaved rounds.  In every reachable state each
    request is in exactly one place, no step faults (accesses to slots, cells, pools and return links; not the
    frames on a coroutine's stack), the dispatcher leaves no worker that is ready without a request while some are
    queued, and a request with an idle worker completes within two quanta; what \<open>init_worker\<close> breaks of this.
    The start state is the one after the workers have called \<open>init_worker\<close>; the step relation has no such step.
  \<^item> \<open>Dispatcher\<close> (\<^verbatim>\<open>DispatchSu.hh\<close>, \<^verbatim>\<open>dispatch_su.cc\<close>): request rings, notifications, draining to free workers.
  \<^item> \<open>Lrpc\<close> (\<^verbatim>\<open>io/lrpc.h\<close>, \<^verbatim>\<open>io/lrpc/context.{hh,cc}\<close>) and \<open>Lrpc_Concurrent\<close>: a link refines a FIFO queue, also under
    every interleaving of the single memory accesses of both sides.
  \<^item> \<open>Udp_Context\<close> (\<^verbatim>\<open>io/udp_dpdk/context.{hh,cc}\<close>): inbound and outbound rings, headers, packet buffers.
  \<^item> \<open>Dpdk_Port\<close> (\<^verbatim>\<open>io/udp_dpdk/dpdk.cc\<close>): bringing up the port, in a trace monad that records the device calls.
  \<^item> \<open>Net_Worker\<close> (\<^verbatim>\<open>su/net_su.cc\<close>, \<^verbatim>\<open>NetSu.hh\<close>): a round of the network thread is a sequence of steps of \<open>Sched_System\<close>.
  \<^item> \<open>App_Worker\<close> (\<^verbatim>\<open>persephone.hh\<close>, \<^verbatim>\<open>Worker.cc\<close>, \<^verbatim>\<open>mb_su.cc\<close>, \<^verbatim>\<open>rocksdb_su.cc\<close>): life cycle, registration, request handlers.
  \<^item> \<open>Psp_Config\<close>, \<open>Psp_Wiring\<close> (\<^verbatim>\<open>src/c++/libos/common/persephone.cc\<close>): the constructor, from the parsed
    configuration to numbered workers with a channel each to the dispatcher.
  \<^item> \<open>Psp_App\<close> (\<^verbatim>\<open>src/c++/apps/app\<close>): the server's \<open>main\<close>: all workers start or all are told to stop, RocksDB workers get the
    database, the packets of the benchmark are queued in order.

  \<^bold>\<open>Load generator\<close> (\<^verbatim>\<open>src/c++/apps/client\<close>).
  \<^item> \<open>Client_Request\<close> (\<^verbatim>\<open>msg.hh\<close>, \<^verbatim>\<open>schedule.hh\<close>): a generated schedule is exactly the one its draws determine.
  \<^item> \<open>Histogram\<close> (\<^verbatim>\<open>include/psp/hist.hh\<close>), \<open>Client_Log\<close> (reports of \<^verbatim>\<open>client.hh\<close>): what the files contain, with times
    and epochs as single precision computes them, and that the checks of the program on its own histogram pass.
  \<^item> \<open>Client_Play\<close>, \<open>Client_Loops\<close> (\<open>class Client\<close>): the play loop ends, keeps the concurrency limit and reads the schedule
    within its bounds; a response is matched with its request through client, network and server, where only the
    bytes of a packet's length are transmitted.
  \<^item> \<open>Client_Main\<close> (\<^verbatim>\<open>common.hh\<close>, \<^verbatim>\<open>client.cc\<close>): configuration, start and stop, and the report files; the requests are laid
    out as the play loop indexes them.

  \<^bold>\<open>Conventions.\<close>  State is passed explicitly as a \<open>record\<close> with the members of the class or struct; memory shared
  by pointer is a function from addresses.  Every check macro, null test and array access of the code is a branch.
  Floating-point numbers are the rationals they stand for.  The reports of the client round every operation to its
  format (\<open>Psp_Float\<close>); the doubles of schedules and configurations are not rounded.  Results of DPDK, RocksDB, the allocator, the
  clock and the random generator are arguments; where a function is called repeatedly the argument is a sequence
  indexed by the number of the call.  The build is the release build: assertions and debug output are compiled out.

  \<^bold>\<open>Fuel.\<close>  Loops with a bound of their own are structural recursions or have a termination proof.  Fuel is used where a
  loop waits for the environment or follows pointers: the iterations of an intrusive list (one more than its nodes is
  enough), the packet loop of the network thread (one turn per packet while contexts last; without a context it
  never ends, which is proved), the generation of a schedule (one per request), the bucket loop (one more than the
  largest bucket) and the loops of the client (the number of clock readings until the maximal duration plus two, and
  one more than the length of the schedule), and the 32-bit index of the client's sampling (the length of the vector:
  after as many turns the index has come back and the loop never ends).  Each bound is part of a theorem that the loop ends.

  \<^bold>\<open>Not modelled.\<close>
  \<^item> \<^verbatim>\<open>context_fast.S\<close>, and \<open>makecontext\<close> of the C library: saving and loading registers and the frames a coroutine has on
    its stack.  The model has their effect on control: a context is prepared, suspended at its switch, or done, and
    switching to it runs it to its next switch.  What the frames overwrite is outside the model; with the stack size
    \<open>context_alloc\<close> records (8 bytes) they begin below the context's own stack item.
  \<^item> DPDK, RocksDB, YAML and boost option parsing: not part of the repository; parameters.
  \<^item> Logging macros and \<^verbatim>\<open>print_dpdk_device_stats\<close>'s output: they change no state the program reads.
  \<^item> Signals that arrive between two steps of \<open>main\<close>; the handlers are modelled as functions.
  \<^item> The search of the client's log directory and the destructor of a client worker, which logs and frees.
  \<^item> Weak memory: shared accesses interleave, but each takes effect at once, as the x86 code with its barriers
    does for the accesses in question.
  \<^item> Declarations without a definition in the repository (slabs, statistics, PCI, sysfs, the refill of the thread
    caches) and the Python scripts of the experiments.
\<close>

end
